(* ===== verification/Prelude.thy ===== *)
theory Prelude
  imports "HOL-Library.Word"
begin

text \<open>
  Shared by every component: the names of the C types the program uses on its 64-bit
  platform, the collections the component proofs add to, and the arithmetic of C words read
  as integers.

  An \<open>unsigned int\<close> or \<open>size_t\<close> is a word of its width, so its arithmetic wraps as in C;
  a C \<open>int\<close> is a \<open>32 word\<close> that is read with \<open>sint\<close>. A pointer is its numeric
  address as an integer: pointer arithmetic that leaves the 64-bit range is undefined in C and
  is never reached from a well-formed heap.
\<close>

unbundle bit_operations_syntax

section \<open>C types\<close>

type_synonym byte = "8 word"
type_synonym addr = int
type_synonym memory = "addr \<Rightarrow> byte"
type_synonym u32 = "32 word"
type_synonym c_int = "32 word"
type_synonym size_t = "64 word"

definition NULL :: addr where
  "NULL = 0"

definition PTR_FAIL :: addr where
  "PTR_FAIL = 2 ^ 64 - 1"

named_theorems c_const \<open>the preprocessor constants\<close>
named_theorems word_int \<open>words read as integers\<close>
named_theorems blk_simps \<open>the macros on a well-formed block\<close>

section \<open>Words as integers\<close>

lemmas word_int_base [word_int] = uint_word_ariths(1,2) word_less_def word_le_def word_uint_eq_iff
  unsigned_ucast_eq

lemma mod_eq_self [word_int]: "0 \<le> k \<Longrightarrow> k < l \<Longrightarrow> k mod l = (k::int)"
  by simp

lemma take_bit_self [word_int]: "0 \<le> k \<Longrightarrow> k < 2 ^ n \<Longrightarrow> take_bit n k = (k::int)"
  by (simp add: take_bit_int_eq_self)

lemma take_bit_uint: "take_bit LENGTH('a) (uint (x::'a::len word)) = uint x"
  by (rule take_bit_int_eq_self) simp_all

lemma not7_push_drop: "(x::'a::len word) AND NOT 7 = push_bit 3 (drop_bit 3 x)"
proof (rule bit_word_eqI)
  fix n assume "n < LENGTH('a)"
  moreover have "bit (7::'a word) n \<longleftrightarrow> n < 3 \<and> n < LENGTH('a)"
  proof -
    have seven: "(7::'a word) = mask 3" by (simp add: mask_numeral)
    show ?thesis unfolding seven bit_mask_iff by auto
  qed
  ultimately show "bit (x AND NOT 7) n = bit (push_bit 3 (drop_bit 3 x)) n"
    by (auto simp: bit_simps not_less)
qed

lemma uint_not7: "uint ((x::'a::len word) AND NOT 7) = uint x - uint x mod 8"
proof -
  let ?k = "push_bit 3 (drop_bit 3 (uint x))"
  have k: "?k = uint x div 8 * 8"
    by (simp add: push_bit_eq_mult drop_bit_eq_div)
  have "?k \<le> uint x"
    unfolding k by presburger
  then have "?k < 2 ^ LENGTH('a)"
    by (rule le_less_trans) (rule uint_lt2p)
  moreover have "0 \<le> ?k"
    unfolding k by (simp add: pos_imp_zdiv_nonneg_iff)
  ultimately have "uint (push_bit 3 (drop_bit 3 x)) = ?k"
    unfolding unsigned_push_bit_eq unsigned_drop_bit_eq by (simp only: take_bit_int_eq_self take_bit_uint)
  then show ?thesis
    unfolding not7_push_drop k by (simp add: minus_mod_eq_div_mult)
qed

lemma uint_minus8: "uint ((x::'a::len word) AND - 8) = uint x - uint x mod 8"
  using uint_not7[of x] by simp

lemma uint_and1: "uint ((x::'a::len word) AND 1) = uint x mod 2"
  by (subst unsigned_and_eq) (simp add: and_one_eq)

lemma sint_small:
  assumes "uint (x :: 'a::len word) < 2 ^ (LENGTH('a) - 1)"
  shows "sint x = uint x"
  unfolding sint_uint
proof (rule signed_take_bit_int_eq_self)
  have "- (2 ^ (LENGTH('a) - Suc 0)) \<le> (0 :: int)" by simp
  also have "0 \<le> uint x" by simp
  finally show "- (2 ^ (LENGTH('a) - Suc 0)) \<le> uint x" .
qed (use assms in simp)

end
