(* ===== verification/Memory.thy ===== *)
theory Memory
  imports Prelude
begin

text \<open>
  The byte memory of the process and the C accesses the allocators make of it: 32-bit and
  64-bit little-endian loads and stores, \<open>memset\<close> and \<open>memcpy\<close>. The memory is total: an
  access out of the heap is a read or write of that address, so that a write out of bounds is
  visible in the result. \<open>same_on A m m'\<close> says that two memories agree on the addresses of
  \<open>A\<close>; every frame property is stated with it.

  \<open>memcpy\<close> returns \<open>None\<close> when source and destination overlap, where the C standard leaves
  the behaviour undefined.
\<close>

section \<open>Byte memory\<close>

definition load32 :: "memory \<Rightarrow> addr \<Rightarrow> u32" where
  "load32 m p = ucast (m p) OR push_bit 8 (ucast (m (p + 1)))
     OR push_bit 16 (ucast (m (p + 2))) OR push_bit 24 (ucast (m (p + 3)))"

definition store32 :: "memory \<Rightarrow> addr \<Rightarrow> u32 \<Rightarrow> memory" where
  "store32 m p v = m(p := ucast v, p + 1 := ucast (drop_bit 8 v),
     p + 2 := ucast (drop_bit 16 v), p + 3 := ucast (drop_bit 24 v))"

definition load64 :: "memory \<Rightarrow> addr \<Rightarrow> 64 word" where
  "load64 m p = ucast (load32 m p) OR push_bit 32 (ucast (load32 m (p + 4)))"

definition store64 :: "memory \<Rightarrow> addr \<Rightarrow> 64 word \<Rightarrow> memory" where
  "store64 m p v = store32 (store32 m p (ucast v)) (p + 4) (ucast (drop_bit 32 v))"

definition memset :: "memory \<Rightarrow> addr \<Rightarrow> byte \<Rightarrow> int \<Rightarrow> memory" where
  "memset m p c n = (\<lambda>a. if p \<le> a \<and> a < p + n then c else m a)"

definition memcpy :: "memory \<Rightarrow> addr \<Rightarrow> addr \<Rightarrow> int \<Rightarrow> memory option" where
  "memcpy m d s n =
     (if 0 < n \<and> d < s + n \<and> s < d + n then None
      else Some (\<lambda>a. if d \<le> a \<and> a < d + n then m (s + (a - d)) else m a))"

definition same_on :: "addr set \<Rightarrow> memory \<Rightarrow> memory \<Rightarrow> bool" where
  "same_on A m m' \<longleftrightarrow> (\<forall>a\<in>A. m' a = m a)"

lemma bit_small: "bit (v::'a::len word) n \<Longrightarrow> LENGTH('a) \<le> n \<Longrightarrow> False"
  by (meson bit_imp_le_length not_less)

lemma le_cases4: obtains "n < 8" | "8 \<le> n" "n < 16" | "16 \<le> n" "n < 24" | "24 \<le> (n::nat)"
  by linarith

lemma load32_store32_same [simp]: "load32 (store32 m p v) p = v"
proof (rule bit_word_eqI)
  fix n assume "n < LENGTH(32)"
  then show "bit (load32 (store32 m p v) p) n = bit v n"
    by (cases n rule: le_cases4) (auto simp: load32_def store32_def bit_simps)
qed

lemma load32_store32_other [simp]:
  "p + 4 \<le> q \<or> q + 4 \<le> p \<Longrightarrow> load32 (store32 m p v) q = load32 m q"
  by (auto simp: load32_def store32_def)

lemma load64_store64_same [simp]: "load64 (store64 m p v) p = v"
proof (rule bit_word_eqI)
  fix n assume "n < LENGTH(64)"
  then show "bit (load64 (store64 m p v) p) n = bit v n"
    by (cases "n < 32") (auto simp: load64_def store64_def bit_simps)
qed

lemma load64_store64_other [simp]:
  "p + 8 \<le> q \<or> q + 8 \<le> p \<Longrightarrow> load64 (store64 m p v) q = load64 m q"
  by (auto simp: load64_def store64_def)

lemma load64_store32_other [simp]:
  "p + 4 \<le> q \<or> q + 8 \<le> p \<Longrightarrow> load64 (store32 m p v) q = load64 m q"
  by (auto simp: load64_def)

lemma load32_store64_other [simp]:
  "p + 8 \<le> q \<or> q + 4 \<le> p \<Longrightarrow> load32 (store64 m p v) q = load32 m q"
  by (auto simp: store64_def)

lemma same_on_load32: "same_on A m m' \<Longrightarrow> {p..<p + 4} \<subseteq> A \<Longrightarrow> load32 m' p = load32 m p"
  by (auto simp: same_on_def load32_def subset_iff)

lemma same_on_load64: "same_on A m m' \<Longrightarrow> {p..<p + 8} \<subseteq> A \<Longrightarrow> load64 m' p = load64 m p"
  unfolding load64_def by (subst (1 2) same_on_load32[where A = A]) (auto simp: subset_iff)

lemma same_on_refl [simp]: "same_on A m m"
  by (simp add: same_on_def)

lemma same_on_trans: "same_on A m m' \<Longrightarrow> same_on A m' m'' \<Longrightarrow> same_on A m m''"
  by (simp add: same_on_def)

lemma same_on_subset: "same_on A m m' \<Longrightarrow> B \<subseteq> A \<Longrightarrow> same_on B m m'"
  by (auto simp: same_on_def)

lemma same_on_store32: "A \<inter> {p..<p + 4} = {} \<Longrightarrow> same_on A m (store32 m p v)"
  by (auto simp: same_on_def store32_def disjoint_iff)

lemma same_on_store64: "A \<inter> {p..<p + 8} = {} \<Longrightarrow> same_on A m (store64 m p v)"
  unfolding store64_def
  by (rule same_on_trans[OF same_on_store32 same_on_store32]) (auto simp: disjoint_iff)

lemma same_on_memset: "A \<inter> {p..<p + n} = {} \<Longrightarrow> same_on A m (memset m p c n)"
  by (auto simp: same_on_def memset_def disjoint_iff)

lemma memcpy_Some:
  "memcpy m d s n = Some m' \<Longrightarrow>
     same_on (- {d..<d + n}) m m' \<and> (\<forall>i. 0 \<le> i \<and> i < n \<longrightarrow> m' (d + i) = m (s + i))"
  by (auto simp: memcpy_def same_on_def split: if_splits)

end
