(* ===== verification/Memlib.thy ===== *)
theory Memlib
  imports Memory
begin

text \<open>
  The static data of the linked program and the simulated memory system of
  \<^verbatim>\<open>memlib.c\<close>. One record holds the statics of \<^verbatim>\<open>memlib.c\<close>
  (\<open>mem_start_brk\<close>, \<open>mem_brk\<close>, \<open>mem_max_addr\<close>), the ones of the linked allocator
  (\<open>heap_listp\<close> of either allocator, \<open>heap_curp\<close> of \<^verbatim>\<open>implicit.c\<close>, \<open>freelist_table\<close> of
  \<^verbatim>\<open>segregate.c\<close>; only one allocator is linked), \<open>errno\<close> and the bytes of the process.

  \<open>mem_init\<close> takes the result of libc's \<open>malloc (MAX_HEAP)\<close> as a parameter.
\<close>

section \<open>The static data of the program\<close>

record mstate =
  mem :: memory
  mem_start_brk :: addr
  mem_brk :: addr
  mem_max_addr :: addr
  errno :: int
  heap_listp :: addr
  heap_curp :: addr
  freelist_table :: addr

definition MAX_HEAP :: int where
  [c_const]: "MAX_HEAP = 20 * (2 ^ 20)"

definition ENOMEM :: int where
  [c_const]: "ENOMEM = 12"

section \<open>Operations\<close>

definition mem_reset_brk :: "mstate \<Rightarrow> mstate" where
  "mem_reset_brk s = s\<lparr>mem_brk := mem_start_brk s\<rparr>"

text \<open>\<open>None\<close> is the \<open>exit(1)\<close> taken when libc has no memory.\<close>

definition mem_init :: "addr \<Rightarrow> mstate \<Rightarrow> mstate option" where
  "mem_init malloc_result s =
     (let s = s\<lparr>mem_start_brk := malloc_result\<rparr>
      in if malloc_result = NULL then None
         else Some (s\<lparr>mem_max_addr := mem_start_brk s + MAX_HEAP, mem_brk := mem_start_brk s\<rparr>))"

definition mem_clear :: "mstate \<Rightarrow> mstate" where
  "mem_clear s = mem_reset_brk (s\<lparr>mem := memset (mem s) (mem_start_brk s) 0 MAX_HEAP\<rparr>)"

definition mem_sbrk :: "c_int \<Rightarrow> mstate \<Rightarrow> addr \<times> mstate" where
  "mem_sbrk incr s =
     (let old_brk = mem_brk s
      in if sint incr < 0 \<or> mem_brk s + sint incr > mem_max_addr s
         then (PTR_FAIL, s\<lparr>errno := ENOMEM\<rparr>)
         else (old_brk, s\<lparr>mem_brk := mem_brk s + sint incr\<rparr>))"

definition mem_heap_lo :: "mstate \<Rightarrow> addr" where
  "mem_heap_lo s = mem_start_brk s"

definition mem_heap_hi :: "mstate \<Rightarrow> addr" where
  "mem_heap_hi s = mem_brk s - 1"

definition mem_heapsize :: "mstate \<Rightarrow> size_t" where
  "mem_heapsize s = word_of_int (mem_brk s - mem_start_brk s)"

section \<open>Facts\<close>

text \<open>The simulated break: inside its arena, which does not wrap the address space.\<close>

definition mem_wf :: "mstate \<Rightarrow> bool" where
  "mem_wf s \<longleftrightarrow> 8 dvd mem_start_brk s \<and> 8 \<le> mem_start_brk s
     \<and> mem_start_brk s \<le> mem_brk s \<and> mem_brk s \<le> mem_max_addr s
     \<and> mem_max_addr s = mem_start_brk s + MAX_HEAP \<and> mem_max_addr s < 2 ^ 63"

definition fresh :: "mstate \<Rightarrow> bool" where
  "fresh s \<longleftrightarrow> (\<forall>a. mem_brk s \<le> a \<and> a < mem_max_addr s \<longrightarrow> mem s a = 0)"

lemma mem_sbrk_cases:
  "mem_sbrk incr s =
     (if 0 \<le> sint incr \<and> mem_brk s + sint incr \<le> mem_max_addr s
      then (mem_brk s, s\<lparr>mem_brk := mem_brk s + sint incr\<rparr>)
      else (PTR_FAIL, s\<lparr>errno := ENOMEM\<rparr>))"
  by (auto simp: mem_sbrk_def Let_def)

lemma mem_reset_same: "mem_brk s = mem_start_brk s \<Longrightarrow> mem_reset_brk s = s"
  by (simp add: mem_reset_brk_def)

lemma mem_sbrk_0: "mem_wf s \<Longrightarrow> mem_sbrk 0 s = (mem_brk s, s)"
  by (simp add: mem_sbrk_cases mem_wf_def)

lemma mem_wf_ptr: "mem_wf s \<Longrightarrow> mem_brk s \<noteq> PTR_FAIL \<and> mem_brk s \<noteq> NULL"
  by (auto simp: mem_wf_def PTR_FAIL_def NULL_def)

lemma mem_sbrk_result:
  assumes "mem_wf s"
  shows "case mem_sbrk incr s of (p, s') \<Rightarrow> mem_wf s' \<and> mem s' = mem s \<and> mem_start_brk s' = mem_start_brk s \<and>
    (if 0 \<le> sint incr \<and> mem_brk s + sint incr \<le> mem_max_addr s
     then p = mem_brk s \<and> mem_brk s' = mem_brk s + sint incr
     else p = PTR_FAIL \<and> mem_brk s' = mem_brk s \<and> errno s' = ENOMEM)"
  using assms by (auto simp: mem_sbrk_cases mem_wf_def)

end
