(* ===== verification/Macros.thy ===== *)
theory Macros
  imports Memlib
begin

text \<open>
  The boundary-tag macros of \<^verbatim>\<open>implicit.c\<close> and the alignment macro of
  \<^verbatim>\<open>utils.h\<close>, one definition per macro, at the widths C gives them: a header is an
  \<open>unsigned int\<close>, so \<open>RB_AVL_SIZE\<close> of an epilogue wraps. \<open>SET_RB\<close> writes the footer
  where the header it has just written says it is. The macros that only read take the memory;
  those that write return the new one.
\<close>

section \<open>utils.h\<close>

definition ALIGNMENT :: "'a::len word" where
  [c_const]: "ALIGNMENT = 8"

definition ALIGN :: "size_t \<Rightarrow> size_t" where
  "ALIGN sz = (sz + (ALIGNMENT - 1)) AND NOT 7"

section \<open>Header words\<close>

definition BLK_FREE :: "'a::len word" where
  [c_const]: "BLK_FREE = 0"

definition BLK_ALLOC :: "'a::len word" where
  [c_const]: "BLK_ALLOC = 1"

definition PACK :: "'a::len word \<Rightarrow> 'a word \<Rightarrow> 'a word" where
  "PACK sz alloc = sz OR alloc"

definition GET :: "memory \<Rightarrow> addr \<Rightarrow> u32" where
  "GET m p = load32 m p"

definition SET :: "memory \<Rightarrow> addr \<Rightarrow> 'a::len word \<Rightarrow> memory" where
  "SET m p val = store32 m p (ucast val)"

definition GET_SIZE :: "memory \<Rightarrow> addr \<Rightarrow> u32" where
  "GET_SIZE m p = GET m p AND NOT 7"

definition GET_ALLOC :: "memory \<Rightarrow> addr \<Rightarrow> u32" where
  "GET_ALLOC m p = GET m p AND 1"

section \<open>Padding, prologue and epilogue\<close>

definition PADDING_BLK_SIZE :: int where
  [c_const]: "PADDING_BLK_SIZE = 4"

definition PB_HDR_SIZE :: int where
  [c_const]: "PB_HDR_SIZE = 4"

definition PB_FTR_SIZE :: int where
  [c_const]: "PB_FTR_SIZE = 4"

definition EB_HDR_SIZE :: int where
  [c_const]: "EB_HDR_SIZE = 4"

definition EB_HDRP :: "addr \<Rightarrow> addr" where
  "EB_HDRP p = p - EB_HDR_SIZE"

definition SET_EB :: "memory \<Rightarrow> addr \<Rightarrow> memory" where
  "SET_EB m p = SET m (EB_HDRP p) (PACK 0 1 :: c_int)"

definition EB :: "memory \<Rightarrow> addr \<Rightarrow> bool" where
  "EB m p \<longleftrightarrow> GET_SIZE m (EB_HDRP p) = 0"

section \<open>Regular blocks\<close>

definition RB_HDR_SIZE :: "'a::len word" where
  [c_const]: "RB_HDR_SIZE = 4"

definition RB_FTR_SIZE :: "'a::len word" where
  [c_const]: "RB_FTR_SIZE = 4"

definition MIN_BLK_SIZE :: size_t where
  [c_const]: "MIN_BLK_SIZE = RB_HDR_SIZE + RB_FTR_SIZE"

definition RB_HDRP :: "addr \<Rightarrow> addr" where
  "RB_HDRP p = p - uint (RB_HDR_SIZE :: c_int)"

definition RB_ALLOC :: "memory \<Rightarrow> addr \<Rightarrow> u32" where
  "RB_ALLOC m p = GET_ALLOC m (RB_HDRP p)"

definition RB_SIZE :: "memory \<Rightarrow> addr \<Rightarrow> u32" where
  "RB_SIZE m p = GET_SIZE m (RB_HDRP p)"

definition RB_AVL_SIZE :: "memory \<Rightarrow> addr \<Rightarrow> u32" where
  "RB_AVL_SIZE m p = RB_SIZE m p - RB_HDR_SIZE - RB_FTR_SIZE"

definition RB_FTRP :: "memory \<Rightarrow> addr \<Rightarrow> addr" where
  "RB_FTRP m p = p + uint (RB_AVL_SIZE m p)"

definition RB_NEXT_HDRP :: "memory \<Rightarrow> addr \<Rightarrow> addr" where
  "RB_NEXT_HDRP m p = RB_HDRP (p + uint (RB_SIZE m p))"

definition RB_PREV_FTRP :: "addr \<Rightarrow> addr" where
  "RB_PREV_FTRP p = p - uint (RB_HDR_SIZE :: c_int) - uint (RB_FTR_SIZE :: c_int)"

definition SET_RB :: "memory \<Rightarrow> addr \<Rightarrow> 'a::len word \<Rightarrow> 'a word \<Rightarrow> memory" where
  "SET_RB m p sz alloc =
     (let m = SET m (RB_HDRP p) (PACK sz alloc)
      in SET m (RB_FTRP m p) (PACK sz alloc))"

section \<open>Neighbours\<close>

definition PREV_BLK_SIZE :: "memory \<Rightarrow> addr \<Rightarrow> u32" where
  "PREV_BLK_SIZE m p = GET_SIZE m (RB_PREV_FTRP p)"

definition PREV_BLK_ALLOC :: "memory \<Rightarrow> addr \<Rightarrow> u32" where
  "PREV_BLK_ALLOC m p = GET_ALLOC m (RB_PREV_FTRP p)"

definition NEXT_BLK_SIZE :: "memory \<Rightarrow> addr \<Rightarrow> u32" where
  "NEXT_BLK_SIZE m p = GET_SIZE m (RB_NEXT_HDRP m p)"

definition NEXT_BLK_ALLOC :: "memory \<Rightarrow> addr \<Rightarrow> u32" where
  "NEXT_BLK_ALLOC m p = GET_ALLOC m (RB_NEXT_HDRP m p)"

definition PREV_BLKP :: "memory \<Rightarrow> addr \<Rightarrow> addr" where
  "PREV_BLKP m p = p - uint (PREV_BLK_SIZE m p)"

definition NEXT_BLKP :: "memory \<Rightarrow> addr \<Rightarrow> addr" where
  "NEXT_BLKP m p = p + uint (RB_SIZE m p)"

text \<open>\<open>mem_sbrk(0)\<close> only reads the break.\<close>

definition TAIL_BLK :: "mstate \<Rightarrow> addr" where
  "TAIL_BLK s = PREV_BLKP (mem s) (fst (mem_sbrk 0 s))"

lemmas macro_defs = GET_def SET_def GET_SIZE_def GET_ALLOC_def EB_HDRP_def SET_EB_def EB_def
  RB_HDRP_def RB_ALLOC_def RB_SIZE_def RB_AVL_SIZE_def RB_FTRP_def RB_NEXT_HDRP_def
  RB_PREV_FTRP_def SET_RB_def PREV_BLK_SIZE_def PREV_BLK_ALLOC_def NEXT_BLK_SIZE_def
  NEXT_BLK_ALLOC_def PREV_BLKP_def NEXT_BLKP_def PACK_def

end
