(* ===== verification/Implicit.thy ===== *)
theory Implicit
  imports Macros "HOL-Library.Monad_Syntax"
begin

text \<open>
  \<^verbatim>\<open>implicit.c\<close>: the allocator with one implicit list of blocks, for each of the three fit
  strategies the build can select (\<open>FIT\<close> of the \<^verbatim>\<open>Makefile\<close>, here the argument \<open>fit\<close>). Each
  function of the file is a definition on \<open>mstate\<close>; the searches are loops over the memory and so
  partial functions, with \<open>None\<close> for a search that does not end. \<open>None\<close> is also the result of a
  \<open>memcpy\<close> between overlapping regions, which C leaves undefined. Every size has the width it has
  in C: block sizes are \<open>int\<close>s of 32 bits, requests are \<open>size_t\<close>s of 64.
\<close>

section \<open>The fit strategy\<close>

datatype fit = USE_FIRST_FIT | USE_NEXT_FIT | USE_BEST_FIT

instantiation fit :: enum
begin

definition enum_fit :: "fit list" where
  "enum_fit = [USE_FIRST_FIT, USE_NEXT_FIT, USE_BEST_FIT]"

definition enum_all_fit :: "(fit \<Rightarrow> bool) \<Rightarrow> bool" where
  "enum_all_fit P \<longleftrightarrow> P USE_FIRST_FIT \<and> P USE_NEXT_FIT \<and> P USE_BEST_FIT"

definition enum_ex_fit :: "(fit \<Rightarrow> bool) \<Rightarrow> bool" where
  "enum_ex_fit P \<longleftrightarrow> P USE_FIRST_FIT \<or> P USE_NEXT_FIT \<or> P USE_BEST_FIT"

instance
proof
  have u: "x = USE_FIRST_FIT \<or> x = USE_NEXT_FIT \<or> x = USE_BEST_FIT" for x by (cases x) auto
  show "UNIV = set (enum_class.enum :: fit list)" using u by (auto simp: enum_fit_def)
  show "distinct (enum_class.enum :: fit list)" by (simp add: enum_fit_def)
  show "enum_class.enum_all P \<longleftrightarrow> Ball UNIV P" for P :: "fit \<Rightarrow> bool" unfolding enum_all_fit_def Ball_def using u by (metis UNIV_I)
  show "enum_class.enum_ex P \<longleftrightarrow> Bex UNIV P" for P :: "fit \<Rightarrow> bool" unfolding enum_ex_fit_def Bex_def using u by (metis UNIV_I)
qed

end

definition place :: "mstate \<Rightarrow> addr \<Rightarrow> size_t \<Rightarrow> addr \<times> mstate" where
  "place s bp sz =
     (if RB_ALLOC (mem s) bp = BLK_ALLOC then (NULL, s)
      else
        let asize = ALIGN sz;
            nsize = asize + RB_HDR_SIZE + RB_FTR_SIZE;
            osize = (ucast (RB_SIZE (mem s) bp) :: size_t)
        in if nsize > osize then (NULL, s)
           else
             let rsize = osize - nsize
             in if rsize < MIN_BLK_SIZE
                then (bp, s\<lparr>mem := SET_RB (mem s) bp osize BLK_ALLOC\<rparr>)
                else
                  let m = SET_RB (mem s) bp nsize BLK_ALLOC;
                      splitp = NEXT_BLKP m bp;
                      m = SET_RB m splitp rsize BLK_FREE
                  in (bp, s\<lparr>mem := m\<rparr>))"

partial_function (option) first_fit_loop ::
  "mstate \<Rightarrow> size_t \<Rightarrow> addr \<Rightarrow> (addr \<times> mstate) option" where
  "first_fit_loop s sz p =
     (if \<not> EB (mem s) p
      then if RB_ALLOC (mem s) p = BLK_FREE \<and> ucast (RB_AVL_SIZE (mem s) p) \<ge> sz
           then Some (place s p sz)
           else first_fit_loop s sz (NEXT_BLKP (mem s) p)
      else Some (NULL, s))"

definition first_fit :: "mstate \<Rightarrow> size_t \<Rightarrow> (addr \<times> mstate) option" where
  "first_fit s sz = first_fit_loop s sz (heap_listp s)"

text \<open>The body of the \<open>do \<dots> while (p != oldp)\<close> loop, entered at \<open>p\<close>.\<close>

partial_function (option) next_fit_loop ::
  "mstate \<Rightarrow> size_t \<Rightarrow> addr \<Rightarrow> addr \<Rightarrow> (addr \<times> mstate) option" where
  "next_fit_loop s sz oldp p =
     (if EB (mem s) p
      then let p = heap_listp s
           in if p \<noteq> oldp then next_fit_loop s sz oldp p else Some (NULL, s)
      else if RB_ALLOC (mem s) p = BLK_FREE \<and> ucast (RB_AVL_SIZE (mem s) p) \<ge> sz
      then Some (place s p sz)
      else let p = NEXT_BLKP (mem s) p
           in if p \<noteq> oldp then next_fit_loop s sz oldp p else Some (NULL, s))"

definition next_fit :: "mstate \<Rightarrow> size_t \<Rightarrow> (addr \<times> mstate) option" where
  "next_fit s sz =
     (let oldp = NEXT_BLKP (mem s) (heap_curp s) in next_fit_loop s sz oldp oldp)"

partial_function (option) best_fit_loop ::
  "mstate \<Rightarrow> size_t \<Rightarrow> size_t \<Rightarrow> addr \<Rightarrow> addr \<Rightarrow> (size_t \<times> addr) option" where
  "best_fit_loop s sz best bestp p =
     (if \<not> EB (mem s) p
      then let nsize = ucast (RB_AVL_SIZE (mem s) p)
           in if RB_ALLOC (mem s) p = BLK_FREE \<and> nsize \<ge> sz \<and> nsize < best
              then best_fit_loop s sz nsize p (NEXT_BLKP (mem s) p)
              else best_fit_loop s sz best bestp (NEXT_BLKP (mem s) p)
      else Some (best, bestp))"

definition best_fit :: "mstate \<Rightarrow> size_t \<Rightarrow> (addr \<times> mstate) option" where
  "best_fit s sz =
     do {
       (best, bestp) \<leftarrow> best_fit_loop s sz (word_of_int MAX_HEAP) NULL (heap_listp s);
       if best = word_of_int MAX_HEAP then Some (NULL, s) else Some (place s bestp sz)
     }"

fun find_fit :: "fit \<Rightarrow> mstate \<Rightarrow> size_t \<Rightarrow> (addr \<times> mstate) option" where
  "find_fit USE_FIRST_FIT s sz = first_fit s sz"
| "find_fit USE_NEXT_FIT s sz = next_fit s sz"
| "find_fit USE_BEST_FIT s sz = best_fit s sz"

definition set_curp :: "fit \<Rightarrow> addr \<Rightarrow> mstate \<Rightarrow> mstate" where
  "set_curp fit p s = (if fit = USE_NEXT_FIT then s\<lparr>heap_curp := p\<rparr> else s)"

definition coalesce :: "fit \<Rightarrow> addr \<Rightarrow> mstate \<Rightarrow> addr \<times> mstate" where
  "coalesce fit bp s =
     (let m = mem s;
          sz = (RB_SIZE m bp :: c_int);
          p = bp;
          sz = (if NEXT_BLK_ALLOC m bp = BLK_FREE then sz + NEXT_BLK_SIZE m bp else sz);
          (sz, p) = (if PREV_BLK_ALLOC m bp = BLK_FREE
                       then (sz + PREV_BLK_SIZE m bp, PREV_BLKP m bp) else (sz, p));
          s = s\<lparr>mem := SET_RB m p sz BLK_FREE\<rparr>
      in (p, set_curp fit p s))"

definition extend_heap :: "c_int \<Rightarrow> mstate \<Rightarrow> addr \<times> mstate" where
  "extend_heap sz s =
     (if sz = 0 then (NULL, s)
      else
        let (old_brkp, s) = mem_sbrk sz s
        in if old_brkp = PTR_FAIL then (NULL, s)
           else (old_brkp, s\<lparr>mem := SET_EB (mem s) (NEXT_BLKP (mem s) old_brkp)\<rparr>))"

definition do_malloc :: "fit \<Rightarrow> size_t \<Rightarrow> mstate \<Rightarrow> addr \<times> mstate" where
  "do_malloc fit sz s =
     (let sz = ALIGN sz;
          tailp = TAIL_BLK s;
          (curp, s) =
            (if RB_ALLOC (mem s) tailp = BLK_FREE
             then let pasize = (ucast (RB_AVL_SIZE (mem s) tailp) :: size_t);
                      tsize = sz - pasize;
                      (r, s) = extend_heap (ucast tsize) s
                  in if r = NULL then (NULL, s) else (tailp, s)
             else let tsize = sz + RB_HDR_SIZE + RB_FTR_SIZE
                  in extend_heap (ucast tsize) s)
      in if curp = NULL then (NULL, s)
         else (curp, set_curp fit curp
                 (s\<lparr>mem := SET_RB (mem s) curp (sz + RB_HDR_SIZE + RB_FTR_SIZE) BLK_ALLOC\<rparr>)))"

definition implicit_mm_init :: "fit \<Rightarrow> mstate \<Rightarrow> c_int \<times> mstate" where
  "implicit_mm_init fit s =
     (let (p, s) = extend_heap (word_of_int
                     (PADDING_BLK_SIZE + PB_HDR_SIZE + PB_FTR_SIZE + EB_HDR_SIZE)) s;
          s = s\<lparr>heap_listp := p\<rparr>
      in if heap_listp s = PTR_FAIL then (1, s)
         else
           let pb = (word_of_int (PB_HDR_SIZE + PB_FTR_SIZE) :: c_int);
               m = SET (mem s) (heap_listp s) (0xDEADBEEF :: u32);
               m = SET m (heap_listp s + PADDING_BLK_SIZE) (PACK pb BLK_ALLOC);
               m = SET m (heap_listp s + PADDING_BLK_SIZE + PB_HDR_SIZE) (PACK pb BLK_ALLOC);
               m = SET m (heap_listp s + PADDING_BLK_SIZE + PB_HDR_SIZE + PB_FTR_SIZE)
                     (PACK (0 :: c_int) BLK_ALLOC);
               s = s\<lparr>mem := m, heap_listp := heap_listp s + (PADDING_BLK_SIZE + PB_HDR_SIZE)\<rparr>
           in (0, set_curp fit (heap_listp s) s))"

definition implicit_mm_malloc :: "fit \<Rightarrow> size_t \<Rightarrow> mstate \<Rightarrow> (addr \<times> mstate) option" where
  "implicit_mm_malloc fit sz s =
     (if sz = 0 then Some (NULL, s)
      else
        do {
          let asize = ALIGN sz;
          (curp, s) \<leftarrow> find_fit fit s asize;
          let (curp, s) = (if curp \<noteq> NULL then (curp, s) else do_malloc fit asize s);
          Some (curp, set_curp fit curp s)
        })"

definition implicit_mm_free :: "fit \<Rightarrow> addr \<Rightarrow> mstate \<Rightarrow> mstate" where
  "implicit_mm_free fit ptr s =
     (let s = s\<lparr>mem := SET_RB (mem s) ptr (RB_SIZE (mem s) ptr) BLK_FREE\<rparr>
      in snd (coalesce fit ptr s))"

text \<open>The code after the label \<open>realloc:\<close>.\<close>

definition realloc_exit :: "fit \<Rightarrow> addr \<Rightarrow> mstate \<Rightarrow> addr \<times> mstate" where
  "realloc_exit fit p s = (p, set_curp fit p s)"

text \<open>The part of \<open>implicit_mm_realloc\<close> for a block that must grow.\<close>

definition realloc_larger ::
  "fit \<Rightarrow> addr \<Rightarrow> size_t \<Rightarrow> size_t \<Rightarrow> size_t \<Rightarrow> mstate \<Rightarrow> (addr \<times> mstate) option" where
  "realloc_larger fit ptr sz nsize bsize s =
   (let m = mem s;
        next_free = (NEXT_BLK_ALLOC m ptr = BLK_FREE);
        fsize = (ucast (NEXT_BLK_SIZE m ptr) :: size_t)
    in if next_free \<and> nsize \<le> bsize + fsize then
      let fsize = fsize - (nsize - bsize);
          m = SET_RB m ptr nsize BLK_ALLOC;
          m = (if fsize \<ge> MIN_BLK_SIZE then SET_RB m (NEXT_BLKP m ptr) fsize BLK_FREE else m)
      in Some (realloc_exit fit ptr (s\<lparr>mem := m\<rparr>))
    else if next_free \<and> EB m (NEXT_BLKP m ptr) then
      let fsize = nsize - bsize - fsize;
          (_, s) = extend_heap (ucast fsize) s
      in Some (realloc_exit fit ptr (s\<lparr>mem := SET_RB (mem s) ptr nsize BLK_ALLOC\<rparr>))
    else
    let prep = PREV_BLKP m ptr;
        fsize = (ucast (RB_SIZE m prep) :: size_t)
    in if RB_ALLOC m prep = BLK_FREE \<and> nsize \<le> bsize + fsize then
      do {
        let fsize = fsize - (nsize - bsize);
        m \<leftarrow> memcpy m prep ptr (uint (RB_AVL_SIZE m ptr));
        let m = SET_RB m prep nsize BLK_ALLOC;
        let m = (if fsize \<ge> MIN_BLK_SIZE then SET_RB m (NEXT_BLKP m prep) fsize BLK_FREE else m);
        Some (realloc_exit fit prep (s\<lparr>mem := m\<rparr>))
      }
    else if ptr = TAIL_BLK s then
      let (p, s) = extend_heap (ucast (nsize - bsize)) s
      in if p = PTR_FAIL then Some (NULL, s)
         else Some (realloc_exit fit p (s\<lparr>mem := SET_RB (mem s) p nsize BLK_ALLOC\<rparr>))
    else
      let (p, s) = do_malloc fit (ALIGN sz) s
      in if p = NULL then Some (NULL, s)
         else
           do {
             m \<leftarrow> memcpy (mem s) p ptr (uint (RB_AVL_SIZE (mem s) ptr));
             let s = implicit_mm_free fit ptr (s\<lparr>mem := m\<rparr>);
             Some (realloc_exit fit p (s\<lparr>mem := SET_RB (mem s) p nsize BLK_ALLOC\<rparr>))
           })"

definition implicit_mm_realloc ::
  "fit \<Rightarrow> addr \<Rightarrow> size_t \<Rightarrow> mstate \<Rightarrow> (addr \<times> mstate) option" where
  "implicit_mm_realloc fit ptr sz s =
   (if ptr = NULL then implicit_mm_malloc fit sz s
    else if sz = 0 then Some (ptr, implicit_mm_free fit ptr s)
    else
    let m = mem s; hdrp = RB_HDRP ptr; ftrp = RB_FTRP m ptr
    in if hdrp = NULL \<or> ftrp = NULL then Some (NULL, s)
    else
    let bsize = (ucast (RB_SIZE m ptr) :: size_t); alloc = RB_ALLOC m ptr
    in if alloc = BLK_FREE \<or> bsize \<le> MIN_BLK_SIZE \<or> bsize mod ALIGNMENT \<noteq> 0
          \<or> GET m hdrp \<noteq> GET m ftrp
    then Some (NULL, s)
    else
    let nsize = ALIGN sz + RB_HDR_SIZE + RB_FTR_SIZE
    in if nsize = bsize then Some (realloc_exit fit ptr s)
    else if nsize < bsize then
      let rsize = bsize - nsize;
          m = (if rsize \<ge> MIN_BLK_SIZE
               then let m = SET_RB m ptr nsize BLK_ALLOC; splitp = NEXT_BLKP m ptr
                    in SET_RB m splitp rsize BLK_FREE
               else m)
      in Some (realloc_exit fit ptr (s\<lparr>mem := m\<rparr>))
    else realloc_larger fit ptr sz nsize bsize s)"

declare first_fit_loop.simps [code] next_fit_loop.simps [code] best_fit_loop.simps [code]

end
