(* ===== verification/Blocks.thy ===== *)
theory Blocks
  imports Macros
begin

text \<open>
  The abstract heap: a list of blocks (total size, allocated?) laid out one after the other.
  \<open>seg m p bs\<close> says that memory \<open>m\<close> holds exactly the blocks \<open>bs\<close> from block pointer \<open>p\<close> on,
  each with equal header and footer; \<open>lay\<close> gives every block its address and \<open>live\<close> the
  payloads of the allocated ones.
\<close>

section \<open>Header words\<close>

definition hdr :: "int \<Rightarrow> bool \<Rightarrow> u32" where
  "hdr s a = word_of_int (s + of_bool a)"

definition sz_ok :: "int \<Rightarrow> bool" where
  "sz_ok s \<longleftrightarrow> 0 \<le> s \<and> s < 2 ^ 31 \<and> 8 dvd s"

lemma sz_okD: "sz_ok s \<Longrightarrow> 0 \<le> s" "sz_ok s \<Longrightarrow> s < 2147483648" "sz_ok s \<Longrightarrow> 8 dvd s"
  by (simp_all add: sz_ok_def)

lemma sz_ok_mod: "sz_ok s \<Longrightarrow> s mod 8 = 0"
  by (simp add: sz_ok_def)

lemma uint_hdr: "sz_ok s \<Longrightarrow> uint (hdr s a) = s + of_bool a"
  unfolding hdr_def uint_word_of_int by (cases a) (auto simp: sz_ok_def)

lemma sz_ok_bool_mod: "sz_ok s \<Longrightarrow> (s + of_bool a) mod 8 = of_bool a"
  by (cases a) (auto simp: sz_ok_def mod_add_left_eq[of s 8 1, symmetric])

lemma sz_ok_even: "sz_ok s \<Longrightarrow> even s"
  by (auto simp: sz_ok_def elim!: dvdE)

lemma sz_ok_bool_mod2: "sz_ok s \<Longrightarrow> (s + of_bool a) mod 2 = of_bool a"
  using sz_ok_even[of s] by (cases a) (auto simp: mod_2_eq_odd)

lemma hdr_size: "sz_ok s \<Longrightarrow> uint (hdr s a AND - 8) = s"
  by (simp add: uint_minus8 uint_hdr sz_ok_bool_mod)

lemma hdr_alloc: "sz_ok s \<Longrightarrow> hdr s a AND 1 = of_bool a"
  unfolding word_uint_eq_iff uint_and1 using sz_ok_bool_mod2[of s a]
  by (cases a) (simp_all add: uint_hdr)

lemma hdr_inject: "sz_ok s \<Longrightarrow> sz_ok t \<Longrightarrow> hdr s a = hdr t b \<longleftrightarrow> s = t \<and> a = b"
proof
  assume ok: "sz_ok s" "sz_ok t" and eq: "hdr s a = hdr t b"
  have "s = t" using hdr_size[OF ok(1), of a] hdr_size[OF ok(2), of b] eq by simp
  moreover have "s + of_bool a = t + of_bool b"
    using uint_hdr[OF ok(1), of a] uint_hdr[OF ok(2), of b] eq by simp
  ultimately show "s = t \<and> a = b" by (cases a; cases b) auto
qed simp

lemma SET_PACK:
  fixes v al :: "'a::len word"
  assumes "uint v = s" "sz_ok s" "al = of_bool a"
  shows "SET m p (PACK v al) = store32 m p (hdr s a)"
proof -
  note ev = sz_ok_even[OF assms(2)]
  have "uint (v OR al) = s OR of_bool a"
    using assms(1,3) by (cases a) (simp_all only: unsigned_or_eq of_bool_eq unsigned_0 unsigned_1)
  then have v: "uint (v OR al) = s + of_bool a"
    using ev by (cases a) (simp_all add: or_one_eq)
  have "take_bit 32 (s + of_bool a) = s + of_bool a"
    using assms(2) by (intro take_bit_int_eq_self) (auto simp: sz_ok_def)
  then have "uint (ucast (v OR al) :: u32) = uint (hdr s a)"
    using assms(2) by (simp add: unsigned_ucast_eq v uint_hdr)
  then have "(ucast (v OR al) :: u32) = hdr s a"
    by (simp only: word_uint_eq_iff)
  then show ?thesis by (simp add: SET_def PACK_def)
qed

section \<open>Headers and footers in memory\<close>

definition hdr_at :: "memory \<Rightarrow> addr \<Rightarrow> int \<Rightarrow> bool \<Rightarrow> bool" where
  "hdr_at m p s a \<longleftrightarrow> sz_ok s \<and> load32 m (p - 4) = hdr s a"

definition ftr_at :: "memory \<Rightarrow> addr \<Rightarrow> int \<Rightarrow> bool \<Rightarrow> bool" where
  "ftr_at m q s a \<longleftrightarrow> sz_ok s \<and> load32 m (q - 8) = hdr s a"

definition blk :: "memory \<Rightarrow> addr \<Rightarrow> int \<Rightarrow> bool \<Rightarrow> bool" where
  "blk m p s a \<longleftrightarrow> 8 \<le> s \<and> hdr_at m p s a \<and> ftr_at m (p + s) s a"

definition put :: "memory \<Rightarrow> addr \<Rightarrow> int \<Rightarrow> bool \<Rightarrow> memory" where
  "put m p s a = store32 (store32 m (p - 4) (hdr s a)) (p + s - 8) (hdr s a)"

lemma blkD: "blk m p s a \<Longrightarrow> hdr_at m p s a" "blk m p s a \<Longrightarrow> ftr_at m (p + s) s a"
    "blk m p s a \<Longrightarrow> 8 \<le> s" "blk m p s a \<Longrightarrow> sz_ok s"
  by (simp_all add: blk_def hdr_at_def)

lemma RB_SIZE_hdr [blk_simps]: "hdr_at m p s a \<Longrightarrow> uint (RB_SIZE m p) = s"
  by (auto simp: macro_defs c_const hdr_at_def hdr_size)

lemma RB_ALLOC_hdr [blk_simps]: "hdr_at m p s a \<Longrightarrow> RB_ALLOC m p = of_bool a"
  by (simp add: macro_defs c_const hdr_at_def hdr_alloc)

lemma EB_hdr [blk_simps]: "hdr_at m p s a \<Longrightarrow> EB m p \<longleftrightarrow> s = 0"
  using hdr_size[of s a] word_uint_eq_iff[of "hdr s a AND - 8" 0]
  by (auto simp: macro_defs c_const hdr_at_def)

lemma RB_AVL_SIZE_hdr [blk_simps]: "hdr_at m p s a \<Longrightarrow> 8 \<le> s \<Longrightarrow> uint (RB_AVL_SIZE m p) = s - 8"
  using RB_SIZE_hdr[of m p s a]
  by (simp add: RB_AVL_SIZE_def c_const uint_word_ariths hdr_at_def sz_ok_def)

lemma RB_FTRP_hdr [blk_simps]: "hdr_at m p s a \<Longrightarrow> 8 \<le> s \<Longrightarrow> RB_FTRP m p = p + s - 8"
  by (simp add: RB_FTRP_def RB_AVL_SIZE_hdr)

lemma NEXT_BLKP_hdr [blk_simps]: "hdr_at m p s a \<Longrightarrow> NEXT_BLKP m p = p + s"
  by (simp add: NEXT_BLKP_def RB_SIZE_hdr)

lemma NEXT_BLK_hdr [blk_simps]:
  assumes "hdr_at m p s a" "hdr_at m (p + s) t b"
  shows "NEXT_BLK_ALLOC m p = of_bool b" "uint (NEXT_BLK_SIZE m p) = t"
  using RB_ALLOC_hdr[OF assms(2)] RB_SIZE_hdr[OF assms(2)] RB_SIZE_hdr[OF assms(1)]
  by (simp_all add: NEXT_BLK_ALLOC_def NEXT_BLK_SIZE_def RB_NEXT_HDRP_def RB_ALLOC_def RB_SIZE_def)

lemma PREV_BLK_ftr [blk_simps]:
  assumes "ftr_at m p t b"
  shows "PREV_BLK_ALLOC m p = of_bool b" "uint (PREV_BLK_SIZE m p) = t" "PREV_BLKP m p = p - t"
  using assms by (auto simp: macro_defs c_const ftr_at_def hdr_alloc hdr_size)

lemma SET_RB_put:
  fixes v al :: "'a::len word"
  assumes "uint v = s" "al = of_bool a" "sz_ok s" "8 \<le> s"
  shows "SET_RB m p v al = put m p s a"
proof -
  let ?m = "store32 m (p - 4) (hdr s a)"
  have "hdr_at ?m p s a"
    using assms(3) by (simp add: hdr_at_def)
  then have "RB_FTRP ?m p = p + s - 8"
    using assms(4) by (rule RB_FTRP_hdr)
  moreover have "RB_HDRP p = p - 4"
    by (simp add: RB_HDRP_def c_const)
  ultimately show ?thesis
    by (simp add: SET_RB_def SET_PACK[OF assms(1,3,2)] put_def Let_def)
qed

lemma put_blk: "sz_ok s \<Longrightarrow> 8 \<le> s \<Longrightarrow> blk (put m p s a) p s a"
  by (simp add: blk_def hdr_at_def ftr_at_def put_def)

lemma same_on_put:
  "A \<inter> {p - 4..<p} = {} \<Longrightarrow> A \<inter> {p + s - 8..<p + s - 4} = {} \<Longrightarrow> same_on A m (put m p s a)"
  unfolding put_def
  by (rule same_on_trans[OF same_on_store32 same_on_store32]) (simp_all add: algebra_simps)

lemma hdr_at_cong: "same_on {p - 4..<p} m m' \<Longrightarrow> hdr_at m' p s a = hdr_at m p s a"
  by (simp add: hdr_at_def same_on_load32[of "{p - 4..<p}"])

lemma ftr_at_cong: "same_on {p - 8..<p - 4} m m' \<Longrightarrow> ftr_at m' p s a = ftr_at m p s a"
  by (simp add: ftr_at_def same_on_load32[of "{p - 8..<p - 4}"])

text \<open>The word in front of the arena reads as an empty block.\<close>

definition empty_front :: "mstate \<Rightarrow> bool" where
  "empty_front s \<longleftrightarrow> (\<exists>a. hdr_at (mem s) (mem_start_brk s) 0 a)"

lemma empty_front_upd:
  assumes "empty_front s" "same_on {..<mem_start_brk s} (mem s) m"
  shows "empty_front (s\<lparr>mem := m\<rparr>)"
proof -
  have "same_on {mem_start_brk s - 4..<mem_start_brk s} (mem s) m"
    by (rule same_on_subset[OF assms(2)]) auto
  then show ?thesis using hdr_at_cong[of "mem_start_brk s" "mem s" m] assms(1) by (simp add: empty_front_def)
qed

lemma empty_front_fields [simp]:
  "empty_front (s\<lparr>heap_curp := c\<rparr>) = empty_front s" "empty_front (s\<lparr>errno := e\<rparr>) = empty_front s"
  "empty_front (s\<lparr>mem_brk := b\<rparr>) = empty_front s" "empty_front (s\<lparr>heap_listp := c\<rparr>) = empty_front s"
  "empty_front (s\<lparr>mem_brk := b, mem := m\<rparr>) = empty_front (s\<lparr>mem := m\<rparr>)"
  by (simp_all add: empty_front_def)

section \<open>Runs of blocks\<close>

type_synonym block = "int \<times> bool"

fun total :: "block list \<Rightarrow> int" where
  "total [] = 0"
| "total ((s, a) # bs) = s + total bs"

fun seg :: "memory \<Rightarrow> addr \<Rightarrow> block list \<Rightarrow> bool" where
  "seg m p [] \<longleftrightarrow> True"
| "seg m p ((s, a) # bs) \<longleftrightarrow> blk m p s a \<and> seg m (p + s) bs"

fun lay :: "addr \<Rightarrow> block list \<Rightarrow> (addr \<times> int \<times> bool) list" where
  "lay p [] = []"
| "lay p ((s, a) # bs) = (p, s, a) # lay (p + s) bs"

definition live :: "addr \<Rightarrow> block list \<Rightarrow> (addr \<times> int) set" where
  "live p bs = {(q, s - 8) | q s. (q, s, True) \<in> set (lay p bs)}"

lemma total_append [simp]: "total (xs @ ys) = total xs + total ys"
  by (induction xs rule: total.induct) auto

lemma seg_append [simp]: "seg m p (xs @ ys) \<longleftrightarrow> seg m p xs \<and> seg m (p + total xs) ys"
  by (induction m p xs rule: seg.induct) (auto simp: algebra_simps)

lemma lay_append [simp]: "lay p (xs @ ys) = lay p xs @ lay (p + total xs) ys"
  by (induction p xs rule: lay.induct) (auto simp: algebra_simps)

lemma live_Nil [simp]: "live p [] = {}"
  by (simp add: live_def)

lemma live_Cons [simp]:
  "live p ((s, a) # bs) = (if a then insert (p, s - 8) (live (p + s) bs) else live (p + s) bs)"
  by (auto simp: live_def)

lemma live_append [simp]: "live p (xs @ ys) = live p xs \<union> live (p + total xs) ys"
  by (auto simp: live_def)

lemma seg_total_ge: "seg m p bs \<Longrightarrow> 8 * int (length bs) \<le> total bs"
  by (induction m p bs rule: seg.induct) (auto dest: blkD(3))

lemma seg_total_nonneg: "seg m p bs \<Longrightarrow> 0 \<le> total bs"
  using seg_total_ge[of m p bs] by linarith

lemma seg_total_dvd: "seg m p bs \<Longrightarrow> 8 dvd total bs"
  by (induction m p bs rule: seg.induct) (auto dest!: blkD(4) simp: sz_ok_def)

lemma total_pos: "seg m p bs \<Longrightarrow> bs \<noteq> [] \<Longrightarrow> 8 \<le> total bs"
  using seg_total_ge[of m p bs] by (cases bs) auto

text \<open>Only the bytes from the first header to the last footer matter.\<close>

lemma seg_cong:
  "same_on {p - 4..<p + total bs - 4} m m' \<Longrightarrow> seg m p bs \<Longrightarrow> seg m' p bs"
proof (induction m p bs rule: seg.induct)
  case (2 m p s a bs)
  have tl: "0 \<le> total bs" using 2 seg_total_nonneg by auto
  have s: "8 \<le> s" using 2 by (auto dest: blkD)
  have "same_on {p - 4..<p} m m'" "same_on {p + s - 8..<p + s - 4} m m'"
      "same_on {p + s - 4..<p + s + total bs - 4} m m'"
    by (rule same_on_subset[OF "2.prems"(1)]; use s tl in auto)+
  then show ?case
    using 2 by (auto simp: blk_def hdr_at_cong ftr_at_cong)
qed simp

lemma seg_hdr_next:
  assumes "seg m p bs" "hdr_at m (p + total bs) t b"
  shows "\<exists>s a. hdr_at m p s a \<and> (if bs = [] then s = t \<and> a = b else (s, a) = hd bs)"
  using assms by (cases bs) (auto dest: blkD)

lemma lay_split:
  assumes "(q, s, a) \<in> set (lay p bs)"
  obtains xs ys where "bs = xs @ (s, a) # ys" "q = p + total xs"
proof -
  have "\<exists>xs ys. bs = xs @ (s, a) # ys \<and> q = p + total xs"
    using assms
  proof (induction p bs rule: lay.induct)
    case (2 p t b bs)
    show ?case
    proof (cases "(q, s, a) = (p, t, b)")
      case True
      then have "(t, b) # bs = [] @ (s, a) # bs \<and> q = p + total []" by simp
      then show ?thesis by blast
    next
      case False
      then obtain xs ys where "bs = xs @ (s, a) # ys" "q = p + t + total xs"
        using 2 by auto
      then have "(t, b) # bs = ((t, b) # xs) @ (s, a) # ys \<and> q = p + total ((t, b) # xs)"
        by simp
      then show ?thesis by blast
    qed
  qed simp
  then show thesis using that by blast
qed

lemma live_split:
  assumes "(q, c) \<in> live p bs"
  obtains xs ys where "bs = xs @ (c + 8, True) # ys" "q = p + total xs"
proof -
  have "(q, c + 8, True) \<in> set (lay p bs)"
    using assms by (auto simp: live_def)
  then show thesis by (rule lay_split) (use that in blast)
qed

lemma live_bounds:
  assumes "seg m p bs" "(q, c) \<in> live p bs"
  shows "p \<le> q \<and> 0 \<le> c \<and> q + c + 8 \<le> p + total bs \<and> 8 dvd (q - p) \<and> 8 dvd c"
proof -
  obtain xs ys where b: "bs = xs @ (c + 8, True) # ys" "q = p + total xs"
    using assms(2) by (rule live_split)
  have "0 \<le> total xs" "8 dvd total xs" "0 \<le> total ys" "8 \<le> c + 8" "sz_ok (c + 8)"
    using assms(1) b by (auto dest: seg_total_nonneg seg_total_dvd blkD)
  moreover from this(5) have "8 dvd c"
    unfolding sz_ok_def by presburger
  ultimately show ?thesis
    using b by auto
qed

lemma live_disjoint:
  assumes "seg m p bs" "(q, c) \<in> live p bs" "(r, d) \<in> live p bs"
  shows "(q, c) = (r, d) \<or> q + c + 8 \<le> r \<or> r + d + 8 \<le> q"
proof -
  obtain xs ys where b: "bs = xs @ (c + 8, True) # ys" "q = p + total xs"
    using assms(2) by (rule live_split)
  have s: "seg m p xs" "seg m (q + c + 8) ys"
    using assms(1) b by (simp_all add: algebra_simps)
  consider "(r, d) \<in> live p xs" | "(r, d) = (q, c)" | "(r, d) \<in> live (q + c + 8) ys"
    using assms(3) b by (auto simp: algebra_simps)
  then show ?thesis
    by cases (use live_bounds[OF s(1)] live_bounds[OF s(2)] b in force)+
qed

definition keeps :: "memory \<Rightarrow> memory \<Rightarrow> (addr \<times> int) set \<Rightarrow> bool" where
  "keeps m m' L \<longleftrightarrow> (\<forall>(q, c) \<in> L. same_on {q..<q + c} m m')"

lemma keeps_refl [simp]: "keeps m m L"
  by (simp add: keeps_def)

lemma keeps_subset: "keeps m m' L \<Longrightarrow> L' \<subseteq> L \<Longrightarrow> keeps m m' L'"
  by (auto simp: keeps_def)

lemma keeps_trans: "keeps m m' L \<Longrightarrow> keeps m' m'' L \<Longrightarrow> keeps m m'' L"
  by (auto simp: keeps_def intro: same_on_trans)

text \<open>Replacing a run of blocks in the middle of the heap by another of the same total.\<close>

lemma seg_replace:
  assumes s: "seg m p (xs @ mid @ ys)"
    and out: "same_on (- {q - 4..<q + total mid - 4}) m m'"
    and q: "q = p + total xs" and t: "total mid' = total mid" and s': "seg m' q mid'"
  shows "seg m' p (xs @ mid' @ ys)"
    "keeps m m' (live p xs \<union> live (q + total mid) ys)"
    "live p (xs @ mid' @ ys) = live p xs \<union> live q mid' \<union> live (q + total mid) ys"
proof -
  have sx: "seg m p xs" and sm: "seg m q mid" and sy: "seg m (q + total mid) ys"
    using s q by (simp_all add: algebra_simps)
  have nn: "0 \<le> total xs" "0 \<le> total mid" "0 \<le> total ys"
    using sx sm sy seg_total_nonneg by auto
  have "same_on {p - 4..<p + total xs - 4} m m'"
    by (rule same_on_subset[OF out]) (use q in auto)
  moreover have "same_on {q + total mid - 4..<q + total mid + total ys - 4} m m'"
    by (rule same_on_subset[OF out]) (use nn in auto)
  ultimately show "seg m' p (xs @ mid' @ ys)"
    using sx sy s' t q by (auto intro: seg_cong)
  show "keeps m m' (live p xs \<union> live (q + total mid) ys)"
    unfolding keeps_def
  proof clarify
    fix r c assume r: "(r, c) \<in> live p xs \<union> live (q + total mid) ys"
    then have "r + c + 8 \<le> q \<or> q + total mid \<le> r"
      using live_bounds[OF sx] live_bounds[OF sy] q by force
    then show "same_on {r..<r + c} m m'"
      by (intro same_on_subset[OF out]) auto
  qed
  show "live p (xs @ mid' @ ys) = live p xs \<union> live q mid' \<union> live (q + total mid) ys"
    using t q by (auto simp: algebra_simps)
qed

section \<open>Writing runs of blocks\<close>

fun puts :: "memory \<Rightarrow> addr \<Rightarrow> block list \<Rightarrow> memory" where
  "puts m p [] = m"
| "puts m p ((s, a) # bs) = puts (put m p s a) (p + s) bs"

definition blks_ok :: "block list \<Rightarrow> bool" where
  "blks_ok bs \<longleftrightarrow> (\<forall>(s, a) \<in> set bs. sz_ok s \<and> 8 \<le> s)"

lemma blks_ok_simps [simp]:
  "blks_ok []" "blks_ok ((s, a) # bs) \<longleftrightarrow> sz_ok s \<and> 8 \<le> s \<and> blks_ok bs"
  "blks_ok (xs @ ys) \<longleftrightarrow> blks_ok xs \<and> blks_ok ys"
  by (auto simp: blks_ok_def)

lemma seg_blks_ok: "seg m p bs \<Longrightarrow> blks_ok bs"
  by (induction m p bs rule: seg.induct) (auto dest: blkD)

lemma blks_ok_total: "blks_ok bs \<Longrightarrow> 0 \<le> total bs"
  by (induction bs rule: total.induct) auto

lemma same_on_puts: "blks_ok bs \<Longrightarrow> same_on (- {p - 4..<p + total bs - 4}) m (puts m p bs)"
proof (induction m p bs rule: puts.induct)
  case (2 m p s a bs)
  have t: "0 \<le> total bs" "8 \<le> s" using 2(2) blks_ok_total by auto
  have "same_on (- {p - 4..<p + (s + total bs) - 4}) m (put m p s a)"
    by (rule same_on_put) (use t in auto)
  moreover have "same_on (- {p - 4..<p + (s + total bs) - 4}) (put m p s a) (puts (put m p s a) (p + s) bs)"
    by (rule same_on_subset[OF 2(1)]) (use 2(2) t in auto)
  ultimately show ?case by (auto intro: same_on_trans)
qed simp

lemma seg_puts: "blks_ok bs \<Longrightarrow> seg (puts m p bs) p bs"
proof (induction m p bs rule: puts.induct)
  case (2 m p s a bs)
  have t: "0 \<le> total bs" "8 \<le> s" using 2(2) blks_ok_total by auto
  have b: "blk (put m p s a) p s a"
    using 2(2) by (simp add: put_blk)
  have sm: "same_on {p - 4..<p + s - 4} (put m p s a) (puts (put m p s a) (p + s) bs)"
  proof (rule same_on_subset[OF same_on_puts])
    show "blks_ok bs" using 2(2) by simp
    show "{p - 4..<p + s - 4} \<subseteq> - {p + s - 4..<p + s + total bs - 4}" by auto
  qed
  have "seg (puts (put m p s a) (p + s) bs) p [(s, a)]"
    by (rule seg_cong[of p "[(s, a)]" "put m p s a"]) (use sm b in simp_all)
  then show ?case using 2 by simp
qed simp

lemma seg_puts_replace:
  assumes "seg m p (xs @ mid @ ys)" "q = p + total xs" "total mid' = total mid" "blks_ok mid'"
  shows "seg (puts m q mid') p (xs @ mid' @ ys)"
    "keeps m (puts m q mid') (live p xs \<union> live (q + total mid) ys)"
    "live p (xs @ mid' @ ys) = live p xs \<union> live q mid' \<union> live (q + total mid) ys"
proof -
  have out: "same_on (- {q - 4..<q + total mid - 4}) m (puts m q mid')"
    using same_on_puts[OF assms(4), of q m] assms(3) by simp
  note r = seg_replace[OF assms(1) out assms(2,3) seg_puts[OF assms(4)]]
  show "seg (puts m q mid') p (xs @ mid' @ ys)" by (rule r)
  show "keeps m (puts m q mid') (live p xs \<union> live (q + total mid) ys)" by (rule r)
  show "live p (xs @ mid' @ ys) = live p xs \<union> live q mid' \<union> live (q + total mid) ys" by (rule r)
qed

section \<open>Finding a block by its address\<close>

fun split_at :: "addr \<Rightarrow> addr \<Rightarrow> block list \<Rightarrow> block list \<times> block list" where
  "split_at p q [] = ([], [])"
| "split_at p q ((s, a) # bs) =
     (if q = p then ([], (s, a) # bs)
      else let (xs, ys) = split_at (p + s) q bs in ((s, a) # xs, ys))"

lemma split_at_append:
  "blks_ok xs \<Longrightarrow> q = p + total xs \<Longrightarrow> split_at p q (xs @ (s, a) # ys) = (xs, (s, a) # ys)"
proof (induction p q xs rule: split_at.induct)
  case (2 p q t b xs)
  then have "q \<noteq> p" using blks_ok_total[of xs] by auto
  then show ?case using 2 by (simp add: algebra_simps)
qed simp

section \<open>Request sizes\<close>

definition align8 :: "int \<Rightarrow> int" where
  "align8 k = (k + 7) div 8 * 8"

lemma align8_facts: "k \<le> align8 k" "align8 k < k + 8" "8 dvd align8 k" "0 \<le> k \<Longrightarrow> 0 \<le> align8 k"
    "0 < k \<Longrightarrow> 8 \<le> align8 k" "8 dvd k \<Longrightarrow> align8 k = k"
  unfolding align8_def by presburger+

lemma uint_ALIGN: "uint n < 2 ^ 64 - 7 \<Longrightarrow> uint (ALIGN n) = align8 (uint n)"
proof -
  assume n: "uint n < 2 ^ 64 - 7"
  have "uint (n + (ALIGNMENT - 1)) = uint n + 7"
    using n by (simp add: c_const uint_word_ariths)
  then show ?thesis
    unfolding ALIGN_def uint_not7 align8_def by (simp add: minus_mod_eq_div_mult)
qed

lemma ucast_word_of_int: "(ucast (word_of_int k :: size_t) :: c_int) = word_of_int k"
  by (rule ucast_down_wi) (simp add: is_down)

lemma ucast_diff: "(ucast (x - y :: size_t) :: c_int) = word_of_int (uint x - uint y)"
  unfolding word_sub_wi by (rule ucast_word_of_int)

lemma ucast_sum: "(ucast (x + y :: size_t) :: c_int) = word_of_int (uint x + uint y)"
  unfolding word_add_def by (rule ucast_word_of_int)

lemma sint_word_of_int: "- (2 ^ 31) \<le> g \<Longrightarrow> g < 2 ^ 31 \<Longrightarrow> sint (word_of_int g :: c_int) = g"
  by (simp add: signed_of_int signed_take_bit_int_eq_self)

section \<open>Moving a payload\<close>

definition moved :: "memory \<Rightarrow> memory \<Rightarrow> addr \<Rightarrow> addr \<Rightarrow> int \<Rightarrow> bool" where
  "moved m m' q r c \<longleftrightarrow> (\<forall>i. 0 \<le> i \<and> i < c \<longrightarrow> m' (r + i) = m (q + i))"

lemma same_on_moved: "same_on {q..<q + c} m m' \<Longrightarrow> moved m m' q q c"
  by (simp add: same_on_def moved_def)

lemma moved_trans:
  assumes "moved m m1 q p c" "same_on {p..<p + c} m1 m2"
  shows "moved m m2 q p c"
  using assms by (auto simp: moved_def same_on_def)

lemma keepsD: "keeps m m' L \<Longrightarrow> (q, c) \<in> L \<Longrightarrow> d \<le> c \<Longrightarrow> same_on {q..<q + d} m m'"
  by (auto simp: keeps_def intro: same_on_subset)

lemma live_unique: "seg m p bs \<Longrightarrow> (q, c) \<in> live p bs \<Longrightarrow> (q, d) \<in> live p bs \<Longrightarrow> c = d"
  using live_disjoint[of m p bs q c q d] live_bounds[of m p bs q c] live_bounds[of m p bs q d] by auto

lemma lay_bounds: "blks_ok bs \<Longrightarrow> (q, t, a) \<in> set (lay p bs) \<Longrightarrow> p \<le> q \<and> 8 \<le> t \<and> q + t \<le> p + total bs"
proof (induction p bs rule: lay.induct)
  case (2 p s b bs)
  then show ?case using blks_ok_total[of bs] by fastforce
qed simp

section \<open>Merging neighbours\<close>

definition prologue :: block where
  "prologue = (8, True)"

definition rgt :: "block list \<Rightarrow> block list" where
  "rgt ys = (case ys of (u, False) # _ \<Rightarrow> [(u, False)] | _ \<Rightarrow> [])"

definition lft :: "block list \<Rightarrow> block list" where
  "lft xs = rgt (rev xs)"

definition joined :: "block list \<Rightarrow> int \<Rightarrow> block list \<Rightarrow> block list" where
  "joined xs t ys = lft xs @ [(t, False)] @ rgt ys"

definition merge_free :: "block list \<Rightarrow> int \<Rightarrow> block list \<Rightarrow> block list" where
  "merge_free xs t ys =
     take (length xs - length (lft xs)) xs @ [(total (joined xs t ys), False)] @ drop (length (rgt ys)) ys"

text \<open>The specification of \<open>free\<close>.\<close>

definition afree :: "addr \<Rightarrow> addr \<Rightarrow> block list \<Rightarrow> block list" where
  "afree base q bs =
     (case split_at base q bs of (xs, (t, _) # ys) \<Rightarrow> merge_free xs t ys | _ \<Rightarrow> bs)"

lemma rgt_cases:
  obtains "rgt ys = []" "ys = [] \<or> snd (hd ys)" | u r where "rgt ys = [(u, False)]" "ys = (u, False) # r"
proof (cases ys)
  case Nil
  then show ?thesis using that(1) by (simp add: rgt_def)
next
  case (Cons y r)
  obtain u b where "y = (u, b)" by force
  with Cons show ?thesis using that(1) that(2)[of u r] by (cases b) (simp_all add: rgt_def)
qed

lemma rgt_split: "ys = rgt ys @ drop (length (rgt ys)) ys"
  by (cases rule: rgt_cases[of ys]) auto

lemma lft_cases:
  obtains "lft xs = []" "xs = [] \<or> snd (last xs)" | u r where "lft xs = [(u, False)]" "xs = r @ [(u, False)]"
proof (cases rule: rgt_cases[of "rev xs"])
  case 1
  then show ?thesis using that(1) by (cases xs rule: rev_cases) (auto simp: lft_def)
next
  case (2 u r)
  then show ?thesis using that(2)[of u "rev r"] by (auto simp: lft_def)
qed

lemma lft_split: "xs = take (length xs - length (lft xs)) xs @ lft xs"
  by (cases rule: lft_cases[of xs]) auto

lemma joined_split:
  "xs @ (t, False) # ys = take (length xs - length (lft xs)) xs @ joined xs t ys @ drop (length (rgt ys)) ys"
  using lft_split[of xs] rgt_split[of ys] by (metis append.assoc append_Cons append_Nil joined_def)

lemma joined_free: "live p (joined xs t ys) = {}"
  by (cases rule: rgt_cases[of ys]; cases rule: lft_cases[of xs]) (simp_all add: joined_def)

lemma joined_total: "total (joined xs t ys) = total (lft xs) + t + total (rgt ys)"
  by (simp add: joined_def)

text \<open>What \<open>coalesce\<close> reads before and after a block.\<close>

lemma next_hdr_seg:
  assumes sg: "seg m q ((t, a) # ys)" and e: "hdr_at m (q + t + total ys) 0 z"
  shows "if rgt ys = [] then \<exists>u b. hdr_at m (q + t) u b \<and> (b \<or> u = 0)
    else hdr_at m (q + t) (total (rgt ys)) False"
proof (cases ys)
  case Nil
  then show ?thesis using e by (auto simp: rgt_def)
next
  case (Cons y r)
  obtain u b where y: "y = (u, b)" by force
  have "hdr_at m (q + t) u b" using sg Cons y by (auto dest: blkD)
  then show ?thesis using Cons y by (cases b) (auto simp: rgt_def)
qed

lemma prev_ftr_seg:
  assumes sg: "seg m p (prologue # xs)" and q: "q = p + 8 + total xs"
  shows "if lft xs = [] then \<exists>u. ftr_at m q u True else ftr_at m q (total (lft xs)) False"
proof -
  obtain zs w c where z: "prologue # xs = zs @ [(w, c)]"
    by (metis append_butlast_last_id list.distinct(1) surj_pair)
  have "q = p + total zs + w"
    using q arg_cong[OF z, of total] by (simp add: prologue_def)
  moreover have "seg m p (zs @ [(w, c)])" using sg z by metis
  ultimately have f: "ftr_at m q w c" by (auto dest: blkD)
  show ?thesis
  proof (cases rule: lft_cases[of xs])
    case 1
    then have "c" using z by (cases xs rule: rev_cases) (auto simp: prologue_def)
    then show ?thesis using 1 f by auto
  next
    case (2 u r)
    then have "(w, c) = (u, False)" using z by (metis last_snoc append_Cons last_ConsR snoc_eq_iff_butlast)
    then show ?thesis using 2 f by simp
  qed
qed

end
