(* ===== verification/Implicit_Search.thy ===== *)
theory Implicit_Search
  imports Implicit Blocks
begin

text \<open>
  The invariant of the implicit allocator and its three fit strategies. \<open>heap_inv\<close> ties the
  bytes of the arena to a list of blocks: prologue, blocks, a size-0 epilogue word, zero bytes
  beyond the break, and in front of the arena a word that reads as an empty block (init reads
  and marks it). The epilogue is never written after the first extension (\<open>extend_heap\<close>
  rewrites the old one), so the invariant needs the fresh memory to be zero; its allocated bit
  is 1 only while the heap has no block. \<open>pick\<close> says which block each strategy takes, and
  \<open>find_fit_eq\<close> that the three loops terminate and take it.
\<close>

section \<open>The heap invariant\<close>

definition heap_inv :: "mstate \<Rightarrow> block list \<Rightarrow> bool" where
  "heap_inv s bs \<longleftrightarrow> mem_wf s \<and> fresh s \<and> heap_listp s = mem_start_brk s + 8
     \<and> seg (mem s) (heap_listp s) (prologue # bs)
     \<and> mem_brk s = heap_listp s + total (prologue # bs)
     \<and> hdr_at (mem s) (mem_brk s) 0 (bs = []) \<and> empty_front s"

definition curp_ok :: "fit \<Rightarrow> mstate \<Rightarrow> block list \<Rightarrow> bool" where
  "curp_ok fit s bs \<longleftrightarrow>
     (fit = USE_NEXT_FIT \<longrightarrow> heap_curp s \<in> fst ` set (lay (heap_listp s) (prologue # bs)))"

definition imp_inv :: "fit \<Rightarrow> mstate \<Rightarrow> block list \<Rightarrow> bool" where
  "imp_inv fit s bs \<longleftrightarrow> heap_inv s bs \<and> curp_ok fit s bs"

lemma heap_invD:
  assumes "heap_inv s bs"
  shows "mem_wf s" "fresh s" "seg (mem s) (heap_listp s) (prologue # bs)"
    "hdr_at (mem s) (mem_brk s) 0 (bs = [])" "mem_brk s = heap_listp s + 8 + total bs"
    "8 dvd heap_listp s" "16 \<le> heap_listp s" "0 \<le> total bs" "total bs \<le> MAX_HEAP - 16"
    "heap_listp s < 2 ^ 63" "8 dvd total bs" "empty_front s"
  using assms seg_total_nonneg[of "mem s" "heap_listp s + 8" bs]
    seg_total_dvd[of "mem s" "heap_listp s + 8" bs]
  by (auto simp: heap_inv_def mem_wf_def prologue_def c_const)

section \<open>The search loops\<close>

definition fits :: "int \<Rightarrow> addr \<times> int \<times> bool \<Rightarrow> bool" where
  "fits k = (\<lambda>(q, t, a). \<not> a \<and> k \<le> t - 8)"

lemma blk_fits:
  assumes "blk m p t a"
  shows "(RB_ALLOC m p = BLK_FREE \<and> ucast (RB_AVL_SIZE m p) \<ge> (n :: size_t)) \<longleftrightarrow> fits (uint n) (p, t, a)"
    "\<not> EB m p" "NEXT_BLKP m p = p + t" "uint (ucast (RB_AVL_SIZE m p) :: size_t) = t - 8"
proof -
  note h = blkD[OF assms]
  show u: "uint (ucast (RB_AVL_SIZE m p) :: size_t) = t - 8"
    using h(4) by (simp add: unsigned_ucast_eq RB_AVL_SIZE_hdr[OF h(1,3)] take_bit_int_eq_self sz_ok_def h(3))
  then show "(RB_ALLOC m p = BLK_FREE \<and> ucast (RB_AVL_SIZE m p) \<ge> n) \<longleftrightarrow> fits (uint n) (p, t, a)"
    using RB_ALLOC_hdr[OF h(1)] by (auto simp: fits_def word_le_def BLK_FREE_def)
  show "\<not> EB m p" "NEXT_BLKP m p = p + t"
    using h(1,3) EB_hdr NEXT_BLKP_hdr by auto
qed

definition found :: "mstate \<Rightarrow> size_t \<Rightarrow> (addr \<times> int \<times> bool) option \<Rightarrow> addr \<times> mstate" where
  "found s n r = (case r of None \<Rightarrow> (NULL, s) | Some (q, t, a) \<Rightarrow> place s q n)"

lemma found_simps [simp]: "found s n None = (NULL, s)" "found s n (Some (q, t, a)) = place s q n"
  by (simp_all add: found_def)

lemma first_fit_loop_eq:
  assumes "seg (mem s) p bs" "hdr_at (mem s) (p + total bs) 0 e"
  shows "first_fit_loop s n p = Some (found s n (find (fits (uint n)) (lay p bs)))"
  using assms
proof (induction bs arbitrary: p)
  case Nil
  then show ?case by (subst first_fit_loop.simps) (auto simp: EB_hdr)
next
  case (Cons b bs)
  obtain t a where b: "b = (t, a)" by force
  then have blk: "blk (mem s) p t a" and r: "seg (mem s) (p + t) bs" "hdr_at (mem s) (p + t + total bs) 0 e"
    using Cons.prems by (auto simp: algebra_simps)
  show ?case
    using Cons.IH[OF r] by (subst first_fit_loop.simps) (simp add: blk_fits[OF blk] b)
qed

lemma next_fit_loop_low:
  assumes "xs \<noteq> []" "seg (mem s) p xs" "oldp = p + total xs"
  shows "next_fit_loop s n oldp p = Some (found s n (find (fits (uint n)) (lay p xs)))"
  using assms
proof (induction xs arbitrary: p)
  case (Cons b xs)
  obtain t a where b: "b = (t, a)" by force
  then have blk: "blk (mem s) p t a" and r: "seg (mem s) (p + t) xs" "oldp = p + t + total xs"
    using Cons.prems by auto
  have "xs = [] \<longleftrightarrow> p + t = oldp"
    using r total_pos[OF r(1)] by (cases "xs = []") auto
  then show ?case
    using Cons.IH[OF _ r] by (subst next_fit_loop.simps) (auto simp: blk_fits[OF blk] b Let_def)
qed simp

lemma next_fit_loop_eq:
  assumes "seg (mem s) p ys" "hdr_at (mem s) (p + total ys) 0 e" "oldp \<le> p"
    and "xs \<noteq> []" "seg (mem s) (heap_listp s) xs" "oldp = heap_listp s + total xs"
  shows "next_fit_loop s n oldp p =
     Some (found s n (find (fits (uint n)) (lay p ys @ lay (heap_listp s) xs)))"
  using assms(1-3)
proof (induction ys arbitrary: p)
  case Nil
  have "heap_listp s \<noteq> oldp"
    using total_pos[OF assms(5,4)] assms(6) by simp
  with Nil show ?case
    using next_fit_loop_low[OF assms(4-6), of n]
    by (subst next_fit_loop.simps) (auto simp: EB_hdr Let_def)
next
  case (Cons b ys)
  obtain t a where b: "b = (t, a)" by force
  then have blk: "blk (mem s) p t a" and r: "seg (mem s) (p + t) ys" "hdr_at (mem s) (p + t + total ys) 0 e"
    using Cons.prems by (auto simp: algebra_simps)
  have "oldp < p + t" using Cons.prems blkD(3)[OF blk] by auto
  then show ?case
    using Cons.IH[OF r] by (subst next_fit_loop.simps) (auto simp: blk_fits[OF blk] b Let_def)
qed

fun best_of :: "int \<Rightarrow> int \<Rightarrow> addr \<Rightarrow> (addr \<times> int \<times> bool) list \<Rightarrow> int \<times> addr" where
  "best_of k b bp [] = (b, bp)"
| "best_of k b bp ((q, t, a) # L) =
     (if fits k (q, t, a) \<and> t - 8 < b then best_of k (t - 8) q L else best_of k b bp L)"

lemma best_fit_loop_eq:
  assumes "seg (mem s) p bs" "hdr_at (mem s) (p + total bs) 0 e"
  shows "\<exists>w. best_fit_loop s n best bp p = Some (w, snd (best_of (uint n) (uint best) bp (lay p bs)))
     \<and> uint w = fst (best_of (uint n) (uint best) bp (lay p bs))"
  using assms
proof (induction bs arbitrary: p best bp)
  case Nil
  then show ?case by (subst best_fit_loop.simps) (auto simp: EB_hdr)
next
  case (Cons b bs)
  obtain t a where b: "b = (t, a)" by force
  then have blk: "blk (mem s) p t a" and r: "seg (mem s) (p + t) bs" "hdr_at (mem s) (p + t + total bs) 0 e"
    using Cons.prems by (auto simp: algebra_simps)
  note f = blk_fits[OF blk]
  have c: "(RB_ALLOC (mem s) p = BLK_FREE \<and> ucast (RB_AVL_SIZE (mem s) p) \<ge> n
      \<and> ucast (RB_AVL_SIZE (mem s) p) < best) \<longleftrightarrow> fits (uint n) (p, t, a) \<and> t - 8 < uint best"
    using f(1,4) by (auto simp: word_less_def)
  show ?case
    using Cons.IH[OF r, of best bp] Cons.IH[OF r, of "ucast (RB_AVL_SIZE (mem s) p)" p]
    by (subst best_fit_loop.simps) (simp add: f(2,3,4) b c Let_def)
qed

fun pick :: "fit \<Rightarrow> addr \<Rightarrow> int \<Rightarrow> (addr \<times> int \<times> bool) list \<Rightarrow> (addr \<times> int \<times> bool) option" where
  "pick USE_FIRST_FIT cur k L = find (fits k) L"
| "pick USE_NEXT_FIT cur k L =
     find (fits k) (dropWhile (\<lambda>b. fst b \<le> cur) L @ takeWhile (\<lambda>b. fst b \<le> cur) L)"
| "pick USE_BEST_FIT cur k L =
     (let (b, bp) = best_of k MAX_HEAP NULL L
      in if b = MAX_HEAP then None else Some (bp, b + 8, False))"

lemma takeWhile_lay:
  assumes "blks_ok (xs @ ys)" "p + total xs \<le> cur + t" "0 < t"
    and "\<forall>b \<in> set (lay p xs). fst b \<le> cur" "cur < p + total xs"
  shows "takeWhile (\<lambda>b. fst b \<le> cur) (lay p (xs @ ys)) = lay p xs"
    "dropWhile (\<lambda>b. fst b \<le> cur) (lay p (xs @ ys)) = lay (p + total xs) ys"
proof -
  have "ys \<noteq> [] \<Longrightarrow> \<not> fst (hd (lay (p + total xs) ys)) \<le> cur"
    using assms(5) by (cases ys) auto
  then show "takeWhile (\<lambda>b. fst b \<le> cur) (lay p (xs @ ys)) = lay p xs"
    "dropWhile (\<lambda>b. fst b \<le> cur) (lay p (xs @ ys)) = lay (p + total xs) ys"
    using assms(4) by (cases ys; auto simp: takeWhile_append dropWhile_append)+
qed

lemma best_of_le: "fst (best_of k b bp L) \<le> b"
proof (induction k b bp L rule: best_of.induct)
  case (2 k b bp q t a L)
  then show ?case by (cases "fits k (q, t, a) \<and> t - 8 < b") auto
qed simp

lemma best_of_mem:
  "best_of k b bp L = (b', bp') \<Longrightarrow>
     (b' = b \<and> bp' = bp) \<or> (b' < b \<and> (bp', b' + 8, False) \<in> set L \<and> k \<le> b')"
proof (induction k b bp L rule: best_of.induct)
  case (2 k b bp q t a L)
  show ?case
  proof (cases "fits k (q, t, a) \<and> t - 8 < b")
    case True
    then have "best_of k (t - 8) q L = (b', bp')" using 2(3) by simp
    from "2.IH"(1)[OF True this] True show ?thesis by (auto simp: fits_def)
  next
    case False
    then have "best_of k b bp L = (b', bp')" using 2(3) by (simp only: best_of.simps if_False)
    from "2.IH"(2)[OF False this] show ?thesis by auto
  qed
qed simp

lemma best_of_min:
  "(q, t, a) \<in> set L \<Longrightarrow> fits k (q, t, a) \<Longrightarrow> fst (best_of k b bp L) \<le> t - 8"
proof (induction k b bp L rule: best_of.induct)
  case (2 k b bp q' t' a' L)
  show ?case
  proof (cases "(q, t, a) \<in> set L")
    case True
    note ih = "2.IH"(1)[OF _ True 2(4)] "2.IH"(2)[OF _ True 2(4)]
    show ?thesis
    proof (cases "fits k (q', t', a') \<and> t' - 8 < b")
      case True
      show ?thesis unfolding best_of.simps if_P[OF True] by (rule ih(1)[OF True])
    next
      case False
      show ?thesis unfolding best_of.simps if_not_P[OF False] by (rule ih(2)[OF False])
    qed
  next
    case False
    then have "(q', t', a') = (q, t, a)" using 2(3) by simp
    then show ?thesis
      using 2(4) best_of_le[of k "t - 8" q L] best_of_le[of k b bp L] by auto
  qed
qed simp

lemma find_SomeD: "find P xs = Some x \<Longrightarrow> x \<in> set xs \<and> P x"
  by (auto simp: find_Some_iff)

lemma pick_Some:
  assumes "pick fit cur k L = Some (q, t, a)"
  shows "(q, t, a) \<in> set L \<and> fits k (q, t, a)"
proof (cases fit)
  case USE_NEXT_FIT
  then have "(q, t, a) \<in> set (dropWhile (\<lambda>b. fst b \<le> cur) L @ takeWhile (\<lambda>b. fst b \<le> cur) L)"
      "fits k (q, t, a)"
    using assms find_SomeD by fastforce+
  then show ?thesis by (auto dest: set_takeWhileD set_dropWhileD)
next
  case USE_BEST_FIT
  then show ?thesis
    using assms best_of_mem[of k MAX_HEAP NULL L]
    by (auto simp: fits_def split: if_splits prod.splits)
qed (use assms find_SomeD in force)

lemma pick_None:
  assumes "pick fit cur k L = None" "(q, t, a) \<in> set L" "t - 8 < MAX_HEAP"
  shows "\<not> fits k (q, t, a)"
proof (cases fit)
  case USE_FIRST_FIT
  then show ?thesis using assms by (auto simp: find_None_iff)
next
  case USE_NEXT_FIT
  have "(q, t, a) \<in> set (takeWhile (\<lambda>b. fst b \<le> cur) L) \<union> set (dropWhile (\<lambda>b. fst b \<le> cur) L)"
    using assms(2) by (metis set_append takeWhile_dropWhile_id)
  then show ?thesis using assms(1) USE_NEXT_FIT by (fastforce simp: find_None_iff)
next
  case USE_BEST_FIT
  then show ?thesis
    using assms best_of_min[OF assms(2), of k MAX_HEAP NULL]
    by (auto split: if_splits prod.splits)
qed

lemma find_fit_eq:
  assumes inv: "imp_inv fit s bs"
  shows "find_fit fit s n =
     Some (found s n (pick fit (heap_curp s) (uint n) (lay (heap_listp s) (prologue # bs))))"
proof -
  let ?L = "lay (heap_listp s) (prologue # bs)"
  have h: "heap_inv s bs" using inv by (simp add: imp_inv_def)
  note sg = heap_invD(3)[OF h]
  have e: "hdr_at (mem s) (heap_listp s + total (prologue # bs)) 0 (bs = [])"
    using heap_invD(4,5)[OF h] by (simp add: prologue_def algebra_simps)
  show ?thesis
  proof (cases fit)
    case USE_FIRST_FIT
    then show ?thesis using first_fit_loop_eq[OF sg e] by (simp add: first_fit_def)
  next
    case USE_BEST_FIT
    obtain b bp where b: "best_of (uint n) MAX_HEAP NULL ?L = (b, bp)" by force
    have m: "uint (word_of_int MAX_HEAP :: size_t) = MAX_HEAP" by (simp add: c_const)
    obtain w where w: "best_fit_loop s n (word_of_int MAX_HEAP) NULL (heap_listp s) = Some (w, bp)" "uint w = b"
      using best_fit_loop_eq[OF sg e, of n "word_of_int MAX_HEAP" NULL] b m by auto
    have "w = word_of_int MAX_HEAP \<longleftrightarrow> b = MAX_HEAP"
      using w(2) m by (metis word_of_int_uint)
    then show ?thesis using USE_BEST_FIT w(1) b by (simp add: best_fit_def)
  next
    case USE_NEXT_FIT
    then obtain t a where "(heap_curp s, t, a) \<in> set ?L"
      using inv by (auto simp: imp_inv_def curp_ok_def)
    then obtain xs ys where x: "prologue # bs = xs @ (t, a) # ys" "heap_curp s = heap_listp s + total xs"
      by (rule lay_split)
    let ?xs = "xs @ [(t, a)]"
    let ?o = "heap_listp s + total ?xs"
    have sx: "seg (mem s) (heap_listp s) ?xs" "seg (mem s) ?o ys" and ok: "blks_ok (?xs @ ys)"
      using sg x(1) seg_blks_ok[OF sg] by (simp_all add: algebra_simps)
    have t: "blk (mem s) (heap_curp s) t a" "0 < t" using sx x(2) by (auto dest: blkD)
    have o: "NEXT_BLKP (mem s) (heap_curp s) = ?o"
      using blk_fits(3)[OF t(1)] x(2) by simp
    have le: "\<forall>b \<in> set (lay (heap_listp s) ?xs). fst b \<le> heap_curp s"
      using lay_bounds[of xs] ok x(2) by fastforce
    have "takeWhile (\<lambda>b. fst b \<le> heap_curp s) ?L = lay (heap_listp s) ?xs"
      "dropWhile (\<lambda>b. fst b \<le> heap_curp s) ?L = lay ?o ys"
      using takeWhile_lay[OF ok, of "heap_listp s" "heap_curp s" t] t(2) le x by simp_all
    moreover have "hdr_at (mem s) (?o + total ys) 0 (bs = [])"
      using e x(1) by (simp add: algebra_simps)
    ultimately show ?thesis
      using next_fit_loop_eq[OF sx(2) _ order_refl _ sx(1) refl, of "bs = []" n] USE_NEXT_FIT
      by (simp add: next_fit_def Let_def o)
  qed
qed

end
