(* ===== verification/Implicit_Alloc.thy ===== *)
theory Implicit_Alloc
  imports Implicit_Search
begin

text \<open>
  \<open>place\<close>, \<open>extend_heap\<close>, \<open>do_malloc\<close>, \<open>malloc\<close>, \<open>coalesce\<close> and \<open>free\<close> of the
  implicit allocator refine executable operations on the block list: \<open>cut\<close>, \<open>agrow\<close>,
  \<open>amalloc\<close>, \<open>merge_free\<close>, \<open>afree\<close>. Each refinement lemma also says that the invariant is
  kept, which payloads are live afterwards and that the live payloads keep their bytes.
\<close>

section \<open>Placing a block\<close>

definition cut :: "int \<Rightarrow> int \<Rightarrow> block list" where
  "cut s n = (if s - n < 8 then [(s, True)] else [(n, True), (s - n, False)])"

lemma cut_ok:
  assumes "sz_ok t" "8 dvd n" "8 \<le> n" "n \<le> t"
  shows "total (cut t n) = t" "blks_ok (cut t n)" "cut t n \<noteq> []"
    "\<exists>c. live q (cut t n) = {(q, c)} \<and> n - 8 \<le> c \<and> c \<le> t - 8"
  using assms by (auto simp: cut_def sz_ok_def)

lemma place_free:
  assumes b: "blk (mem s) q t False" and k: "uint n = k" "8 dvd k" "k \<le> t - 8"
  shows "place s q n = (q, s\<lparr>mem := puts (mem s) q (cut t (k + 8))\<rparr>)"
proof -
  note h = blkD[OF b]
  have t: "t < 2 ^ 31" using h(4) by (simp add: sz_ok_def)
  have k0: "0 \<le> k" using k(1) by auto
  have os: "uint (ucast (RB_SIZE (mem s) q) :: size_t) = t"
    using t h(3) by (simp add: unsigned_ucast_eq RB_SIZE_hdr[OF h(1)] take_bit_int_eq_self)
  have ns: "uint (ALIGN n + RB_HDR_SIZE + RB_FTR_SIZE) = k + 8"
    using uint_ALIGN[of n] k t k0 by (simp add: c_const uint_word_ariths align8_facts(6))
  have rs: "uint (ucast (RB_SIZE (mem s) q) - (ALIGN n + RB_HDR_SIZE + RB_FTR_SIZE) :: size_t) = t - (k + 8)"
    unfolding uint_word_ariths(2) os ns using k t k0 by simp
  have rmin: "ucast (RB_SIZE (mem s) q) - (ALIGN n + RB_HDR_SIZE + RB_FTR_SIZE) < MIN_BLK_SIZE
      \<longleftrightarrow> t - (k + 8) < 8"
    unfolding word_less_def rs by (simp add: c_const)
  have ok: "sz_ok (k + 8)" "sz_ok (t - (k + 8))"
    using h(4) k k0 by (auto simp: sz_ok_def)
  have one: "BLK_ALLOC = of_bool True" "BLK_FREE = of_bool False"
    by (simp_all add: c_const)
  note set1 = SET_RB_put[OF os one(1) h(4,3)]
    and set2 = SET_RB_put[OF ns one(1) ok(1)]
    and set3 = SET_RB_put[OF rs one(2) ok(2)]
  have al: "RB_ALLOC (mem s) q \<noteq> BLK_ALLOC"
    by (simp add: RB_ALLOC_hdr[OF h(1)] c_const)
  have fit: "\<not> ucast (RB_SIZE (mem s) q) < ALIGN n + RB_HDR_SIZE + RB_FTR_SIZE"
    unfolding word_less_def os ns using k by simp
  have nx: "NEXT_BLKP (put (mem s) q (k + 8) True) q = q + (k + 8)"
    using NEXT_BLKP_hdr[OF blkD(1)[OF put_blk[OF ok(1)]]] k0 by simp
  show ?thesis
    using k0 nx set1 set2 set3 by (simp add: place_def Let_def al fit rmin cut_def)
qed

text \<open>Any update of a run of blocks inside the heap keeps the heap invariant.\<close>

lemma heap_inv_upd:
  assumes inv: "heap_inv s (xs @ mid @ ys)" and q: "q = heap_listp s + 8 + total xs"
    and out: "same_on (- {q - 4..<q + total mid - 4}) (mem s) m'"
    and t: "total mid' = total mid" "seg m' q mid'" "mid \<noteq> []" "mid' \<noteq> []"
  shows "heap_inv (s\<lparr>mem := m', heap_curp := c\<rparr>) (xs @ mid' @ ys)"
    "heap_inv (s\<lparr>mem := m'\<rparr>) (xs @ mid' @ ys)"
    "keeps (mem s) m' (live (heap_listp s + 8) xs \<union> live (q + total mid) ys)"
    "live (heap_listp s + 8) (xs @ mid' @ ys) =
       live (heap_listp s + 8) xs \<union> live q mid' \<union> live (q + total mid) ys"
proof -
  note h = heap_invD[OF inv]
  have sg: "seg (mem s) (heap_listp s) ((prologue # xs) @ mid @ ys)" using h(3) by simp
  have q': "q = heap_listp s + total (prologue # xs)" using q by (simp add: prologue_def)
  have s8: "seg (mem s) (heap_listp s + 8) (xs @ mid @ ys)" using h(3) by (simp add: prologue_def)
  have nn: "0 \<le> total xs" "0 \<le> total mid" "0 \<le> total ys"
    using s8 seg_total_nonneg by (auto simp: algebra_simps)
  note r = seg_replace[OF sg out q' t(1,2)]
  have "same_on {mem_brk s - 4..} (mem s) m'"
    by (rule same_on_subset[OF out]) (use h(5) q nn in auto)
  then have "hdr_at m' (mem_brk s) 0 (xs @ mid' @ ys = [])" "\<forall>a \<ge> mem_brk s. m' a = mem s a"
    using h(4) t(3,4) hdr_at_cong[of "mem_brk s" "mem s" m']
    by (auto simp: same_on_def)
  moreover have "seg m' (heap_listp s) (prologue # xs @ mid' @ ys)" using r(1) by simp
  moreover have "mem_brk s = heap_listp s + total (prologue # xs @ mid' @ ys)"
    using h(5) t(1) by (simp add: prologue_def)
  moreover have "same_on {..<mem_start_brk s} (mem s) m'"
    by (rule same_on_subset[OF out]) (use inv q nn in \<open>auto simp: heap_inv_def\<close>)
  then have "empty_front (s\<lparr>mem := m'\<rparr>)" by (rule empty_front_upd[OF h(12)])
  ultimately show "heap_inv (s\<lparr>mem := m', heap_curp := c\<rparr>) (xs @ mid' @ ys)"
      "heap_inv (s\<lparr>mem := m'\<rparr>) (xs @ mid' @ ys)"
    using inv unfolding heap_inv_def mem_wf_def fresh_def by simp_all
  note r8 = seg_replace[OF s8 out q t(1,2)]
  show "keeps (mem s) m' (live (heap_listp s + 8) xs \<union> live (q + total mid) ys)"
    "live (heap_listp s + 8) (xs @ mid' @ ys) =
       live (heap_listp s + 8) xs \<union> live q mid' \<union> live (q + total mid) ys"
    using r8(2,3) by auto
qed

lemma heap_inv_puts:
  assumes inv: "heap_inv s (xs @ mid @ ys)" and q: "q = heap_listp s + 8 + total xs"
    and t: "total mid' = total mid" "blks_ok mid'" "mid \<noteq> []" "mid' \<noteq> []"
  shows "heap_inv (s\<lparr>mem := puts (mem s) q mid', heap_curp := c\<rparr>) (xs @ mid' @ ys)"
    "heap_inv (s\<lparr>mem := puts (mem s) q mid'\<rparr>) (xs @ mid' @ ys)"
    "keeps (mem s) (puts (mem s) q mid') (live (heap_listp s + 8) xs \<union> live (q + total mid) ys)"
    "live (heap_listp s + 8) (xs @ mid' @ ys) =
       live (heap_listp s + 8) xs \<union> live q mid' \<union> live (q + total mid) ys"
proof -
  have out: "same_on (- {q - 4..<q + total mid - 4}) (mem s) (puts (mem s) q mid')"
    using same_on_puts[OF t(2), of q "mem s"] t(1) by simp
  note r = heap_inv_upd[OF inv q out t(1) seg_puts[OF t(2)] t(3,4)]
  show "heap_inv (s\<lparr>mem := puts (mem s) q mid', heap_curp := c\<rparr>) (xs @ mid' @ ys)" by (rule r)
  show "heap_inv (s\<lparr>mem := puts (mem s) q mid'\<rparr>) (xs @ mid' @ ys)" by (rule r)
  show "keeps (mem s) (puts (mem s) q mid') (live (heap_listp s + 8) xs \<union> live (q + total mid) ys)" by (rule r)
  show "live (heap_listp s + 8) (xs @ mid' @ ys) =
       live (heap_listp s + 8) xs \<union> live q mid' \<union> live (q + total mid) ys" by (rule r)
qed

section \<open>Growing the heap\<close>

lemma extend_heap_eq:
  assumes wf: "mem_wf s" and e: "hdr_at (mem s) (mem_brk s) 0 b" and g: "sint g = G"
  shows "if 0 < G \<and> mem_brk s + G \<le> mem_max_addr s
    then extend_heap g s =
      (mem_brk s, s\<lparr>mem_brk := mem_brk s + G, mem := store32 (mem s) (mem_brk s - 4) (hdr 0 True)\<rparr>)
    else \<exists>e. extend_heap g s = (NULL, s\<lparr>errno := e\<rparr>)"
proof -
  have g0: "g = 0 \<longleftrightarrow> G = 0" using g signed_eq_0_iff[of g] by auto
  have ptr: "mem_brk s \<noteq> PTR_FAIL" using mem_wf_ptr[OF wf] by simp
  have nx: "NEXT_BLKP (mem s) (mem_brk s) = mem_brk s"
    using NEXT_BLKP_hdr[OF e] by simp
  have eb: "SET_EB m p = store32 m (p - 4) (hdr 0 True)" for m p
    by (simp add: macro_defs c_const hdr_def)
  have same: "s = s\<lparr>errno := errno s\<rparr>" by simp
  have "\<exists>e. extend_heap g s = (NULL, s\<lparr>errno := e\<rparr>)" if "G = 0"
    using that g0 by (intro exI[of _ "errno s"]) (simp add: extend_heap_def)
  moreover have "\<exists>e. extend_heap g s = (NULL, s\<lparr>errno := e\<rparr>)"
    if "G \<noteq> 0" "\<not> (0 < G \<and> mem_brk s + G \<le> mem_max_addr s)"
    using that g g0 by (intro exI[of _ ENOMEM]) (auto simp: extend_heap_def mem_sbrk_cases)
  ultimately show ?thesis
    using g g0 ptr nx eb by (cases "G = 0") (auto simp: extend_heap_def mem_sbrk_cases)
qed

definition tail_free :: "block list \<Rightarrow> bool" where
  "tail_free bs \<longleftrightarrow> bs \<noteq> [] \<and> \<not> snd (last bs)"

text \<open>The specification of \<open>do_malloc\<close> for a payload of \<open>k\<close> bytes.\<close>

definition agrow :: "int \<Rightarrow> addr \<Rightarrow> int \<Rightarrow> block list \<Rightarrow> (addr \<times> block list) option" where
  "agrow lim base k bs =
     (let front = (if tail_free bs then butlast bs else bs);
          g = total front + (k + 8) - total bs
      in if 0 < g \<and> base + total bs + g \<le> lim
         then Some (base + total front, front @ [(k + 8, True)]) else None)"

lemma heap_inv_grow:
  assumes inv: "heap_inv s bs" and b: "bs = front @ tb"
    and q: "q = heap_listp s + 8 + total front"
    and n: "sz_ok n" "8 \<le> n" "mem_brk s < q + n" "q + n \<le> mem_max_addr s"
    and m: "m' = put (store32 (mem s) (mem_brk s - 4) (hdr 0 True)) q n True"
  shows "heap_inv (s\<lparr>mem_brk := q + n, mem := m', heap_curp := c\<rparr>) (front @ [(n, True)])"
    "heap_inv (s\<lparr>mem_brk := q + n, mem := m'\<rparr>) (front @ [(n, True)])"
    "keeps (mem s) m' (live (heap_listp s + 8) front)"
    "live (heap_listp s + 8) (front @ [(n, True)]) = insert (q, n - 8) (live (heap_listp s + 8) front)"
    "same_on {q..<min (mem_brk s - 4) (q + n - 8)} (mem s) m'"
proof -
  note h = heap_invD[OF inv]
  let ?hl = "heap_listp s"
  have sf: "seg (mem s) (?hl + 8) front" "seg (mem s) q tb"
    using h(3) b q by (simp_all add: prologue_def algebra_simps)
  have tb: "0 \<le> total tb" "tb \<noteq> [] \<Longrightarrow> 8 \<le> total tb" "8 dvd total tb" "8 dvd total front"
    using seg_total_nonneg[OF sf(2)] total_pos[OF sf(2)] seg_total_dvd[OF sf(2)] seg_total_dvd[OF sf(1)] by auto
  have brk: "mem_brk s = q + total tb" using h(5) b q by simp
  have g: "mem_brk s + 8 \<le> q + n"
  proof -
    have "8 dvd (q + n) - mem_brk s" using brk tb(3) n(1) by (simp add: sz_ok_def)
    then show ?thesis using n(3) zdvd_imp_le by fastforce
  qed
  have lo: "same_on {..<q - 4} (mem s) m'"
    unfolding m by (rule same_on_trans[OF same_on_store32 same_on_put]) (use brk tb n in auto)
  have hi: "same_on {q + n - 4..} (mem s) m'"
    unfolding m by (rule same_on_trans[OF same_on_store32 same_on_put]) (use brk tb n g in auto)
  have z: "load32 m' (q + n - 4) = 0"
  proof -
    have "m' a = 0" if "q + n - 4 \<le> a" "a < q + n" for a
      using that hi h(2) g n(4) by (simp add: same_on_def fresh_def)
    then show ?thesis by (simp add: load32_def)
  qed
  have sp: "seg (mem s) ?hl (prologue # front)"
    using h(3) b by (simp add: prologue_def)
  have "seg m' ?hl (prologue # front)"
    by (rule seg_cong[OF same_on_subset[OF lo] sp]) (use q in \<open>auto simp: prologue_def\<close>)
  moreover have "seg m' q [(n, True)]"
    unfolding m using put_blk[OF n(1,2)] by simp
  ultimately have "seg m' ?hl (prologue # front @ [(n, True)])"
    using q by (simp add: prologue_def algebra_simps)
  moreover have "hdr_at m' (q + n) 0 False"
    using z by (simp add: hdr_at_def hdr_def sz_ok_def)
  moreover have "\<forall>a. q + n \<le> a \<and> a < mem_max_addr s \<longrightarrow> m' a = 0"
    using hi h(2) g by (simp add: same_on_def fresh_def)
  moreover have "q + n = ?hl + total (prologue # front @ [(n, True)])"
    using q by (simp add: prologue_def)
  moreover have "same_on {..<mem_start_brk s} (mem s) m'"
    by (rule same_on_subset[OF lo]) (use inv q seg_total_nonneg[OF sf(1)] in \<open>auto simp: heap_inv_def\<close>)
  then have "empty_front (s\<lparr>mem := m'\<rparr>)" by (rule empty_front_upd[OF h(12)])
  ultimately show "heap_inv (s\<lparr>mem_brk := q + n, mem := m', heap_curp := c\<rparr>) (front @ [(n, True)])"
      "heap_inv (s\<lparr>mem_brk := q + n, mem := m'\<rparr>) (front @ [(n, True)])"
    using inv n brk tb unfolding heap_inv_def mem_wf_def fresh_def by auto
  show "keeps (mem s) m' (live (?hl + 8) front)"
    unfolding keeps_def
  proof clarify
    fix r d assume "(r, d) \<in> live (?hl + 8) front"
    then have "r + d + 8 \<le> q" using live_bounds[OF sf(1)] q by auto
    then show "same_on {r..<r + d} (mem s) m'"
      by (intro same_on_subset[OF lo]) auto
  qed
  show "live (?hl + 8) (front @ [(n, True)]) = insert (q, n - 8) (live (?hl + 8) front)"
    using q by auto
  show "same_on {q..<min (mem_brk s - 4) (q + n - 8)} (mem s) m'"
    unfolding m by (rule same_on_trans[OF same_on_store32 same_on_put]) auto
qed

lemma TAIL_BLK_eq:
  assumes inv: "heap_inv s bs" and b: "prologue # bs = xs @ [(t, a)]"
  shows "TAIL_BLK s = mem_brk s - t" "blk (mem s) (mem_brk s - t) t a"
proof -
  note h = heap_invD[OF inv]
  have tot: "mem_brk s = heap_listp s + (total xs + t)"
    using inv b by (simp add: heap_inv_def)
  have bl: "blk (mem s) (heap_listp s + total xs) t a"
    using h(3) unfolding b by simp
  then show "blk (mem s) (mem_brk s - t) t a" using tot by simp
  have "ftr_at (mem s) (mem_brk s) t a" using blkD(2)[OF bl] tot by (simp add: algebra_simps)
  then show "TAIL_BLK s = mem_brk s - t"
    by (simp add: TAIL_BLK_def mem_sbrk_0[OF h(1)] PREV_BLK_ftr)
qed

lemma set_curp_simps [simp]:
  "mem (set_curp fit p s) = mem s" "mem_brk (set_curp fit p s) = mem_brk s"
  "mem_start_brk (set_curp fit p s) = mem_start_brk s" "mem_max_addr (set_curp fit p s) = mem_max_addr s"
  "heap_listp (set_curp fit p s) = heap_listp s"
  "set_curp fit p (set_curp fit p s) = set_curp fit p s"
  by (simp_all add: set_curp_def)

lemma empty_front_set_curp [simp]: "empty_front (set_curp fit p s) = empty_front s"
  by (simp add: set_curp_def)

lemma heap_inv_set_curp [simp]: "heap_inv (set_curp fit p s) bs = heap_inv s bs"
  by (simp add: heap_inv_def set_curp_def mem_wf_def fresh_def)

lemma heap_inv_errno [simp]: "heap_inv (s\<lparr>errno := e\<rparr>) bs = heap_inv s bs"
  by (simp add: heap_inv_def mem_wf_def fresh_def)

lemma heap_inv_curp [simp]: "heap_inv (s\<lparr>heap_curp := e\<rparr>) bs = heap_inv s bs"
  by (simp add: heap_inv_def mem_wf_def fresh_def)

lemma curp_ok_set_curp:
  "p \<in> fst ` set (lay (heap_listp s) (prologue # bs)) \<Longrightarrow> curp_ok fit (set_curp fit p s) bs"
  by (auto simp: curp_ok_def set_curp_def)

lemma do_malloc_spec:
  assumes inv: "heap_inv s bs" and k: "uint (ALIGN n) = k" "k + 8 < 2 ^ 31" "8 dvd k"
  shows "case agrow (mem_max_addr s) (heap_listp s + 8) k bs of
      None \<Rightarrow> \<exists>e. do_malloc fit n s = (NULL, s\<lparr>errno := e\<rparr>)
    | Some (q, bs') \<Rightarrow> \<exists>s'. do_malloc fit n s = (q, set_curp fit q s') \<and> heap_inv s' bs'
        \<and> keeps (mem s) (mem s') (live (heap_listp s + 8) bs)
        \<and> live (heap_listp s + 8) bs' = insert (q, k) (live (heap_listp s + 8) bs)
        \<and> heap_listp s' = heap_listp s \<and> mem_max_addr s' = mem_max_addr s"
proof -
  note h = heap_invD[OF inv]
  have k0: "0 \<le> k" using k(1) by auto
  obtain xs t a where x: "prologue # bs = xs @ [(t, a)]"
    by (metis append_butlast_last_id list.distinct(1) surj_pair)
  note tail = TAIL_BLK_eq[OF inv x]
  have tf: "tail_free bs \<longleftrightarrow> \<not> a" and lastb: "bs \<noteq> [] \<Longrightarrow> bs = butlast bs @ [(t, a)]"
    using x by (cases bs rule: rev_cases; force simp: tail_free_def prologue_def)+
  define front where "front = (if tail_free bs then butlast bs else bs)"
  define q where "q = heap_listp s + 8 + total front"
  define g where "g = total front + (k + 8) - total bs"
  have fr: "bs = front @ (if tail_free bs then [(t, False)] else [])"
    using lastb tf by (auto simp: front_def tail_free_def)
  have tot: "total bs = total front + (if tail_free bs then t else 0)"
    using arg_cong[OF fr, of total] by simp
  have t: "8 \<le> t" "t < 2 ^ 31" using blkD(3,4)[OF tail(2)] by (auto simp: sz_ok_def)
  have gb: "- (2 ^ 31) \<le> g" "g < 2 ^ 31" using tot k(2) k0 t by (auto simp: g_def)
  have brk: "mem_brk s + g = q + (k + 8)" using h(5) by (simp add: g_def q_def)
  have nsz: "uint (ALIGN n + RB_HDR_SIZE + RB_FTR_SIZE) = k + 8"
    using k k0 by (simp add: c_const uint_word_ariths)
  have arg: "(if tail_free bs
      then ucast (ALIGN n - ucast (RB_AVL_SIZE (mem s) (TAIL_BLK s)))
      else ucast (ALIGN n + RB_HDR_SIZE + RB_FTR_SIZE)) = (word_of_int g :: c_int)"
  proof (cases "tail_free bs")
    case True
    have "uint (ucast (RB_AVL_SIZE (mem s) (TAIL_BLK s)) :: size_t) = t - 8"
      using blk_fits(4)[OF tail(2)] tail(1) by simp
    then show ?thesis using True k(1) tot unfolding ucast_diff by (simp add: g_def)
  next
    case False
    then have "g = k + 8" using tot by (simp add: g_def)
    then show ?thesis
      using False nsz ucast_sum[of "ALIGN n + RB_HDR_SIZE" RB_FTR_SIZE]
      by (metis ucast_word_of_int word_of_int_uint)
  qed
  have ext: "if 0 < g \<and> mem_brk s + g \<le> mem_max_addr s
    then extend_heap (word_of_int g) s =
      (mem_brk s, s\<lparr>mem_brk := mem_brk s + g, mem := store32 (mem s) (mem_brk s - 4) (hdr 0 True)\<rparr>)
    else \<exists>e. extend_heap (word_of_int g) s = (NULL, s\<lparr>errno := e\<rparr>)"
    using extend_heap_eq[OF h(1,4)] sint_word_of_int[OF gb] by simp
  have ra: "RB_ALLOC (mem s) (TAIL_BLK s) = BLK_FREE \<longleftrightarrow> tail_free bs"
    using RB_ALLOC_hdr[OF blkD(1)[OF tail(2)]] tail(1) tf by (simp add: c_const)
  have nn: "mem_brk s \<noteq> NULL" using mem_wf_ptr[OF h(1)] by simp
  show ?thesis
  proof (cases "0 < g \<and> mem_brk s + g \<le> mem_max_addr s")
    case False
    then have "agrow (mem_max_addr s) (heap_listp s + 8) k bs = None"
      using h(5) by (auto simp: agrow_def Let_def front_def[symmetric] g_def)
    moreover obtain e where "extend_heap (word_of_int g) s = (NULL, s\<lparr>errno := e\<rparr>)"
      using ext False by auto
    then have "do_malloc fit n s = (NULL, s\<lparr>errno := e\<rparr>)"
      using arg by (auto simp: do_malloc_def Let_def ra split: if_splits)
    ultimately show ?thesis by auto
  next
    case True
    let ?m = "put (store32 (mem s) (mem_brk s - 4) (hdr 0 True)) q (k + 8) True"
    let ?s = "s\<lparr>mem_brk := q + (k + 8), mem := ?m\<rparr>"
    have ok: "sz_ok (k + 8)" "8 \<le> k + 8" using k k0 by (auto simp: sz_ok_def)
    have ag: "agrow (mem_max_addr s) (heap_listp s + 8) k bs = Some (q, front @ [(k + 8, True)])"
      using True h(5) by (auto simp: agrow_def Let_def front_def[symmetric] g_def q_def)
    have set: "SET_RB m q (ALIGN n + RB_HDR_SIZE + RB_FTR_SIZE) BLK_ALLOC = put m q (k + 8) True" for m
      by (rule SET_RB_put[OF nsz _ ok]) (simp add: c_const)
    have cp: "(if tail_free bs then TAIL_BLK s else mem_brk s) = q"
      using tail(1) h(5) tot by (auto simp: q_def)
    have qn: "q \<noteq> NULL"
      using h(7) seg_total_nonneg[of "mem s" "heap_listp s + 8" front] h(3) fr
      by (auto simp: q_def NULL_def prologue_def) (metis seg_append)
    have dm: "do_malloc fit n s = (q, set_curp fit q ?s)"
      using arg ext True cp qn nn set brk ra
      by (cases "tail_free bs") (simp_all add: do_malloc_def Let_def)
    have lv: "live (heap_listp s + 8) bs = live (heap_listp s + 8) front"
      using arg_cong[OF fr, of "live (heap_listp s + 8)"] by simp
    have gr: "mem_brk s < q + (k + 8)" "q + (k + 8) \<le> mem_max_addr s"
      using True brk by auto
    note hg = heap_inv_grow[OF inv fr q_def ok gr refl, folded lv]
    show ?thesis
      unfolding ag option.case prod.case
      by (rule exI[of _ ?s]) (use dm hg in simp)
  qed
qed

section \<open>malloc\<close>

text \<open>The specification of \<open>malloc\<close> for an aligned payload of \<open>k\<close> bytes.\<close>

definition amalloc :: "fit \<Rightarrow> int \<Rightarrow> addr \<Rightarrow> addr \<Rightarrow> int \<Rightarrow> block list \<Rightarrow> (addr \<times> block list) option" where
  "amalloc fit lim hl cur k bs =
     (case pick fit cur k (lay hl (prologue # bs)) of
        None \<Rightarrow> agrow lim (hl + 8) k bs
      | Some (q, _) \<Rightarrow>
          (case split_at (hl + 8) q bs of
             (xs, (t, _) # ys) \<Rightarrow> Some (q, xs @ cut t (k + 8) @ ys)
           | _ \<Rightarrow> None))"

lemma pick_split:
  assumes inv: "heap_inv s bs"
    and p: "pick fit cur k (lay (heap_listp s) (prologue # bs)) = Some (q, t, a)" and k: "0 \<le> k"
  obtains xs ys where "bs = xs @ (t, False) # ys" "q = heap_listp s + 8 + total xs" "k \<le> t - 8"
    "\<not> a" "blk (mem s) q t False" "split_at (heap_listp s + 8) q bs = (xs, (t, False) # ys)"
proof -
  have "(q, t, a) \<in> set (lay (heap_listp s + 8) bs)" and f: "k \<le> t - 8" "\<not> a"
    using pick_Some[OF p] by (auto simp: fits_def prologue_def)
  then obtain xs ys where x: "bs = xs @ (t, False) # ys" "q = heap_listp s + 8 + total xs"
    by (metis lay_split)
  have sg: "seg (mem s) (heap_listp s + 8) (xs @ (t, False) # ys)"
    using heap_invD(3)[OF inv] x(1) by (simp add: prologue_def)
  have "split_at (heap_listp s + 8) q bs = (xs, (t, False) # ys)"
    using split_at_append[of xs] seg_blks_ok[OF sg] x by simp
  with x f sg show thesis using that by simp
qed

lemma lay_insert_mem: "(q, s, a) \<in> set (lay p bs) \<Longrightarrow> q \<in> fst ` set (lay p bs)"
  by force

lemma implicit_malloc_spec:
  assumes inv: "imp_inv fit s bs" and n: "n \<noteq> 0" "k = align8 (uint n)" "k + 8 < 2 ^ 31"
  shows "case amalloc fit (mem_max_addr s) (heap_listp s) (heap_curp s) k bs of
      None \<Rightarrow> \<exists>e. implicit_mm_malloc fit n s = Some (NULL, set_curp fit NULL (s\<lparr>errno := e\<rparr>))
    | Some (q, bs') \<Rightarrow> \<exists>s' c. implicit_mm_malloc fit n s = Some (q, s') \<and> imp_inv fit s' bs'
        \<and> keeps (mem s) (mem s') (live (heap_listp s + 8) bs)
        \<and> live (heap_listp s + 8) bs' = insert (q, c) (live (heap_listp s + 8) bs) \<and> k \<le> c
        \<and> q \<noteq> NULL \<and> heap_listp s' = heap_listp s \<and> mem_max_addr s' = mem_max_addr s"
proof -
  have hinv: "heap_inv s bs" using inv by (simp add: imp_inv_def)
  note h = heap_invD[OF hinv]
  let ?hl = "heap_listp s"
  have un: "0 < uint n" using n(1) by (simp add: order_less_le) (metis uint_0_iff)
  have k: "8 \<le> k" "8 dvd k" "uint n \<le> k" using un n(2) align8_facts[of "uint n"] by auto
  have ua: "uint (ALIGN n) = k"
    using uint_ALIGN[of n] n(2,3) align8_facts(1)[of "uint n"] by simp
  have ua2: "uint (ALIGN (ALIGN n)) = k"
    using uint_ALIGN[of "ALIGN n"] ua n(3) k(2) align8_facts(6) by simp
  have find: "find_fit fit s (ALIGN n) =
      Some (found s (ALIGN n) (pick fit (heap_curp s) k (lay ?hl (prologue # bs))))"
    using find_fit_eq[OF inv, of "ALIGN n"] ua by simp
  show ?thesis
  proof (cases "pick fit (heap_curp s) k (lay ?hl (prologue # bs))")
    case None
    then have f: "find_fit fit s (ALIGN n) = Some (NULL, s)" using find by simp
    have am: "amalloc fit (mem_max_addr s) ?hl (heap_curp s) k bs = agrow (mem_max_addr s) (?hl + 8) k bs"
      using None by (simp add: amalloc_def)
    have ml: "implicit_mm_malloc fit n s = Some (case do_malloc fit (ALIGN n) s of (p, s) \<Rightarrow> (p, set_curp fit p s))"
      using n(1) f by (simp add: implicit_mm_malloc_def split: prod.splits)
    note d = do_malloc_spec[OF hinv ua2 n(3) k(2), of fit]
    show ?thesis
    proof (cases "agrow (mem_max_addr s) (?hl + 8) k bs")
      case None
      then show ?thesis using d am ml by auto
    next
      case (Some r)
      then obtain q bs' where r: "agrow (mem_max_addr s) (?hl + 8) k bs = Some (q, bs')" by (cases r) auto
      obtain s' where s': "do_malloc fit (ALIGN n) s = (q, set_curp fit q s')" "heap_inv s' bs'"
        "keeps (mem s) (mem s') (live (?hl + 8) bs)"
        "live (?hl + 8) bs' = insert (q, k) (live (?hl + 8) bs)" "heap_listp s' = ?hl"
        "mem_max_addr s' = mem_max_addr s"
        using d unfolding r option.case prod.case by blast
      have "(q, k) \<in> live (?hl + 8) bs'" using s'(4) by simp
      then have ql: "q \<in> fst ` set (lay (heap_listp s') (prologue # bs'))"
        using s'(5) by (force simp: live_def prologue_def)
      have "seg (mem s') (?hl + 8) bs'"
        using heap_invD(3)[OF s'(2)] s'(5) by (simp add: prologue_def)
      then have "?hl + 8 \<le> q"
        using live_bounds[of "mem s'" "?hl + 8" bs' q k] s'(4) by simp
      then have "q \<noteq> NULL" using h(7) by (simp add: NULL_def)
      moreover have "imp_inv fit (set_curp fit q s') bs'"
        using s'(2) curp_ok_set_curp[OF ql] by (simp add: imp_inv_def)
      ultimately show ?thesis
        unfolding am r option.case prod.case ml s'(1)
        using s' by (intro exI[of _ "set_curp fit q s'"] exI[of _ k]) simp
    qed
  next
    case (Some r)
    then obtain q t a where r: "pick fit (heap_curp s) k (lay ?hl (prologue # bs)) = Some (q, t, a)"
      by (cases r) auto
    have k0: "0 \<le> k" using k(1) by simp
    obtain xs ys where x: "bs = xs @ (t, False) # ys" "q = ?hl + 8 + total xs" "k \<le> t - 8"
      "blk (mem s) q t False" "split_at (?hl + 8) q bs = (xs, (t, False) # ys)"
      using pick_split[OF hinv r k0] by metis
    let ?m = "puts (mem s) q (cut t (k + 8))"
    let ?s = "s\<lparr>mem := ?m\<rparr>"
    let ?bs = "xs @ cut t (k + 8) @ ys"
    have am: "amalloc fit (mem_max_addr s) ?hl (heap_curp s) k bs = Some (q, ?bs)"
      using r x(5) by (simp add: amalloc_def)
    have pl: "place s q (ALIGN n) = (q, ?s)"
      by (rule place_free[OF x(4) ua k(2) x(3)])
    note c = cut_ok[OF blkD(4)[OF x(4)], of "k + 8"]
    have ck: "8 dvd k + 8" "8 \<le> k + 8" "k + 8 \<le> t" using k x(3) by auto
    have hi: "heap_inv s (xs @ [(t, False)] @ ys)" using hinv x(1) by simp
    have "total (cut t (k + 8)) = total [(t, False)]" "blks_ok (cut t (k + 8))" "[(t, False)] \<noteq> []"
      "cut t (k + 8) \<noteq> []" using c ck by simp_all
    note hp = heap_inv_puts[OF hi x(2) this]
    obtain d where d: "live q (cut t (k + 8)) = {(q, d)}" "k \<le> d"
      using c(4)[OF ck, of q] by auto
    have lv: "live (?hl + 8) ?bs = insert (q, d) (live (?hl + 8) bs)"
      unfolding hp(4) d(1) unfolding x(1) by (auto simp: x(2))
    have "(q, d) \<in> live (?hl + 8) ?bs" using lv by simp
    then have ql: "q \<in> fst ` set (lay (heap_listp ?s) (prologue # ?bs))"
      by (force simp: live_def prologue_def)
    have qn: "q \<noteq> NULL"
      using x(2) h(7) seg_blks_ok[OF h(3)] blks_ok_total[of xs] x(1)
      by (simp add: NULL_def prologue_def)
    have "implicit_mm_malloc fit n s = Some (q, set_curp fit q ?s)"
      using n(1) find r pl qn by (simp add: implicit_mm_malloc_def)
    moreover have "imp_inv fit (set_curp fit q ?s) ?bs"
      using hp(2) curp_ok_set_curp[OF ql] by (simp add: imp_inv_def)
    moreover have "keeps (mem s) ?m (live (?hl + 8) bs)"
      using hp(3) x(1,2) by simp
    ultimately show ?thesis
      unfolding am option.case prod.case using lv d(2) qn
      by (intro exI[of _ "set_curp fit q ?s"] exI[of _ d]) simp
  qed
qed

section \<open>free and coalesce\<close>

lemma next_hdr:
  assumes inv: "heap_inv s (xs @ (t, a) # ys)" and q: "q = heap_listp s + 8 + total xs"
  shows "if rgt ys = [] then \<exists>u b. hdr_at (mem s) (q + t) u b \<and> (b \<or> u = 0)
    else hdr_at (mem s) (q + t) (total (rgt ys)) False"
proof (rule next_hdr_seg)
  show "seg (mem s) q ((t, a) # ys)"
    using heap_invD(3)[OF inv] q by (simp add: prologue_def algebra_simps)
  show "hdr_at (mem s) (q + t + total ys) 0 (xs @ (t, a) # ys = [])"
    using heap_invD(4,5)[OF inv] q by (simp add: algebra_simps)
qed

lemma prev_ftr:
  assumes inv: "heap_inv s (xs @ (t, a) # ys)" and q: "q = heap_listp s + 8 + total xs"
  shows "if lft xs = [] then \<exists>u. ftr_at (mem s) q u True
    else ftr_at (mem s) q (total (lft xs)) False"
  by (rule prev_ftr_seg[where p = "heap_listp s"])
    (use heap_invD(3)[OF inv] q in \<open>simp_all add: prologue_def algebra_simps\<close>)

lemma coalesce_eq:
  assumes inv: "heap_inv s (xs @ (t, False) # ys)" and q: "q = heap_listp s + 8 + total xs"
  defines "p \<equiv> q - total (lft xs)"
  shows "coalesce fit q s = (p, set_curp fit p
      (s\<lparr>mem := puts (mem s) p [(total (joined xs t ys), False)]\<rparr>))"
    "blks_ok [(total (joined xs t ys), False)]"
proof -
  let ?T = "total (joined xs t ys)" and ?r = "rgt ys" and ?l = "lft xs" and ?m = "mem s"
  note h = heap_invD[OF inv]
  have sg: "seg ?m (heap_listp s) (prologue # take (length xs - length ?l) xs @ joined xs t ys
      @ drop (length ?r) ys)"
    using h(3) joined_split by metis
  then have sj: "seg ?m p (joined xs t ys)"
    using q arg_cong[OF lft_split[of xs], of total] by (simp add: prologue_def p_def algebra_simps)
  have tot: "total (xs @ (t, False) # ys) = total (take (length xs - length ?l) xs) + ?T
      + total (drop (length ?r) ys)"
    using arg_cong[OF joined_split[of xs t ys], of total] by simp
  have "0 \<le> total (take (length xs - length ?l) xs)" "0 \<le> total (drop (length ?r) ys)"
    using sg by (auto simp: prologue_def dest: seg_total_nonneg)
  then have T: "?T < 2 ^ 31" using tot h(9) by (simp add: c_const)
  have T8: "8 \<le> ?T" "8 dvd ?T"
    using total_pos[OF sj] seg_total_dvd[OF sj] by (auto simp: joined_def)
  then show ok: "blks_ok [(?T, False)]"
    using T by (simp add: sz_ok_def)
  have nn: "0 \<le> total ?l" "0 \<le> total ?r" "8 \<le> t"
    using sj by (auto simp: joined_def dest: seg_total_nonneg blkD)
  have bq: "blk ?m q t False"
    using h(3) q by (auto simp: prologue_def algebra_simps)
  have s0: "uint (RB_SIZE ?m q) = t" by (rule RB_SIZE_hdr[OF blkD(1)[OF bq]])
  let ?s1 = "if NEXT_BLK_ALLOC ?m q = BLK_FREE then RB_SIZE ?m q + NEXT_BLK_SIZE ?m q else RB_SIZE ?m q"
  have s1: "uint ?s1 = t + total ?r"
  proof (cases "?r = []")
    case True
    then obtain u b where n: "hdr_at ?m (q + t) u b" "b \<or> u = 0"
      using next_hdr[OF inv q] by auto
    show ?thesis
      using NEXT_BLK_hdr[OF blkD(1)[OF bq] n(1)] n(2) s0 T nn True
      by (cases b) (simp_all add: c_const uint_word_ariths joined_total)
  next
    case False
    then have n: "hdr_at ?m (q + t) (total ?r) False"
      using next_hdr[OF inv q] by simp
    show ?thesis
      using NEXT_BLK_hdr[OF blkD(1)[OF bq] n] s0 T nn
      by (simp add: c_const uint_word_ariths joined_total)
  qed
  have s2: "\<exists>v. (if PREV_BLK_ALLOC ?m q = BLK_FREE
      then (?s1 + PREV_BLK_SIZE ?m q, PREV_BLKP ?m q) else (?s1, q)) = (v, p) \<and> uint v = ?T"
  proof (cases "?l = []")
    case True
    then obtain u where "ftr_at ?m q u True"
      using prev_ftr[OF inv q] by auto
    then have "PREV_BLK_ALLOC ?m q \<noteq> BLK_FREE"
      by (simp add: PREV_BLK_ftr c_const)
    then show ?thesis using True s1 by (simp add: p_def joined_total)
  next
    case False
    then have f: "ftr_at ?m q (total ?l) False"
      using prev_ftr[OF inv q] by simp
    have "uint (?s1 + PREV_BLK_SIZE ?m q) = ?T"
      unfolding uint_word_ariths s1 PREV_BLK_ftr(2)[OF f] using T nn
      by (simp add: joined_total)
    then show ?thesis
      using PREV_BLK_ftr[OF f] by (simp add: p_def c_const)
  qed
  then obtain v where v: "(if PREV_BLK_ALLOC ?m q = BLK_FREE
      then (?s1 + PREV_BLK_SIZE ?m q, PREV_BLKP ?m q) else (?s1, q)) = (v, p)" "uint v = ?T" by blast
  have "SET_RB ?m p v BLK_FREE = put ?m p ?T False"
    using ok by (intro SET_RB_put[OF v(2)]) (simp_all add: c_const)
  then show "coalesce fit q s = (p, set_curp fit p (s\<lparr>mem := puts ?m p [(?T, False)]\<rparr>))"
    using v(1) by (simp add: coalesce_def Let_def)
qed

lemma coalesce_spec:
  assumes inv: "heap_inv s (xs @ (t, False) # ys)" and q: "q = heap_listp s + 8 + total xs"
  obtains p m' where "coalesce fit q s = (p, set_curp fit p (s\<lparr>mem := m'\<rparr>))"
    "imp_inv fit (set_curp fit p (s\<lparr>mem := m'\<rparr>)) (merge_free xs t ys)"
    "keeps (mem s) m' (live (heap_listp s + 8) (xs @ (t, False) # ys))"
    "live (heap_listp s + 8) (merge_free xs t ys) = live (heap_listp s + 8) (xs @ (t, False) # ys)"
proof -
  let ?T = "total (joined xs t ys)" and ?hl = "heap_listp s"
  let ?xs = "take (length xs - length (lft xs)) xs" and ?ys = "drop (length (rgt ys)) ys"
  define p where "p = q - total (lft xs)"
  note c = coalesce_eq[OF inv q, folded p_def]
  have p: "p = ?hl + 8 + total ?xs"
    using q arg_cong[OF lft_split[of xs], of total] by (simp add: p_def)
  have inv': "heap_inv s (?xs @ joined xs t ys @ ?ys)"
    using inv joined_split by metis
  have "joined xs t ys \<noteq> []" by (simp add: joined_def)
  note hp = heap_inv_puts[OF inv' p _ c(2) this, simplified]
  have lv: "live (?hl + 8) (xs @ (t, False) # ys) = live (?hl + 8) ?xs \<union> live (p + ?T) ?ys"
    unfolding joined_split[of xs t ys] live_append joined_free p by simp
  have "imp_inv fit (set_curp fit p (s\<lparr>mem := puts (mem s) p [(?T, False)]\<rparr>)) (merge_free xs t ys)"
    unfolding imp_inv_def heap_inv_set_curp merge_free_def append_Cons append_Nil
    using hp(2) by (intro conjI curp_ok_set_curp) (auto simp: prologue_def p)
  moreover have "live (?hl + 8) (merge_free xs t ys) = live (?hl + 8) (xs @ (t, False) # ys)"
    unfolding lv merge_free_def by (simp add: p)
  ultimately show thesis
    using that[OF c(1)] hp(3) unfolding lv by simp
qed

lemma implicit_free_spec:
  assumes inv: "imp_inv fit s bs" and q: "(q, c) \<in> live (heap_listp s + 8) bs"
  shows "imp_inv fit (implicit_mm_free fit q s) (afree (heap_listp s + 8) q bs)"
    "keeps (mem s) (mem (implicit_mm_free fit q s)) (live (heap_listp s + 8) bs - {(q, c)})"
    "live (heap_listp s + 8) (afree (heap_listp s + 8) q bs) = live (heap_listp s + 8) bs - {(q, c)}"
    "heap_listp (implicit_mm_free fit q s) = heap_listp s"
    "mem_max_addr (implicit_mm_free fit q s) = mem_max_addr s"
    "mem_brk (implicit_mm_free fit q s) = mem_brk s"
proof -
  have hinv: "heap_inv s bs" using inv by (simp add: imp_inv_def)
  let ?hl = "heap_listp s"
  obtain xs ys where x: "bs = xs @ (c + 8, True) # ys" "q = ?hl + 8 + total xs"
    using q by (rule live_split)
  let ?t = "c + 8"
  have sg: "seg (mem s) (?hl + 8) (xs @ (?t, True) # ys)"
    using heap_invD(3)[OF hinv] x(1) by (simp add: prologue_def)
  have bq: "blk (mem s) q ?t True" using sg x(2) by simp
  have ok: "blks_ok [(?t, False)]" using blkD(3,4)[OF bq] by simp
  have set: "SET_RB (mem s) q (RB_SIZE (mem s) q) BLK_FREE = puts (mem s) q [(?t, False)]"
    using SET_RB_put[OF RB_SIZE_hdr[OF blkD(1)[OF bq]], of BLK_FREE False] ok by (simp add: c_const)
  have hi: "heap_inv s (xs @ [(?t, True)] @ ys)" using hinv x(1) by simp
  let ?s1 = "s\<lparr>mem := puts (mem s) q [(?t, False)]\<rparr>"
  note hp = heap_inv_puts[OF hi x(2) _ ok, simplified]
  have "heap_inv ?s1 (xs @ (?t, False) # ys)" using hp(2) by simp
  then obtain p m' where co: "coalesce fit q ?s1 = (p, set_curp fit p (?s1\<lparr>mem := m'\<rparr>))"
    "imp_inv fit (set_curp fit p (?s1\<lparr>mem := m'\<rparr>)) (merge_free xs ?t ys)"
    "keeps (mem ?s1) m' (live (?hl + 8) (xs @ (?t, False) # ys))"
    "live (?hl + 8) (merge_free xs ?t ys) = live (?hl + 8) (xs @ (?t, False) # ys)"
    using coalesce_spec[of ?s1 xs ?t ys q fit] x(2) by auto
  have af: "afree (?hl + 8) q bs = merge_free xs ?t ys"
    using split_at_append[of xs q "?hl + 8"] seg_blks_ok[OF sg] x by (simp add: afree_def)
  have fr: "implicit_mm_free fit q s = set_curp fit p (?s1\<lparr>mem := m'\<rparr>)"
    using co(1) set by (simp add: implicit_mm_free_def Let_def)
  have out: "(q, c) \<notin> live (?hl + 8) xs \<union> live (q + ?t) ys"
    using live_bounds[of "mem s" "?hl + 8" xs q c] live_bounds[of "mem s" "q + ?t" ys q c] sg x(2) bq
    by (auto dest: blkD simp: algebra_simps)
  have lv: "live (?hl + 8) (xs @ (?t, False) # ys) = live (?hl + 8) bs - {(q, c)}"
    using out x by (auto simp: algebra_simps)
  show "imp_inv fit (implicit_mm_free fit q s) (afree (?hl + 8) q bs)"
    unfolding af fr using co(2) by simp
  show "live (?hl + 8) (afree (?hl + 8) q bs) = live (?hl + 8) bs - {(q, c)}"
    unfolding af co(4) lv by simp
  have "keeps (mem s) (mem ?s1) (live (?hl + 8) bs - {(q, c)})"
    unfolding lv[symmetric] using hp(3) x(2) by (simp add: algebra_simps)
  then show "keeps (mem s) (mem (implicit_mm_free fit q s)) (live (?hl + 8) bs - {(q, c)})"
    unfolding fr using co(3) unfolding lv by (simp add: keeps_trans)
qed (simp_all add: implicit_mm_free_def coalesce_def Let_def split: prod.splits)

end
