(* ===== verification/Implicit_Realloc.thy ===== *)
theory Implicit_Realloc
  imports Implicit_Alloc
begin

text \<open>
  \<open>implicit_mm_realloc\<close> refines \<open>arealloc\<close>, branch by branch: shrink in place, take the free
  block after it, extend the last block, take the free block before it, or allocate, copy and
  free. The result \<open>Undefined\<close> is a \<open>memcpy\<close> of overlapping regions, \<open>Fail\<close> a NULL return, and
  \<open>Overrun\<close> an extension of the last block that ignores the failure of \<open>extend_heap\<close>.
\<close>

section \<open>realloc\<close>

datatype realloc_result = Done addr "block list" | Fail | Undefined | Overrun

text \<open>The specification of \<open>realloc\<close> of the block at \<open>q\<close> to a payload of \<open>k\<close> bytes.\<close>

definition arealloc :: "int \<Rightarrow> addr \<Rightarrow> int \<Rightarrow> addr \<Rightarrow> block list \<Rightarrow> realloc_result" where
  "arealloc lim base k q bs =
     (case split_at base q bs of
        (xs, (t, _) # ys) \<Rightarrow>
          let n = k + 8; r = total (rgt ys); l = total (lft xs)
          in if n \<le> t then Done q (xs @ cut t n @ ys)
             else if rgt ys \<noteq> [] \<and> n \<le> t + r
             then Done q (xs @ cut (t + r) n @ drop (length (rgt ys)) ys)
             else if ys = []
             then if base + total bs + (n - t) \<le> lim then Done q (xs @ [(n, True)]) else Overrun
             else if lft xs \<noteq> [] \<and> n \<le> t + l
             then if l < t - 8 then Undefined
                  else Done (q - l) (take (length xs - length (lft xs)) xs @ cut (l + t) n @ ys)
             else (case agrow lim base k bs of
                     None \<Rightarrow> Fail
                   | Some (p, bs') \<Rightarrow> Done p (afree base q bs'))
      | _ \<Rightarrow> Fail)"

lemma same_on_cut:
  assumes "n \<le> t" "8 \<le> n"
  shows "same_on {q..<q + n - 8} m (puts m q (cut t n))"
  using assms
  by (auto simp: cut_def intro!: same_on_put same_on_trans[OF same_on_put same_on_put])

text \<open>The two writes by which realloc carves a block of \<open>n\<close> bytes out of \<open>t\<close>.\<close>

lemma carve_eq:
  fixes nsize rsize :: size_t
  assumes "uint nsize = n" "uint rsize = t - n" "8 \<le> n" "n \<le> t" "sz_ok t" "8 dvd n"
  shows "(if rsize \<ge> MIN_BLK_SIZE
     then SET_RB (SET_RB m q nsize BLK_ALLOC) (NEXT_BLKP (SET_RB m q nsize BLK_ALLOC) q) rsize BLK_FREE
     else SET_RB m q nsize BLK_ALLOC) = puts m q (cut t n)"
    "blks_ok (cut t n)" "total (cut t n) = t"
proof -
  have ok: "sz_ok n" "sz_ok (t - n)" using assms by (auto simp: sz_ok_def)
  have s1: "SET_RB m q nsize BLK_ALLOC = put m q n True" for m
    by (rule SET_RB_put[OF assms(1) _ ok(1) assms(3)]) (simp add: c_const)
  have nx: "NEXT_BLKP (put m q n True) q = q + n"
    using NEXT_BLKP_hdr[OF blkD(1)[OF put_blk[OF ok(1) assms(3)]]] by simp
  have r: "rsize \<ge> MIN_BLK_SIZE \<longleftrightarrow> 8 \<le> t - n"
    using assms(2) by (simp add: word_le_def c_const)
  have z: "t - n < 8 \<Longrightarrow> t = n" using assms(4) ok(2) by (auto simp: sz_ok_def elim!: dvdE)
  have s2: "8 \<le> t - n \<Longrightarrow> SET_RB m' p rsize BLK_FREE = put m' p (t - n) False" for m' p
    by (rule SET_RB_put[OF assms(2) _ ok(2)]) (simp_all add: c_const)
  show "(if rsize \<ge> MIN_BLK_SIZE
     then SET_RB (SET_RB m q nsize BLK_ALLOC) (NEXT_BLKP (SET_RB m q nsize BLK_ALLOC) q) rsize BLK_FREE
     else SET_RB m q nsize BLK_ALLOC) = puts m q (cut t n)"
    using s1 s2 z nx by (cases "8 \<le> t - n") (auto simp: r cut_def)
  show "blks_ok (cut t n)" "total (cut t n) = t"
    using cut_ok(1,2)[OF assms(5,6,3,4)] by auto
qed

lemma curp_ok_live:
  "(p, c) \<in> live (heap_listp s + 8) bs \<Longrightarrow> curp_ok fit (set_curp fit p s) bs"
  by (rule curp_ok_set_curp) (force simp: live_def prologue_def)

text \<open>What every successful realloc establishes.\<close>

definition realloc_post ::
  "fit \<Rightarrow> mstate \<Rightarrow> block list \<Rightarrow> addr \<Rightarrow> int \<Rightarrow> int \<Rightarrow> addr \<Rightarrow> mstate \<Rightarrow> block list \<Rightarrow> bool" where
  "realloc_post fit s bs q c k r s' bs' \<longleftrightarrow>
     (let base = heap_listp s + 8; L = live base bs - {(q, c)}
      in imp_inv fit s' bs' \<and> heap_listp s' = heap_listp s \<and> mem_max_addr s' = mem_max_addr s
         \<and> r \<noteq> NULL \<and> keeps (mem s) (mem s') L
         \<and> (\<exists>c'. k \<le> c' \<and> (r, c') \<notin> L \<and> live base bs' = insert (r, c') L)
         \<and> moved (mem s) (mem s') q r (min c k))"

text \<open>Realloc by carving: a run \<open>mid\<close> around the block is replaced by a block of \<open>n\<close> bytes.\<close>

lemma realloc_carve:
  assumes inv: "heap_inv s (xs @ mid @ ys)" and p: "p = heap_listp s + 8 + total xs"
    and mid: "mid \<noteq> []" "live p mid = {(q, c)}" "total mid = t"
    and out: "same_on (- {p - 4..<p + t - 4}) (mem s) m"
    and n: "8 \<le> n" "n \<le> t" "8 dvd n" "sz_ok t"
    and mv: "moved (mem s) m q p (min c (n - 8))"
  shows "realloc_post fit s (xs @ mid @ ys) q c (n - 8) p
    (set_curp fit p (s\<lparr>mem := puts m p (cut t n)\<rparr>)) (xs @ cut t n @ ys)"
proof -
  let ?hl = "heap_listp s" and ?m = "puts m p (cut t n)"
  note co = cut_ok[OF n(4,3,1,2)]
  have o2: "same_on (- {p - 4..<p + t - 4}) m ?m"
    using same_on_puts[OF co(2)] co(1) by simp
  note out' = same_on_trans[OF out o2]
  note hu = heap_inv_upd[OF inv p _ _ seg_puts[OF co(2)] mid(1) co(3), of m, unfolded mid(3), OF out' co(1)]
  have sg: "seg (mem s) (?hl + 8) (xs @ mid @ ys)"
    using heap_invD(3)[OF inv] by (simp add: prologue_def)
  then have sgs: "seg (mem s) (?hl + 8) xs" "seg (mem s) p mid" "seg (mem s) (p + t) ys"
    using p mid(3) by (simp_all add: algebra_simps)
  obtain d where d: "live p (cut t n) = {(p, d)}" "n - 8 \<le> d" "d \<le> t - 8"
    using co(4)[of p] by auto
  have qb: "p \<le> q" "q + c + 8 \<le> p + t" "0 \<le> c"
    using live_bounds[OF sgs(2), of q c] mid(2,3) by auto
  let ?L = "live (?hl + 8) xs \<union> live (p + t) ys"
  have nin: "(r, e) \<notin> ?L" if "p \<le> r" "r + e + 8 \<le> p + t" "0 \<le> e" for r e
    using live_bounds[OF sgs(1), of r e] live_bounds[OF sgs(3), of r e] that p by force
  have "live (?hl + 8) (xs @ mid @ ys) = insert (q, c) ?L"
    using mid(2,3) p by (auto simp: algebra_simps)
  then have L: "live (?hl + 8) (xs @ mid @ ys) - {(q, c)} = ?L"
    using nin[OF qb] by auto
  have lv: "live (?hl + 8) (xs @ cut t n @ ys) = insert (p, d) ?L"
    using hu(4) d(1) by auto
  have nd: "(p, d) \<notin> ?L" using nin[of p d] d n by auto
  have pn: "p \<noteq> NULL"
    using p heap_invD(7)[OF inv] seg_total_nonneg[OF sgs(1)] by (simp add: NULL_def)
  have "moved (mem s) ?m q p (min c (n - 8))"
    using mv same_on_cut[OF n(2,1), of p m] by (auto simp: moved_def same_on_def)
  moreover have "imp_inv fit (set_curp fit p (s\<lparr>mem := ?m\<rparr>)) (xs @ cut t n @ ys)"
    using hu(2) lv by (auto simp: imp_inv_def intro!: curp_ok_live)
  ultimately show ?thesis
    unfolding realloc_post_def Let_def L lv using hu(3) pn d(2) nd by auto
qed

lemma realloc_sizes:
  assumes b: "blk (mem s) q t True" and k: "uint sz + 15 < 2 ^ 31" "n = align8 (uint sz) + 8"
  shows "uint (ucast (RB_SIZE (mem s) q) :: size_t) = t"
    "uint (ALIGN sz + RB_HDR_SIZE + RB_FTR_SIZE) = n" "8 \<le> n" "8 dvd n" "n < 2 ^ 31"
    "uint (ALIGN sz) = n - 8"
proof -
  note h = blkD[OF b]
  show "uint (ucast (RB_SIZE (mem s) q) :: size_t) = t"
    using h(3,4) by (simp add: unsigned_ucast_eq RB_SIZE_hdr[OF h(1)] take_bit_int_eq_self sz_ok_def)
  have a: "uint (ALIGN sz) = n - 8" using uint_ALIGN[of sz] k by simp
  show "n < 2 ^ 31" "8 \<le> n" "8 dvd n"
    using align8_facts[of "uint sz"] k by auto
  then show "uint (ALIGN sz + RB_HDR_SIZE + RB_FTR_SIZE) = n"
    using a by (simp add: c_const uint_word_ariths)
  show "uint (ALIGN sz) = n - 8" by (rule a)
qed

lemma realloc_guard:
  assumes b: "blk (mem s) q t True" and k: "uint sz + 15 < 2 ^ 31" "n = align8 (uint sz) + 8" "sz \<noteq> 0"
    and q: "16 \<le> t" "4 < q"
  shows "implicit_mm_realloc fit q sz s =
    (if n \<le> t then Some (q, set_curp fit q (s\<lparr>mem := if n = t then mem s else puts (mem s) q (cut t n)\<rparr>))
     else realloc_larger fit q sz (ALIGN sz + RB_HDR_SIZE + RB_FTR_SIZE) (ucast (RB_SIZE (mem s) q)) s)"
proof -
  note h = blkD[OF b] and z = realloc_sizes[OF b k(1,2)]
  let ?b = "ucast (RB_SIZE (mem s) q) :: size_t" and ?n = "ALIGN sz + RB_HDR_SIZE + RB_FTR_SIZE"
  have ftr: "RB_FTRP (mem s) q = q + t - 8" and hd: "RB_HDRP q = q - 4"
    using RB_FTRP_hdr[OF h(1,3)] by (simp_all add: RB_HDRP_def c_const)
  have g: "GET (mem s) (q - 4) = GET (mem s) (q + t - 8)"
    using h(1,2) by (simp add: GET_def hdr_at_def ftr_at_def)
  have nn: "q \<noteq> NULL" "q - 4 \<noteq> NULL" "q + t - 8 \<noteq> NULL"
    using q by (simp_all add: NULL_def)
  have md: "?b mod ALIGNMENT = 0"
    unfolding word_uint_eq_iff uint_mod z(1) using h(4) by (simp add: c_const sz_ok_def)
  have mn: "\<not> ?b \<le> MIN_BLK_SIZE"
    unfolding word_le_def z(1) using q by (simp add: c_const)
  have al: "RB_ALLOC (mem s) q \<noteq> BLK_FREE"
    by (simp add: RB_ALLOC_hdr[OF h(1)] c_const)
  have eq: "?n = ?b \<longleftrightarrow> n = t" and lt: "?n < ?b \<longleftrightarrow> n < t"
    unfolding word_uint_eq_iff word_less_def z(1,2) by simp_all
  have rs: "n \<le> t \<Longrightarrow> uint (?b - ?n) = t - n"
    unfolding uint_word_ariths(2) z(1,2) using z(3) h(4) by (simp add: sz_ok_def)
  have ca: "n \<le> t \<Longrightarrow> n \<noteq> t \<Longrightarrow> (if ?b - ?n \<ge> MIN_BLK_SIZE
       then SET_RB (SET_RB (mem s) q ?n BLK_ALLOC) (NEXT_BLKP (SET_RB (mem s) q ?n BLK_ALLOC) q) (?b - ?n) BLK_FREE
       else mem s) = puts (mem s) q (cut t n)"
  proof -
    assume nt: "n \<le> t" "n \<noteq> t"
    have "8 dvd t - n" using z(4) h(4) by (simp add: sz_ok_def)
    then have "8 \<le> t - n" using nt zdvd_imp_le by fastforce
    then have "?b - ?n \<ge> MIN_BLK_SIZE"
      unfolding word_le_def rs[OF nt(1)] by (simp add: c_const)
    then show ?thesis
      using carve_eq(1)[OF z(2) rs[OF nt(1)] z(3) nt(1) h(4) z(4), of "mem s" q] by simp
  qed
  show ?thesis
    using nn g md mn al k(3) ca
    by (auto simp: implicit_mm_realloc_def realloc_exit_def Let_def ftr hd eq lt)
qed

text \<open>The block to resize, in its place in the heap.\<close>

definition block_in :: "mstate \<Rightarrow> block list \<Rightarrow> addr \<Rightarrow> block list \<Rightarrow> int \<Rightarrow> block list \<Rightarrow> bool" where
  "block_in s bs q xs t ys \<longleftrightarrow> heap_inv s bs \<and> bs = xs @ (t, True) # ys
     \<and> q = heap_listp s + 8 + total xs"

lemma block_inD:
  assumes "block_in s bs q xs t ys"
  shows "heap_inv s bs" "bs = xs @ (t, True) # ys" "q = heap_listp s + 8 + total xs"
    "blk (mem s) q t True" "24 \<le> q" "split_at (heap_listp s + 8) q bs = (xs, (t, True) # ys)"
    "seg (mem s) (heap_listp s + 8) xs" "seg (mem s) (q + t) ys" "sz_ok t" "8 \<le> t"
    "(q, t - 8) \<in> live (heap_listp s + 8) bs"
proof -
  show 1: "heap_inv s bs" "bs = xs @ (t, True) # ys" "q = heap_listp s + 8 + total xs"
    using assms by (auto simp: block_in_def)
  have sg: "seg (mem s) (heap_listp s + 8) (xs @ (t, True) # ys)"
    using heap_invD(3)[OF 1(1)] 1(2) by (simp add: prologue_def)
  show 2: "seg (mem s) (heap_listp s + 8) xs" "blk (mem s) q t True" "seg (mem s) (q + t) ys"
    using sg 1(3) by (simp_all add: algebra_simps)
  show "24 \<le> q"
    using 1(3) heap_invD(7)[OF 1(1)] seg_total_nonneg[OF 2(1)] by simp
  show "split_at (heap_listp s + 8) q bs = (xs, (t, True) # ys)"
    using split_at_append[of xs] seg_blks_ok[OF sg] 1 by simp
  show "sz_ok t" "8 \<le> t" using blkD[OF 2(2)] by auto
  show "(q, t - 8) \<in> live (heap_listp s + 8) bs"
    using 1 by auto
qed

lemma realloc_shrink:
  assumes b: "block_in s bs q xs t ys" and k: "uint sz + 15 < 2 ^ 31" "n = align8 (uint sz) + 8" "sz \<noteq> 0"
    and t: "16 \<le> t" "n \<le> t"
  shows "\<exists>s'. implicit_mm_realloc fit q sz s = Some (q, s')
    \<and> realloc_post fit s bs q (t - 8) (n - 8) q s' (xs @ cut t n @ ys)"
proof -
  note d = block_inD[OF b] and z = realloc_sizes[OF block_inD(4)[OF b] k(1,2)]
  have q: "4 < q" using d(5) by simp
  have inv: "heap_inv s (xs @ [(t, True)] @ ys)" using d(1,2) by simp
  have same: "moved (mem s) (mem s) q q c" for c by (simp add: moved_def)
  have po: "realloc_post fit s bs q (t - 8) (n - 8) q
      (set_curp fit q (s\<lparr>mem := puts (mem s) q (cut t n)\<rparr>)) (xs @ cut t n @ ys)"
    using realloc_carve[OF inv d(3) _ _ _ same_on_refl z(3) t(2) z(4) d(9), where q = q and c = "t - 8"]
      same d(2) by simp
  show ?thesis
  proof (cases "n = t")
    case False
    then show ?thesis
      using po realloc_guard[OF d(4) k t(1) q, of fit] t(2) by auto
  next
    case True
    have c: "cut t n = [(t, True)]" using True by (simp add: cut_def)
    have "realloc_post fit s bs q (t - 8) (n - 8) q (set_curp fit q (s\<lparr>mem := mem s\<rparr>)) (xs @ cut t n @ ys)"
    proof -
      have "imp_inv fit (set_curp fit q s) bs"
        using d(1) curp_ok_live[OF d(11)] by (simp add: imp_inv_def)
      moreover have "insert (q, t - 8) (live (heap_listp s + 8) bs - {(q, t - 8)}) = live (heap_listp s + 8) bs"
        using d(11) by auto
      ultimately show ?thesis
        using d(5) True unfolding realloc_post_def Let_def c
        by (auto simp: moved_def NULL_def d(2)[symmetric] intro!: exI[of _ "t - 8"])
    qed
    then show ?thesis
      using realloc_guard[OF d(4) k t(1) q, of fit] True by auto
  qed
qed

lemma mid_sz_ok:
  assumes inv: "heap_inv s (xs @ mid @ ys)" and m: "mid \<noteq> []"
  shows "sz_ok (total mid)" "8 \<le> total mid" "total mid \<le> MAX_HEAP"
proof -
  have sg: "seg (mem s) (heap_listp s + 8) (xs @ mid @ ys)"
    using heap_invD(3)[OF inv] by (simp add: prologue_def)
  then have sgs: "seg (mem s) (heap_listp s + 8) xs" "seg (mem s) (heap_listp s + 8 + total xs) mid"
    "seg (mem s) (heap_listp s + 8 + total xs + total mid) ys" by (simp_all add: algebra_simps)
  have le: "total mid \<le> MAX_HEAP - 16"
    using heap_invD(9)[OF inv] seg_total_nonneg[OF sgs(1)] seg_total_nonneg[OF sgs(3)] by simp
  show "8 \<le> total mid" by (rule total_pos[OF sgs(2) m])
  then show "sz_ok (total mid)" "total mid \<le> MAX_HEAP"
    using le seg_total_dvd[OF sgs(2)] by (simp_all add: sz_ok_def c_const)
qed

lemma uint_size_of:
  assumes "uint (x :: u32) = u"
  shows "uint (ucast x :: size_t) = u"
  using assms uint_lt2p[of x] by (auto simp: unsigned_ucast_eq take_bit_int_eq_self)

text \<open>The sums and differences of sizes that realloc computes do not wrap.\<close>

lemma realloc_arith:
  fixes f b n :: size_t
  assumes "uint f = u" "uint b = t" "uint n = v" "t \<le> v" "t + u < 2 ^ 32"
  shows "n \<le> b + f \<longleftrightarrow> v \<le> t + u" "v \<le> t + u \<Longrightarrow> uint (f - (n - b)) = t + u - v"
    "uint (n - b) = v - t" "0 \<le> t" "0 \<le> u"
proof -
  show nn: "0 \<le> t" "0 \<le> u" using assms(1,2) by auto
  then have "uint (b + f) = t + u"
    using assms(1,2,5) by (simp add: uint_word_ariths)
  then show "n \<le> b + f \<longleftrightarrow> v \<le> t + u"
    using assms(3) by (simp add: word_le_def)
  have "v < 2 ^ 64" using assms(3) uint_lt2p[of n] by simp
  then show nb: "uint (n - b) = v - t"
    using assms(2-4) nn by (simp add: uint_word_ariths)
  show "v \<le> t + u \<Longrightarrow> uint (f - (n - b)) = t + u - v"
    unfolding uint_word_ariths(2)[of f] nb using assms(1,4,5) nn by simp
qed

lemma realloc_next:
  assumes b: "block_in s bs q xs t ys" and k: "uint sz + 15 < 2 ^ 31" "n = align8 (uint sz) + 8" "sz \<noteq> 0"
    and t: "16 \<le> t" "t < n" "rgt ys \<noteq> []" "n \<le> t + total (rgt ys)"
  shows "\<exists>s'. implicit_mm_realloc fit q sz s = Some (q, s')
    \<and> realloc_post fit s bs q (t - 8) (n - 8) q s' (xs @ cut (t + total (rgt ys)) n @ drop (length (rgt ys)) ys)"
proof -
  note d = block_inD[OF b] and z = realloc_sizes[OF block_inD(4)[OF b] k(1,2)]
  let ?r = "total (rgt ys)" and ?ys = "drop (length (rgt ys)) ys" and ?mid = "(t, True) # rgt ys"
  let ?b = "ucast (RB_SIZE (mem s) q) :: size_t" and ?n = "ALIGN sz + RB_HDR_SIZE + RB_FTR_SIZE"
  let ?f = "ucast (NEXT_BLK_SIZE (mem s) q) :: size_t"
  have q: "4 < q" using d(5) by simp
  have nh: "hdr_at (mem s) (q + t) ?r False"
    using next_hdr[of s xs t True ys q] d(1-3) t(3) by auto
  note nb = NEXT_BLK_hdr[OF blkD(1)[OF d(4)] nh]
  have inv: "heap_inv s (xs @ ?mid @ ?ys)" and bs: "bs = xs @ ?mid @ ?ys"
    using d(1,2) rgt_split[of ys] by (metis append_Cons)+
  have ok: "sz_ok (t + ?r)" "t + ?r < 2 ^ 32"
    using mid_sz_ok[OF inv] by (simp_all add: sz_ok_def)
  note ar = realloc_arith[OF uint_size_of[OF nb(2)] z(1,2) less_imp_le[OF t(2)] ok(2)]
  note ca = carve_eq(1)[OF z(2) ar(2)[OF t(4)] z(3) t(4) ok(1) z(4), of "mem s" q]
  have fr: "NEXT_BLK_ALLOC (mem s) q = BLK_FREE" using nb(1) by (simp add: c_const)
  have "realloc_larger fit q sz ?n ?b s = Some (q, set_curp fit q (s\<lparr>mem := puts (mem s) q (cut (t + ?r) n)\<rparr>))"
    using fr ar(1) t(4) ca by (simp add: realloc_larger_def realloc_exit_def Let_def)
  moreover have "realloc_post fit s (xs @ ?mid @ ?ys) q (t - 8) (n - 8) q
      (set_curp fit q (s\<lparr>mem := puts (mem s) q (cut (t + ?r) n)\<rparr>)) (xs @ cut (t + ?r) n @ ?ys)"
  proof (rule realloc_carve[OF inv d(3) _ _ _ same_on_refl z(3) t(4) z(4) ok(1)])
    show "live q ?mid = {(q, t - 8)}"
      by (cases rule: rgt_cases[of ys]) (simp_all)
  qed (simp_all add: moved_def)
  ultimately show ?thesis
    using realloc_guard[OF d(4) k t(1) q, of fit] t(2) unfolding bs by auto
qed

lemma realloc_tail:
  assumes b: "block_in s bs q xs t []" and k: "uint sz + 15 < 2 ^ 31" "n = align8 (uint sz) + 8" "sz \<noteq> 0"
    and t: "16 \<le> t" "t < n" "mem_brk s + (n - t) \<le> mem_max_addr s"
  shows "\<exists>s'. implicit_mm_realloc fit q sz s = Some (q, s')
    \<and> realloc_post fit s bs q (t - 8) (n - 8) q s' (xs @ [(n, True)])"
proof -
  note d = block_inD[OF b] and z = realloc_sizes[OF block_inD(4)[OF b] k(1,2)]
  note h = heap_invD[OF d(1)]
  let ?b = "ucast (RB_SIZE (mem s) q) :: size_t" and ?n = "ALIGN sz + RB_HDR_SIZE + RB_FTR_SIZE"
  let ?f = "ucast (NEXT_BLK_SIZE (mem s) q) :: size_t"
  have q: "4 < q" using d(5) by simp
  have brk: "mem_brk s = q + t" using h(5) d(2,3) by simp
  have nh: "hdr_at (mem s) (q + t) 0 False" using h(4) brk d(2) by simp
  note nb = NEXT_BLK_hdr[OF blkD(1)[OF d(4)] nh]
  have t32: "t + 0 < 2 ^ 32" using d(9) by (simp add: sz_ok_def)
  note ar = realloc_arith[OF uint_size_of[OF nb(2)] z(1,2) less_imp_le[OF t(2)] t32]
  have eb: "EB (mem s) (NEXT_BLKP (mem s) q)"
    using EB_hdr[OF nh] NEXT_BLKP_hdr[OF blkD(1)[OF d(4)]] by simp
  have f0: "?f = 0" using uint_size_of[OF nb(2)] by (simp add: word_uint_eq_iff)
  have arg: "(ucast (?n - ?b - ?f) :: c_int) = word_of_int (n - t)"
    unfolding f0 using ucast_diff[of ?n ?b] z(1,2) by simp
  let ?m0 = "store32 (mem s) (mem_brk s - 4) (hdr 0 True)"
  have ext: "extend_heap (word_of_int (n - t)) s = (mem_brk s, s\<lparr>mem_brk := q + n, mem := ?m0\<rparr>)"
  proof -
    have "sint (word_of_int (n - t) :: c_int) = n - t"
      by (rule sint_word_of_int) (use t z(5) d(10) in auto)
    note e = extend_heap_eq[OF h(1,4) this]
    have "0 < n - t \<and> mem_brk s + (n - t) \<le> mem_max_addr s" using t by simp
    moreover have "mem_brk s + (n - t) = q + n" using brk by simp
    ultimately show ?thesis using e by simp
  qed
  have okn: "sz_ok n" using z(3-5) by (simp add: sz_ok_def)
  have set: "SET_RB m q ?n BLK_ALLOC = put m q n True" for m
    by (rule SET_RB_put[OF z(2) _ okn z(3)]) (simp add: c_const)
  let ?s = "s\<lparr>mem_brk := q + n, mem := put ?m0 q n True\<rparr>"
  have fr: "NEXT_BLK_ALLOC (mem s) q = BLK_FREE" using nb(1) by (simp add: c_const)
  have nle: "\<not> ?n \<le> ?b + ?f" using ar(1) t(2) by simp
  have rl: "realloc_larger fit q sz ?n ?b s = Some (q, set_curp fit q ?s)"
    using fr nle eb arg ext set
    by (simp add: realloc_larger_def realloc_exit_def Let_def del: of_int_diff)
  have gr: "mem_brk s < q + n" "q + n \<le> mem_max_addr s" using t brk by auto
  note hg = heap_inv_grow[OF d(1,2,3) okn z(3) gr refl]
  have nin: "(q, e) \<notin> live (heap_listp s + 8) xs" for e
    using live_bounds[OF d(7), of q e] d(3) by auto
  have lv: "live (heap_listp s + 8) bs - {(q, t - 8)} = live (heap_listp s + 8) xs"
    using d(2,3) nin by auto
  have "moved (mem s) (mem ?s) q q (min (t - 8) (n - 8))"
    using hg(5) brk t(2) by (auto simp: moved_def same_on_def)
  moreover have "imp_inv fit (set_curp fit q ?s) (xs @ [(n, True)])"
    using hg(2,4) curp_ok_live[of q "n - 8" ?s "xs @ [(n, True)]" fit] by (simp add: imp_inv_def)
  ultimately have "realloc_post fit s bs q (t - 8) (n - 8) q (set_curp fit q ?s) (xs @ [(n, True)])"
    unfolding realloc_post_def Let_def lv using hg(3,4) nin d(5)
    by (auto simp: NULL_def intro!: exI[of _ "n - 8"])
  then show ?thesis
    using rl realloc_guard[OF d(4) k t(1) q, of fit] t(2) by auto
qed

text \<open>Writing inside the payload of an allocated block.\<close>

lemma heap_inv_payload:
  assumes inv: "heap_inv s bs" and l: "(p, k) \<in> live (heap_listp s + 8) bs"
    and out: "same_on (- {p..<p + k}) (mem s) m'"
  shows "heap_inv (s\<lparr>mem := m'\<rparr>) bs"
    "keeps (mem s) m' (live (heap_listp s + 8) bs - {(p, k)})"
proof -
  obtain xs ys where x: "bs = xs @ (k + 8, True) # ys" "p = heap_listp s + 8 + total xs"
    using l by (rule live_split)
  have inv': "heap_inv s (xs @ [(k + 8, True)] @ ys)" using inv x(1) by simp
  have b: "blk (mem s) p (k + 8) True"
    using heap_invD(3)[OF inv] x by (simp add: prologue_def)
  have "same_on {p - 4..<p} (mem s) m'" "same_on {p + (k + 8) - 8..<p + (k + 8) - 4} (mem s) m'"
    by (rule same_on_subset[OF out]; auto)+
  then have b': "seg m' p [(k + 8, True)]"
    using b by (simp add: blk_def hdr_at_cong ftr_at_cong)
  have o2: "same_on (- {p - 4..<p + total [(k + 8, True)] - 4}) (mem s) m'"
    by (rule same_on_subset[OF out]) auto
  show "heap_inv (s\<lparr>mem := m'\<rparr>) bs"
    using heap_inv_upd(2)[OF inv' x(2) o2 refl b'] x(1) by simp
  have sg: "seg (mem s) (heap_listp s + 8) bs"
    using heap_invD(3)[OF inv] by (simp add: prologue_def)
  have "same_on {r..<r + d} (mem s) m'" if "(r, d) \<in> live (heap_listp s + 8) bs - {(p, k)}" for r d
  proof -
    have "r + d + 8 \<le> p \<or> p + k + 8 \<le> r" using live_disjoint[OF sg l, of r d] that by auto
    then show ?thesis by (intro same_on_subset[OF out]) auto
  qed
  then show "keeps (mem s) m' (live (heap_listp s + 8) bs - {(p, k)})"
    by (auto simp: keeps_def)
qed

lemma prev_blk:
  assumes inv: "heap_inv s (xs @ (t, a) # ys)" and q: "q = heap_listp s + 8 + total xs"
  obtains w c where "blk (mem s) (q - w) w c" "PREV_BLKP (mem s) q = q - w"
    "c \<longleftrightarrow> lft xs = []" "lft xs \<noteq> [] \<longrightarrow> w = total (lft xs) \<and> lft xs = [(w, False)]"
proof -
  obtain zs w c where z: "prologue # xs = zs @ [(w, c)]"
    by (metis append_butlast_last_id list.distinct(1) surj_pair)
  have sg: "seg (mem s) (heap_listp s) (zs @ (w, c) # (t, a) # ys)"
    using heap_invD(3)[OF inv] z by (metis append.assoc append_Cons append_Nil)
  have "heap_listp s + total zs = q - w"
    using q arg_cong[OF z, of total] by (simp add: prologue_def)
  then have b: "blk (mem s) (q - w) w c"
    using sg by simp
  then have "PREV_BLKP (mem s) q = q - w"
    using PREV_BLK_ftr(3)[of "mem s" q w c] blkD(2)[OF b] by simp
  moreover have "(c \<longleftrightarrow> lft xs = []) \<and> (lft xs \<noteq> [] \<longrightarrow> w = total (lft xs) \<and> lft xs = [(w, False)])"
  proof (cases rule: lft_cases[of xs])
    case 1
    then have "c" using z by (cases xs rule: rev_cases) (auto simp: prologue_def)
    then show ?thesis using 1 by simp
  next
    case (2 u r)
    then have "(w, c) = (u, False)" using z by (metis last_snoc append_Cons last_ConsR snoc_eq_iff_butlast)
    then show ?thesis using 2 by simp
  qed
  ultimately show thesis using b that by blast
qed

lemma no_next_fit:
  assumes b: "block_in s bs q xs t ys" and k: "uint sz + 15 < 2 ^ 31" "n = align8 (uint sz) + 8"
    and t: "t < n" "ys \<noteq> []" "\<not> (rgt ys \<noteq> [] \<and> n \<le> t + total (rgt ys))"
  shows "NEXT_BLK_ALLOC (mem s) q = BLK_FREE \<Longrightarrow>
      \<not> ALIGN sz + RB_HDR_SIZE + RB_FTR_SIZE \<le> ucast (RB_SIZE (mem s) q) + ucast (NEXT_BLK_SIZE (mem s) q)"
    "NEXT_BLK_ALLOC (mem s) q = BLK_FREE \<Longrightarrow> \<not> EB (mem s) (NEXT_BLKP (mem s) q)"
    "q \<noteq> TAIL_BLK s"
proof -
  note d = block_inD[OF b] and z = realloc_sizes[OF block_inD(4)[OF b] k]
  obtain u a r where y: "ys = (u, a) # r" using t(2) by (cases ys) auto
  have nb: "blk (mem s) (q + t) u a" using d(8) y by simp
  note nx = NEXT_BLK_hdr[OF blkD(1)[OF d(4)] blkD(1)[OF nb]]
  have "t + u < 2 ^ 32"
  proof -
    have "heap_inv s (xs @ [(t, True), (u, a)] @ r)" using d(1,2) y by simp
    from mid_sz_ok(3)[OF this] show ?thesis by (simp add: c_const)
  qed
  note ar = realloc_arith[OF uint_size_of[OF nx(2)] z(1,2) less_imp_le[OF t(1)] this]
  { assume "NEXT_BLK_ALLOC (mem s) q = BLK_FREE"
    then have "\<not> a" using nx(1) by (cases a) (simp_all add: c_const)
    then have rg: "rgt ys = [(u, False)]" using y by (simp add: rgt_def)
    show "\<not> ALIGN sz + RB_HDR_SIZE + RB_FTR_SIZE \<le> ucast (RB_SIZE (mem s) q) + ucast (NEXT_BLK_SIZE (mem s) q)"
      using ar(1) t(3) rg by simp
    show "\<not> EB (mem s) (NEXT_BLKP (mem s) q)"
      using EB_hdr[OF blkD(1)[OF nb]] NEXT_BLKP_hdr[OF blkD(1)[OF d(4)]] blkD(3)[OF nb] by simp }
  obtain zs v e where v: "ys = zs @ [(v, e)]" using t(2) by (cases ys rule: rev_cases) auto
  have "TAIL_BLK s = mem_brk s - v"
    by (rule TAIL_BLK_eq(1)[OF d(1), of "prologue # xs @ (t, True) # zs"]) (simp add: d(2) v)
  moreover have "0 \<le> total zs" using d(8) v seg_total_nonneg by auto
  ultimately show "q \<noteq> TAIL_BLK s"
    using heap_invD(5)[OF d(1)] d(2,3,10) v by simp
qed

lemma realloc_prev:
  assumes b: "block_in s bs q xs t ys" and k: "uint sz + 15 < 2 ^ 31" "n = align8 (uint sz) + 8" "sz \<noteq> 0"
    and t: "16 \<le> t" "t < n" "ys \<noteq> []" "\<not> (rgt ys \<noteq> [] \<and> n \<le> t + total (rgt ys))"
    and l: "lft xs \<noteq> []" "n \<le> t + total (lft xs)"
  defines "w \<equiv> total (lft xs)"
  shows "if w < t - 8 then implicit_mm_realloc fit q sz s = None
    else \<exists>s'. implicit_mm_realloc fit q sz s = Some (q - w, s')
      \<and> realloc_post fit s bs q (t - 8) (n - 8) (q - w) s'
          (take (length xs - length (lft xs)) xs @ cut (w + t) n @ ys)"
proof -
  note d = block_inD[OF b] and z = realloc_sizes[OF block_inD(4)[OF b] k(1,2)]
  note nf = no_next_fit[OF b k(1,2) t(2,3,4)]
  let ?b = "ucast (RB_SIZE (mem s) q) :: size_t" and ?n = "ALIGN sz + RB_HDR_SIZE + RB_FTR_SIZE"
  let ?xs = "take (length xs - length (lft xs)) xs" and ?mid = "lft xs @ [(t, True)]"
  have q: "4 < q" using d(5) by simp
  have inv: "heap_inv s (xs @ (t, True) # ys)" using d(1,2) by simp
  have pb: "blk (mem s) (q - w) w False" and pp: "PREV_BLKP (mem s) q = q - w"
      and lw: "lft xs = [(w, False)]"
    using prev_blk[OF inv d(3)] l(1) unfolding w_def by metis+
  let ?f = "ucast (RB_SIZE (mem s) (q - w)) :: size_t"
  have bs: "bs = ?xs @ ?mid @ ys" using d(2) lft_split[of xs] by (metis append.assoc append_Cons append_Nil)
  have inv': "heap_inv s (?xs @ ?mid @ ys)" using d(1) bs by simp
  have p: "q - w = heap_listp s + 8 + total ?xs"
    using d(3) arg_cong[OF lft_split[of xs], of total] by (simp add: w_def)
  have tm: "total ?mid = w + t" by (simp add: w_def)
  have ok: "sz_ok (w + t)" "t + w < 2 ^ 32"
    using mid_sz_ok[OF inv'] tm by (simp_all add: sz_ok_def)
  have nw: "n \<le> w + t" using l(2) by (simp add: w_def)
  note ar = realloc_arith[OF uint_size_of[OF RB_SIZE_hdr[OF blkD(1)[OF pb]]] z(1,2) less_imp_le[OF t(2)] ok(2)]
  have al: "RB_ALLOC (mem s) (q - w) = BLK_FREE" by (simp add: RB_ALLOC_hdr[OF blkD(1)[OF pb]] c_const)
  have av: "uint (RB_AVL_SIZE (mem s) q) = t - 8" by (rule RB_AVL_SIZE_hdr[OF blkD(1,3)[OF d(4)]])
  have ns: "uint (?f - (?n - ?b)) = w + t - n" using ar(2) nw by simp
  have rl: "realloc_larger fit q sz ?n ?b s = (case memcpy (mem s) (q - w) q (t - 8) of None \<Rightarrow> None
      | Some m \<Rightarrow> Some (q - w, set_curp fit (q - w) (s\<lparr>mem := puts m (q - w) (cut (w + t) n)\<rparr>)))"
    using nf(1,2) ar(1) nw al carve_eq(1)[OF z(2) ns z(3) nw ok(1) z(4)]
    by (auto simp: realloc_larger_def realloc_exit_def Let_def pp av split: option.splits)
  show ?thesis
  proof (cases "w < t - 8")
    case True
    then have "memcpy (mem s) (q - w) q (t - 8) = None"
      using t(1) blkD(3)[OF pb] by (simp add: memcpy_def)
    then show ?thesis
      using True rl realloc_guard[OF d(4) k t(1) q, of fit] t(2) by simp
  next
    case False
    then obtain m where m: "memcpy (mem s) (q - w) q (t - 8) = Some m"
      by (auto simp: memcpy_def)
    note mc = memcpy_Some[OF m]
    have out: "same_on (- {q - w - 4..<q - w + (w + t) - 4}) (mem s) m"
      by (rule same_on_subset[OF conjunct1[OF mc]]) (use False blkD(3)[OF pb] in auto)
    have "realloc_post fit s (?xs @ ?mid @ ys) q (t - 8) (n - 8) (q - w)
        (set_curp fit (q - w) (s\<lparr>mem := puts m (q - w) (cut (w + t) n)\<rparr>)) (?xs @ cut (w + t) n @ ys)"
    proof (rule realloc_carve[OF inv' p _ _ tm out z(3) nw z(4) ok(1)])
      show "live (q - w) ?mid = {(q, t - 8)}" by (simp add: lw)
      show "moved (mem s) m q (q - w) (min (t - 8) (n - 8))"
        using conjunct2[OF mc] by (simp add: moved_def)
    qed simp
    then show ?thesis
      using False rl m realloc_guard[OF d(4) k t(1) q, of fit] t(2) unfolding bs by auto
  qed
qed

text \<open>Writing the header and footer of an allocated block again changes nothing.\<close>

lemma heap_inv_reput:
  assumes inv: "heap_inv s bs" and l: "(p, k) \<in> live (heap_listp s + 8) bs"
  shows "heap_inv (s\<lparr>mem := put (mem s) p (k + 8) True\<rparr>) bs"
    "keeps (mem s) (put (mem s) p (k + 8) True) (live (heap_listp s + 8) bs)"
proof -
  obtain xs ys where x: "bs = xs @ (k + 8, True) # ys" "p = heap_listp s + 8 + total xs"
    using l by (rule live_split)
  have inv': "heap_inv s (xs @ [(k + 8, True)] @ ys)" using inv x(1) by simp
  have b: "blk (mem s) p (k + 8) True"
    using heap_invD(3)[OF inv] x by (simp add: prologue_def)
  have ok: "blks_ok [(k + 8, True)]" using blkD[OF b] by simp
  note hp = heap_inv_puts[OF inv' x(2) refl ok, simplified]
  show "heap_inv (s\<lparr>mem := put (mem s) p (k + 8) True\<rparr>) bs" using hp(2) x(1) by simp
  have "same_on {p..<p + k} (mem s) (put (mem s) p (k + 8) True)"
    by (rule same_on_put) auto
  then show "keeps (mem s) (put (mem s) p (k + 8) True) (live (heap_listp s + 8) bs)"
    using hp(3) x by (auto simp: keeps_def algebra_simps)
qed

lemma agrow_new:
  assumes "agrow lim base k bs = Some (p, bs')" "(q, c) \<in> live base bs" "seg m base bs"
  shows "q + c + 8 \<le> p"
proof -
  let ?f = "if tail_free bs then butlast bs else bs"
  have p: "p = base + total ?f" using assms(1) by (auto simp: agrow_def Let_def split: if_splits)
  have "\<exists>tb. bs = ?f @ tb \<and> live r tb = {}" for r
  proof (cases "tail_free bs")
    case True
    then have "bs = butlast bs @ [(fst (last bs), False)]"
      by (metis append_butlast_last_id prod.collapse tail_free_def)
    with True show ?thesis by (intro exI[of _ "[(fst (last bs), False)]"]) simp
  qed simp
  then obtain tb where tb: "bs = ?f @ tb" "live (base + total ?f) tb = {}" by blast
  have "(q, c) \<in> live base ?f" using assms(2) tb by (metis Un_empty_right live_append)
  moreover have "seg m base ?f" using assms(3) tb(1) by (metis seg_append)
  ultimately show ?thesis using live_bounds p by blast
qed

lemma realloc_move:
  assumes b: "block_in s bs q xs t ys" and k: "uint sz + 15 < 2 ^ 31" "n = align8 (uint sz) + 8" "sz \<noteq> 0"
    and t: "16 \<le> t" "t < n" "ys \<noteq> []" "\<not> (rgt ys \<noteq> [] \<and> n \<le> t + total (rgt ys))"
    and l: "\<not> (lft xs \<noteq> [] \<and> n \<le> t + total (lft xs))"
  shows "case agrow (mem_max_addr s) (heap_listp s + 8) (n - 8) bs of
      None \<Rightarrow> \<exists>e. implicit_mm_realloc fit q sz s = Some (NULL, s\<lparr>errno := e\<rparr>)
    | Some (p, bs') \<Rightarrow> \<exists>s'. implicit_mm_realloc fit q sz s = Some (p, s')
      \<and> realloc_post fit s bs q (t - 8) (n - 8) p s' (afree (heap_listp s + 8) q bs')"
proof -
  note d = block_inD[OF b] and z = realloc_sizes[OF block_inD(4)[OF b] k(1,2)]
  note nf = no_next_fit[OF b k(1,2) t(2,3,4)]
  let ?hl = "heap_listp s" and ?base = "heap_listp s + 8"
  let ?b = "ucast (RB_SIZE (mem s) q) :: size_t" and ?n = "ALIGN sz + RB_HDR_SIZE + RB_FTR_SIZE"
  have q: "4 < q" using d(5) by simp
  have inv: "heap_inv s (xs @ (t, True) # ys)" using d(1,2) by simp
  have sg: "seg (mem s) ?base bs"
    using heap_invD(3)[OF d(1)] by (simp add: prologue_def)
  have np: "\<not> (RB_ALLOC (mem s) (PREV_BLKP (mem s) q) = BLK_FREE
      \<and> ?n \<le> ?b + ucast (RB_SIZE (mem s) (PREV_BLKP (mem s) q)))"
  proof -
    obtain w c where w: "blk (mem s) (q - w) w c" "PREV_BLKP (mem s) q = q - w"
      "c \<longleftrightarrow> lft xs = []" "lft xs \<noteq> [] \<longrightarrow> w = total (lft xs) \<and> lft xs = [(w, False)]"
      by (rule prev_blk[OF inv d(3)])
    have "t + w < 2 ^ 32" using blkD(4)[OF w(1)] d(9) by (simp add: sz_ok_def)
    note ar = realloc_arith(1)[OF uint_size_of[OF RB_SIZE_hdr[OF blkD(1)[OF w(1)]]] z(1,2) less_imp_le[OF t(2)] this]
    show ?thesis
      using w(3,4) l ar unfolding w(2) RB_ALLOC_hdr[OF blkD(1)[OF w(1)]] by (auto simp: c_const)
  qed
  have rl: "implicit_mm_realloc fit q sz s = (case do_malloc fit (ALIGN sz) s of (p, s) \<Rightarrow>
      if p = NULL then Some (NULL, s)
      else do {
        m \<leftarrow> memcpy (mem s) p q (uint (RB_AVL_SIZE (mem s) q));
        let s = implicit_mm_free fit q (s\<lparr>mem := m\<rparr>);
        Some (realloc_exit fit p (s\<lparr>mem := SET_RB (mem s) p ?n BLK_ALLOC\<rparr>))})"
  proof -
    have "implicit_mm_realloc fit q sz s = realloc_larger fit q sz ?n ?b s"
      using realloc_guard[OF d(4) k t(1) q, of fit] t(2) by simp
    then show ?thesis
      using nf np by (auto simp: realloc_larger_def Let_def split: prod.splits)
  qed
  have ua: "uint (ALIGN (ALIGN sz)) = n - 8"
    using uint_ALIGN[of "ALIGN sz"] z(4-6) align8_facts(6)[of "n - 8"] by simp
  have dm: "case agrow (mem_max_addr s) ?base (n - 8) bs of
      None \<Rightarrow> \<exists>e. do_malloc fit (ALIGN sz) s = (NULL, s\<lparr>errno := e\<rparr>)
    | Some (p, bs') \<Rightarrow> \<exists>s'. do_malloc fit (ALIGN sz) s = (p, set_curp fit p s') \<and> heap_inv s' bs'
        \<and> keeps (mem s) (mem s') (live ?base bs)
        \<and> live ?base bs' = insert (p, n - 8) (live ?base bs)
        \<and> heap_listp s' = ?hl \<and> mem_max_addr s' = mem_max_addr s"
    by (rule do_malloc_spec[OF d(1) ua]) (use z(4,5) in auto)
  show ?thesis
  proof (cases "agrow (mem_max_addr s) ?base (n - 8) bs")
    case None
    then show ?thesis using dm rl by auto
  next
    case (Some r)
    obtain p bs' where r: "agrow (mem_max_addr s) ?base (n - 8) bs = Some (p, bs')"
      using Some by (cases r) auto
    obtain s1 where s1: "do_malloc fit (ALIGN sz) s = (p, set_curp fit p s1)" "heap_inv s1 bs'"
      "keeps (mem s) (mem s1) (live ?base bs)" "live ?base bs' = insert (p, n - 8) (live ?base bs)"
      "heap_listp s1 = ?hl" "mem_max_addr s1 = mem_max_addr s"
      using dm unfolding r option.case prod.case by blast
    have qp: "q + t \<le> p" using agrow_new[OF r d(11) sg] by simp
    let ?L = "live ?base bs - {(q, t - 8)}"
    have sg1: "seg (mem s1) ?base bs'"
      using heap_invD(3)[OF s1(2)] s1(5) by (simp add: prologue_def)
    have lq: "(q, t - 8) \<in> live ?base bs'" and lp: "(p, n - 8) \<in> live ?base bs'"
      using s1(4) d(11) by auto
    have nin: "(p, n - 8) \<notin> live ?base bs"
      using agrow_new[OF r _ sg, of p "n - 8"] z(3) by auto
    have b1: "blk (mem s1) q t True"
      using lq sg1 by (auto elim!: live_split)
    have av: "uint (RB_AVL_SIZE (mem s1) q) = t - 8" by (rule RB_AVL_SIZE_hdr[OF blkD(1,3)[OF b1]])
    have "memcpy (mem s1) p q (t - 8) \<noteq> None" using qp by (simp add: memcpy_def)
    then obtain m where m: "memcpy (mem s1) p q (t - 8) = Some m" by auto
    note mc = memcpy_Some[OF m]
    let ?s2 = "(set_curp fit p s1)\<lparr>mem := m\<rparr>"
    have om: "same_on (- {p..<p + (n - 8)}) (mem s1) m"
      by (rule same_on_subset[OF conjunct1[OF mc]]) (use t in auto)
    note hm = heap_inv_payload[OF s1(2) _ om, unfolded s1(5), OF lp]
    have cs: "set_curp fit p (s1\<lparr>mem := m\<rparr>) = ?s2" by (simp add: set_curp_def)
    have i2: "imp_inv fit ?s2 bs'"
      using hm(1) curp_ok_live[of p "n - 8" "s1\<lparr>mem := m\<rparr>" bs' fit] lp s1(5)
      unfolding cs[symmetric] by (simp add: imp_inv_def)
    have l2: "(q, t - 8) \<in> live (heap_listp ?s2 + 8) bs'" using lq s1(5) by simp
    note fr = implicit_free_spec[OF i2 l2]
    define s3 where "s3 = implicit_mm_free fit q ?s2"
    let ?bs3 = "afree ?base q bs'"
    have h3: "heap_listp s3 = ?hl" "mem_max_addr s3 = mem_max_addr s"
      using fr(4,5) s1(5,6) by (simp_all add: s3_def)
    have i3: "imp_inv fit s3 ?bs3" and k3: "keeps m (mem s3) (live ?base bs' - {(q, t - 8)})"
      and l3: "live ?base ?bs3 = live ?base bs' - {(q, t - 8)}"
      using fr(1-3) s1(5) by (simp_all add: s3_def)
    have L: "live ?base bs' - {(q, t - 8)} = insert (p, n - 8) ?L"
      using s1(4) t(2) by auto
    have lp3: "(p, n - 8) \<in> live (heap_listp s3 + 8) ?bs3" using l3 L h3(1) by simp
    have hi3: "heap_inv s3 ?bs3" using i3 by (simp add: imp_inv_def)
    note rp = heap_inv_reput[OF hi3 lp3, simplified]
    let ?m4 = "put (mem s3) p n True"
    have set: "SET_RB (mem s3) p ?n BLK_ALLOC = ?m4"
      by (rule SET_RB_put[OF z(2)]) (use z(3-5) in \<open>simp_all add: c_const sz_ok_def\<close>)
    have pn: "p \<noteq> NULL" using qp d(5,10) by (simp add: NULL_def)
    have eq: "implicit_mm_realloc fit q sz s = Some (p, set_curp fit p (s3\<lparr>mem := ?m4\<rparr>))"
      using rl s1(1) pn m av set by (simp add: s3_def realloc_exit_def Let_def)
    have "imp_inv fit (set_curp fit p (s3\<lparr>mem := ?m4\<rparr>)) ?bs3"
      using rp(1) curp_ok_live[of p "n - 8" "s3\<lparr>mem := ?m4\<rparr>" ?bs3 fit] lp3 by (simp add: imp_inv_def)
    moreover have kL: "keeps (mem s) ?m4 ?L"
    proof -
      have "keeps (mem s) (mem s1) ?L" "keeps (mem s1) m ?L" "keeps m (mem s3) ?L" "keeps (mem s3) ?m4 ?L"
        using s1(3) hm(2) k3 rp(2) nin unfolding l3 L h3(1) s1(4) by (auto simp: keeps_def)
      then show ?thesis by (blast intro: keeps_trans)
    qed
    moreover have "moved (mem s) ?m4 q p (min (t - 8) (n - 8))"
    proof -
      have "moved (mem s1) m q p (t - 8)" using conjunct2[OF mc] by (simp add: moved_def)
      moreover have "same_on {q..<q + (t - 8)} (mem s) (mem s1)" by (rule keepsD[OF s1(3) d(11)]) simp
      ultimately have "moved (mem s) m q p (t - 8)" by (auto simp: moved_def same_on_def)
      moreover have "same_on {p..<p + (t - 8)} m (mem s3)"
        by (rule keepsD[OF k3, of p "n - 8"]) (use L t(2) in auto)
      moreover have "same_on {p..<p + (t - 8)} (mem s3) ?m4"
        by (rule keepsD[OF rp(2) lp3]) (use t(2) in auto)
      ultimately show ?thesis using t(2) by (auto intro: moved_trans)
    qed
    moreover have "(p, n - 8) \<notin> ?L" using nin by simp
    ultimately show ?thesis
      unfolding r option.case prod.case
      using eq pn h3 l3 L by (intro exI[of _ "set_curp fit p (s3\<lparr>mem := ?m4\<rparr>)"])
        (auto simp: realloc_post_def Let_def)
  qed
qed

text \<open>The specification of realloc, every branch.\<close>

lemma implicit_realloc_spec:
  assumes inv: "imp_inv fit s bs" and l: "(q, c) \<in> live (heap_listp s + 8) bs" and c: "8 \<le> c"
    and sz: "sz \<noteq> 0" "uint sz + 15 < 2 ^ 31"
  shows "case arealloc (mem_max_addr s) (heap_listp s + 8) (align8 (uint sz)) q bs of
      Done r bs' \<Rightarrow> \<exists>s'. implicit_mm_realloc fit q sz s = Some (r, s')
        \<and> realloc_post fit s bs q c (align8 (uint sz)) r s' bs'
    | Fail \<Rightarrow> \<exists>e. implicit_mm_realloc fit q sz s = Some (NULL, s\<lparr>errno := e\<rparr>)
    | Undefined \<Rightarrow> implicit_mm_realloc fit q sz s = None
    | Overrun \<Rightarrow> True"
proof -
  let ?base = "heap_listp s + 8" and ?n = "align8 (uint sz) + 8" and ?t = "c + 8"
  have hinv: "heap_inv s bs" using inv by (simp add: imp_inv_def)
  obtain xs ys where x: "bs = xs @ (?t, True) # ys" "q = ?base + total xs"
    using l by (rule live_split)
  have b: "block_in s bs q xs ?t ys" using hinv x by (simp add: block_in_def)
  have k: "uint sz + 15 < 2 ^ 31" "?n = align8 (uint sz) + 8" "sz \<noteq> 0" using sz by auto
  have t: "16 \<le> ?t" using c by simp
  note ar = arealloc_def block_inD(6)[OF b] Let_def
  have brk: "mem_brk s = ?base + total bs" using heap_invD(5)[OF hinv] by simp
  consider (shrink) "?n \<le> ?t"
    | (nxt) "?t < ?n" "rgt ys \<noteq> []" "?n \<le> ?t + total (rgt ys)"
    | (tail) "?t < ?n" "\<not> (rgt ys \<noteq> [] \<and> ?n \<le> ?t + total (rgt ys))" "ys = []"
    | (prev) "?t < ?n" "\<not> (rgt ys \<noteq> [] \<and> ?n \<le> ?t + total (rgt ys))" "ys \<noteq> []"
        "lft xs \<noteq> []" "?n \<le> ?t + total (lft xs)"
    | (move) "?t < ?n" "\<not> (rgt ys \<noteq> [] \<and> ?n \<le> ?t + total (rgt ys))" "ys \<noteq> []"
        "\<not> (lft xs \<noteq> [] \<and> ?n \<le> ?t + total (lft xs))"
    by linarith
  then show ?thesis
  proof cases
    case shrink
    then show ?thesis using realloc_shrink[OF b k t shrink, of fit] by (simp add: ar)
  next
    case nxt
    then show ?thesis using realloc_next[OF b k t nxt, of fit] by (simp add: ar)
  next
    case tail
    then show ?thesis
      using realloc_tail[of s bs q xs ?t sz ?n fit] b k t brk by (auto simp: ar)
  next
    case prev
    have "\<not> ?n \<le> ?t" using prev(1) by simp
    then show ?thesis
      using realloc_prev[OF b k t prev(1,3,2,4,5), of fit] prev by (auto simp: ar)
  next
    case move
    have "\<not> ?n \<le> ?t" using move(1) by simp
    then show ?thesis
      using realloc_move[OF b k t move(1,3,2,4), of fit] move by (auto simp: ar split: option.splits)
  qed
qed

end
