(* ===== verification/Implicit_Client.thy ===== *)
theory Implicit_Client
  imports Implicit_Realloc
begin

text \<open>
  What a client of the implicit allocator sees: initialisation, the sequences of calls it may
  make, the absence of adjacent free blocks, and the requests on which the code misbehaves.
  \<open>mk_state\<close> builds a concrete heap from any list of blocks, for the witnesses.
\<close>

section \<open>Initialisation\<close>

lemma SET_word: "SET m p (w :: u32) = store32 m p w"
  by (simp add: SET_def)

lemma implicit_init_eq:
  assumes wf: "mem_wf s" and e: "hdr_at (mem s) (mem_brk s) 0 b" and room: "mem_brk s + 16 \<le> mem_max_addr s"
  shows "\<exists>m'. implicit_mm_init fit s = (0, set_curp fit (mem_brk s + 8)
      (s\<lparr>mem_brk := mem_brk s + 16, mem := m', heap_listp := mem_brk s + 8\<rparr>))
    \<and> load32 m' (mem_brk s - 4) = hdr 0 True
    \<and> blk m' (mem_brk s + 8) 8 True \<and> hdr_at m' (mem_brk s + 16) 0 True
    \<and> same_on (- {mem_brk s - 4..<mem_brk s + 16}) (mem s) m'"
proof -
  let ?b = "mem_brk s" and ?mz = "store32 (mem s) (mem_brk s - 4) (hdr 0 True)"
  let ?m = "store32 (store32 (store32 (store32 ?mz ?b 0xDEADBEEF) (?b + 4) (hdr 8 True))
    (?b + 8) (hdr 8 True)) (?b + 12) (hdr 0 True)"
  have "sint (word_of_int (PADDING_BLK_SIZE + PB_HDR_SIZE + PB_FTR_SIZE + EB_HDR_SIZE) :: c_int) = 16"
    by (simp add: c_const)
  from extend_heap_eq[OF wf e this] room
  have ext: "extend_heap (word_of_int (PADDING_BLK_SIZE + PB_HDR_SIZE + PB_FTR_SIZE + EB_HDR_SIZE)) s
      = (?b, s\<lparr>mem_brk := ?b + 16, mem := ?mz\<rparr>)" by simp
  have pk: "PACK (word_of_int (PB_HDR_SIZE + PB_FTR_SIZE) :: c_int) BLK_ALLOC = hdr 8 True"
    "PACK (0 :: c_int) BLK_ALLOC = hdr 0 True"
    by (simp_all add: PACK_def c_const hdr_def)
  have nf: "?b \<noteq> PTR_FAIL" using mem_wf_ptr[OF wf] by simp
  have off: "p + PADDING_BLK_SIZE = p + 4" "p + 4 + PB_HDR_SIZE = p + 8"
    "p + 8 + PB_FTR_SIZE = p + 12" "p + (PADDING_BLK_SIZE + PB_HDR_SIZE) = p + 8" for p :: addr
    by (simp_all add: c_const)
  have "implicit_mm_init fit s = (0, set_curp fit (?b + 8)
      (s\<lparr>mem_brk := ?b + 16, mem := ?m, heap_listp := ?b + 8\<rparr>))"
    unfolding implicit_mm_init_def Let_def ext prod.case pk SET_word
    using nf by (simp add: off)
  moreover have "same_on (- {?b - 4..<?b + 16}) (mem s) ?m"
    by (auto simp: same_on_def store32_def)
  moreover have "blk ?m (?b + 8) 8 True" "hdr_at ?m (?b + 16) 0 True" "load32 ?m (?b - 4) = hdr 0 True"
    by (simp_all add: blk_def hdr_at_def ftr_at_def sz_ok_def add.commute[of ?b])
  ultimately show ?thesis by blast
qed

lemma implicit_init_inv:
  assumes wf: "mem_wf s" and e: "hdr_at (mem s) (mem_brk s) 0 b" and st: "mem_brk s = mem_start_brk s"
    and fr: "fresh s"
  shows "fst (implicit_mm_init fit s) = 0" "imp_inv fit (snd (implicit_mm_init fit s)) []"
    "mem_start_brk (snd (implicit_mm_init fit s)) = mem_start_brk s"
    "mem_max_addr (snd (implicit_mm_init fit s)) = mem_max_addr s"
    "mem_brk (snd (implicit_mm_init fit s)) = mem_start_brk s + 16"
    "heap_listp (snd (implicit_mm_init fit s)) = mem_start_brk s + 8"
proof -
  have room: "mem_brk s + 16 \<le> mem_max_addr s" using wf st by (simp add: mem_wf_def c_const)
  obtain m' where m: "implicit_mm_init fit s = (0, set_curp fit (mem_brk s + 8)
      (s\<lparr>mem_brk := mem_brk s + 16, mem := m', heap_listp := mem_brk s + 8\<rparr>))"
    "blk m' (mem_brk s + 8) 8 True" "hdr_at m' (mem_brk s + 16) 0 True"
    "same_on (- {mem_brk s - 4..<mem_brk s + 16}) (mem s) m'" "load32 m' (mem_brk s - 4) = hdr 0 True"
    using implicit_init_eq[OF wf e room, of fit] by auto
  let ?s = "s\<lparr>mem_brk := mem_brk s + 16, mem := m', heap_listp := mem_brk s + 8\<rparr>"
  have "empty_front ?s" using m(5) st by (auto simp: empty_front_def hdr_at_def sz_ok_def)
  then have "heap_inv ?s []"
    using wf st fr m(2-4) room
    by (auto simp: heap_inv_def prologue_def mem_wf_def fresh_def same_on_def algebra_simps)
  moreover have "curp_ok fit (set_curp fit (mem_brk s + 8) ?s) []"
    by (rule curp_ok_set_curp) (simp add: prologue_def)
  ultimately show "imp_inv fit (snd (implicit_mm_init fit s)) []"
    unfolding m(1) by (simp add: imp_inv_def)
  show "fst (implicit_mm_init fit s) = 0"
    "mem_start_brk (snd (implicit_mm_init fit s)) = mem_start_brk s"
    "mem_max_addr (snd (implicit_mm_init fit s)) = mem_max_addr s"
    "mem_brk (snd (implicit_mm_init fit s)) = mem_start_brk s + 16"
    "heap_listp (snd (implicit_mm_init fit s)) = mem_start_brk s + 8"
    unfolding m(1) using st by simp_all
qed

section \<open>A concrete heap for any list of blocks\<close>

definition arena0 :: mstate where
  "arena0 = \<lparr>mem = (\<lambda>_. 0), mem_start_brk = 4096, mem_brk = 4096, mem_max_addr = 4096 + MAX_HEAP,
     errno = 0, heap_listp = 0, heap_curp = 0, freelist_table = 0\<rparr>"

definition mk_state :: "block list \<Rightarrow> mstate" where
  "mk_state bs =
     (let m = puts (mem arena0) 4104 (prologue # bs); brk = 4112 + total bs
      in arena0\<lparr>mem := if bs = [] then store32 m (brk - 4) (hdr 0 True) else m,
           mem_brk := brk, heap_listp := 4104, heap_curp := 4104\<rparr>)"

lemma arena0_wf: "mem_wf arena0" "fresh arena0" "hdr_at (mem arena0) 4096 0 False"
    "mem_brk arena0 = 4096" "mem_start_brk arena0 = 4096"
  by (simp_all add: arena0_def mem_wf_def fresh_def hdr_at_def hdr_def sz_ok_def load32_def c_const)

lemma mk_state_inv:
  assumes ok: "blks_ok bs" and t: "total bs \<le> MAX_HEAP - 16" and d: "8 dvd total bs"
  shows "imp_inv fit (mk_state bs) bs"
proof -
  let ?bs = "prologue # bs" and ?mz = "\<lambda>_. 0 :: byte"
  let ?m = "puts ?mz 4104 ?bs" and ?brk = "4112 + total bs"
  have ok': "blks_ok ?bs" using ok by (simp add: prologue_def sz_ok_def)
  have tt: "4104 + total ?bs = ?brk" "0 \<le> total bs" using blks_ok_total[OF ok] by (simp_all add: prologue_def)
  have sm: "same_on (- {4100..<?brk - 4}) ?mz ?m"
    using same_on_puts[OF ok', of 4104 ?mz] tt by simp
  have sg: "seg ?m 4104 ?bs" by (rule seg_puts[OF ok'])
  have l0: "load32 ?mz a = 0" for a by (simp add: load32_def)
  have "load32 ?m (?brk - 4) = load32 ?mz (?brk - 4)"
    by (rule same_on_load32[OF sm]) auto
  then have e: "hdr_at ?m ?brk 0 False"
    unfolding hdr_at_def l0 by (simp add: hdr_def sz_ok_def)
  let ?s = "mk_state bs"
  have f: "mem_start_brk ?s = 4096" "mem_brk ?s = ?brk" "mem_max_addr ?s = 4096 + MAX_HEAP"
    "heap_listp ?s = 4104" "heap_curp ?s = 4104"
    "mem ?s = (if bs = [] then store32 ?m (?brk - 4) (hdr 0 True) else ?m)"
    by (simp_all add: mk_state_def arena0_def Let_def)
  have sg': "seg (mem ?s) 4104 ?bs"
    by (rule seg_cong[OF _ sg]) (auto simp: f prologue_def intro!: same_on_store32)
  have e': "hdr_at (mem ?s) ?brk 0 (bs = [])"
    using e by (auto simp: f hdr_at_def sz_ok_def)
  have z: "mem ?s a = 0" if "?brk \<le> a" for a
  proof -
    have "same_on {?brk..} ?mz ?m" by (rule same_on_subset[OF sm]) auto
    moreover have "same_on {?brk..} ?m (mem ?s)" by (auto simp: f intro!: same_on_store32)
    ultimately have "same_on {?brk..} ?mz (mem ?s)" by (rule same_on_trans)
    then show ?thesis using that by (simp add: same_on_def)
  qed
  have "mem_wf ?s" using t tt(2) by (simp add: mem_wf_def f c_const)
  moreover have "fresh ?s" using z by (simp add: fresh_def f)
  moreover have "same_on {..<4096} ?mz (mem ?s)"
  proof -
    have "same_on {..<4096} ?mz ?m" by (rule same_on_subset[OF sm]) auto
    moreover have "same_on {..<4096} ?m (mem ?s)" using tt(2) by (auto simp: f intro!: same_on_store32)
    ultimately show ?thesis by (rule same_on_trans)
  qed
  then have "load32 (mem ?s) 4092 = load32 ?mz 4092" by (rule same_on_load32) auto
  then have "load32 (mem ?s) 4092 = 0" by (simp only: l0)
  then have "empty_front ?s" by (auto simp: empty_front_def hdr_at_def hdr_def sz_ok_def f intro!: exI[of _ False])
  ultimately have "heap_inv ?s bs"
    using sg' e' tt(1) by (simp add: heap_inv_def f)
  then show ?thesis by (simp add: imp_inv_def curp_ok_def f prologue_def)
qed

section \<open>Adjacent free blocks\<close>

fun no_adj :: "block list \<Rightarrow> bool" where
  "no_adj [] \<longleftrightarrow> True"
| "no_adj [x] \<longleftrightarrow> True"
| "no_adj ((s, a) # (t, b) # bs) \<longleftrightarrow> (a \<or> b) \<and> no_adj ((t, b) # bs)"

lemma no_adj_append:
  "no_adj (xs @ ys) \<longleftrightarrow> no_adj xs \<and> no_adj ys
     \<and> (xs = [] \<or> ys = [] \<or> snd (last xs) \<or> snd (hd ys))"
proof (induction xs rule: no_adj.induct)
  case (2 v)
  then show ?case by (cases v; cases ys rule: no_adj.cases) auto
qed auto

lemma no_adj_Cons_alloc: "no_adj ((t, True) # ys) \<longleftrightarrow> no_adj ys"
  using no_adj_append[of "[(t, True)]" ys] by simp

lemma no_adj_merge:
  assumes "no_adj (xs @ (t, True) # ys)"
  shows "no_adj (merge_free xs t' ys)"
proof -
  have xy: "no_adj xs" "no_adj ys" using assms by (simp_all add: no_adj_append no_adj_Cons_alloc)
  define zs where "zs = drop (length (rgt ys)) ys"
  define ws where "ws = take (length xs - length (lft xs)) xs"
  have z: "no_adj zs" "zs = [] \<or> snd (hd zs)"
    by (cases rule: rgt_cases[of ys]; use xy in \<open>cases zs rule: no_adj.cases; force simp: zs_def\<close>)+
  have w: "no_adj ws" "ws = [] \<or> snd (last ws)"
    by (cases rule: lft_cases[of xs]; use xy in \<open>auto simp: ws_def no_adj_append\<close>)+
  show ?thesis
    using z w no_adj_append[of "[(total (joined xs t' ys), False)]" zs]
    unfolding merge_free_def zs_def[symmetric] ws_def[symmetric]
    by (auto simp: no_adj_append)
qed

end
