(* ===== verification/Segregate.thy ===== *)
theory Segregate
  imports Macros "HOL-Library.Monad_Syntax"
begin

text \<open>
  \<^verbatim>\<open>segregate.c\<close>: the segregated-fit allocator. A table of eleven slots at the start of the
  heap holds the heads of doubly linked lists of free blocks, linked through the first two
  words of their payloads; the slot itself is the predecessor of the first block. The macros
  that \<^verbatim>\<open>segregate.c\<close> repeats from \<^verbatim>\<open>implicit.c\<close> word for word are those of theory
  \<open>Macros\<close>; \<open>BLK_eq\<close> relates the ones it renames. Functions whose names both
  allocators use carry the prefix \<open>segregate_\<close>. A walk along a cyclic list does not return:
  \<open>freelist_alloc\<close> is then \<open>None\<close>.
\<close>

section \<open>Macros\<close>

definition BLK_HDR_SIZE :: "'a::len word" where
  [c_const]: "BLK_HDR_SIZE = 4"

definition BLK_FTR_SIZE :: "'a::len word" where
  [c_const]: "BLK_FTR_SIZE = 4"

definition BLK_MIN_SIZE :: "'a::len word" where
  [c_const]: "BLK_MIN_SIZE = BLK_HDR_SIZE + ALIGNMENT + BLK_FTR_SIZE"

definition BLK_HDRP :: "addr \<Rightarrow> addr" where
  "BLK_HDRP p = p - uint (BLK_HDR_SIZE :: c_int)"

definition BLK_SIZE :: "memory \<Rightarrow> addr \<Rightarrow> u32" where
  "BLK_SIZE m p = GET_SIZE m (BLK_HDRP p)"

definition BLK_AVAL_SIZE :: "memory \<Rightarrow> addr \<Rightarrow> u32" where
  "BLK_AVAL_SIZE m p = BLK_SIZE m p - BLK_HDR_SIZE - BLK_FTR_SIZE"

definition BLK_STATE :: "memory \<Rightarrow> addr \<Rightarrow> u32" where
  "BLK_STATE m p = GET_ALLOC m (BLK_HDRP p)"

definition BLK_FTRP :: "memory \<Rightarrow> addr \<Rightarrow> addr" where
  "BLK_FTRP m p = p + uint (BLK_AVAL_SIZE m p)"

definition SET_BLK :: "memory \<Rightarrow> addr \<Rightarrow> 'a::len word \<Rightarrow> 'a word \<Rightarrow> memory" where
  "SET_BLK m p sz alloc =
     (let m = SET m (BLK_HDRP p) (PACK sz alloc)
      in SET m (BLK_FTRP m p) (PACK sz alloc))"

definition FLT_SLOT_NUM :: nat where
  [c_const]: "FLT_SLOT_NUM = 11"

definition FLT_SIZE :: int where
  [c_const]: "FLT_SIZE = int FLT_SLOT_NUM * 8"

definition NEXT_FREE_BLKP :: "memory \<Rightarrow> addr \<Rightarrow> addr" where
  "NEXT_FREE_BLKP m p = uint (load64 m p)"

definition PREV_FREE_BLKP :: "memory \<Rightarrow> addr \<Rightarrow> addr" where
  "PREV_FREE_BLKP m p = uint (load64 m (p + 8))"

definition SET_NEXT_FREE_BLK :: "memory \<Rightarrow> addr \<Rightarrow> addr \<Rightarrow> memory" where
  "SET_NEXT_FREE_BLK m bp next = store64 m bp (word_of_int next)"

definition SET_PREV_FREE_BLK :: "memory \<Rightarrow> addr \<Rightarrow> addr \<Rightarrow> memory" where
  "SET_PREV_FREE_BLK m bp prev = store64 m (bp + 8) (word_of_int prev)"

definition FREELIST_DEL_BLK :: "memory \<Rightarrow> addr \<Rightarrow> memory" where
  "FREELIST_DEL_BLK m bp =
     (if BLK_SIZE m bp > BLK_MIN_SIZE
      then
        let prevp = PREV_FREE_BLKP m bp;
            nextp = NEXT_FREE_BLKP m bp;
            m = SET_NEXT_FREE_BLK m prevp nextp
        in if nextp \<noteq> NULL then SET_PREV_FREE_BLK m nextp prevp else m
      else m)"

lemma BLK_eq: "BLK_HDRP = RB_HDRP" "BLK_SIZE = RB_SIZE" "BLK_AVAL_SIZE = RB_AVL_SIZE"
    "BLK_STATE = RB_ALLOC" "BLK_FTRP = RB_FTRP" "SET_BLK = SET_RB"
  by (intro ext, simp add: macro_defs c_const BLK_HDRP_def BLK_SIZE_def BLK_AVAL_SIZE_def
      BLK_STATE_def BLK_FTRP_def SET_BLK_def)+

section \<open>Helper functions\<close>

text \<open>The loop runs over \<open>b\<close> and \<open>S\<close> from the last entry to the first.\<close>

definition flt_steps :: "(u32 \<times> nat) list" where
  "flt_steps = [(0xFFFF0000, 16), (0xFF00, 8), (0xF0, 4), (0xC, 2), (0x2, 1)]"

fun flt_loop :: "(u32 \<times> nat) list \<Rightarrow> c_int \<Rightarrow> u32 \<Rightarrow> u32" where
  "flt_loop [] v r = r"
| "flt_loop ((b, S) # steps) v r =
     (if v AND b \<noteq> 0 then flt_loop steps (signed_drop_bit S v) (r OR of_nat S)
      else flt_loop steps v r)"

definition flt_index :: "c_int \<Rightarrow> nat" where
  "flt_index v =
     (let vc = v; r = flt_loop flt_steps v 0;
          ret = r - 3 + of_bool (vc AND (vc - 1) \<noteq> 0)
      in if sint ret < 0 then 0 else if sint ret > 10 then 10 else nat (sint ret))"

definition segregate_coalesce :: "addr \<Rightarrow> memory \<Rightarrow> addr \<times> memory" where
  "segregate_coalesce bp m =
     (let sz = (BLK_SIZE m bp :: c_int);
          p = bp;
          (sz, m) = (if NEXT_BLK_ALLOC m bp = BLK_FREE
                     then let m = FREELIST_DEL_BLK m (NEXT_BLKP m bp) in (sz + NEXT_BLK_SIZE m bp, m)
                     else (sz, m));
          (sz, p, m) = (if PREV_BLK_ALLOC m bp = BLK_FREE
                        then let m = FREELIST_DEL_BLK m (PREV_BLKP m bp)
                             in (sz + PREV_BLK_SIZE m bp, PREV_BLKP m bp, m)
                        else (sz, p, m))
      in (p, SET_BLK m p sz BLK_FREE))"

definition segregate_extend_heap :: "c_int \<Rightarrow> mstate \<Rightarrow> addr \<times> mstate" where
  "segregate_extend_heap sz s =
     (if sz = 0 then (NULL, s)
      else if sint sz mod sint (ALIGNMENT :: c_int) \<noteq> 0 then (NULL, s)
      else
        let (old_brk, s) = mem_sbrk sz s
        in if old_brk = PTR_FAIL then (NULL, s)
           else let (brk, s) = mem_sbrk 0 s in (old_brk, s\<lparr>mem := SET_EB (mem s) brk\<rparr>))"

section \<open>Free lists\<close>

definition freelist_insert2 :: "addr \<Rightarrow> addr \<Rightarrow> memory \<Rightarrow> memory" where
  "freelist_insert2 freelistp bp m =
     (let nextp = NEXT_FREE_BLKP m freelistp
      in if BLK_SIZE m bp = BLK_MIN_SIZE
         then let m = SET_NEXT_FREE_BLK m bp nextp in SET_NEXT_FREE_BLK m freelistp bp
         else
           let nextp = NEXT_FREE_BLKP m freelistp;
               m = SET_NEXT_FREE_BLK m bp nextp;
               m = SET_PREV_FREE_BLK m bp freelistp;
               m = SET_NEXT_FREE_BLK m freelistp bp
           in if nextp \<noteq> NULL then SET_PREV_FREE_BLK m nextp bp else m)"

definition freelist_slot :: "mstate \<Rightarrow> nat \<Rightarrow> addr" where
  "freelist_slot s i = freelist_table s + 8 * int i"

definition freelist_insert :: "addr \<Rightarrow> mstate \<Rightarrow> mstate" where
  "freelist_insert bp s =
     (let (p, m) = segregate_coalesce bp (mem s);
          freelistp = freelist_slot s (flt_index (BLK_AVAL_SIZE m p))
      in s\<lparr>mem := freelist_insert2 freelistp p m\<rparr>)"

text \<open>The body of the \<open>while (p)\<close> loop for a block that is big enough.\<close>

definition freelist_take :: "addr \<Rightarrow> size_t \<Rightarrow> mstate \<Rightarrow> mstate" where
  "freelist_take p nsize s =
     (let bsize = (ucast (BLK_SIZE (mem s) p) :: size_t);
          m = FREELIST_DEL_BLK (mem s) p;
          rsize = bsize - nsize
      in if rsize \<ge> BLK_MIN_SIZE
         then
           let m = SET_BLK m p nsize BLK_ALLOC;
               m = SET_BLK m (NEXT_BLKP m p) rsize BLK_FREE
           in freelist_insert (NEXT_BLKP m p) (s\<lparr>mem := m\<rparr>)
         else s\<lparr>mem := SET_BLK m p (BLK_SIZE m p) BLK_ALLOC\<rparr>)"

partial_function (option) freelist_alloc_loop ::
  "size_t \<Rightarrow> mstate \<Rightarrow> addr \<Rightarrow> (addr \<times> mstate) option" where
  "freelist_alloc_loop nsize s p =
     (if p \<noteq> NULL
      then if ucast (BLK_SIZE (mem s) p) \<ge> nsize
           then Some (p, freelist_take p nsize s)
           else freelist_alloc_loop nsize s (NEXT_FREE_BLKP (mem s) p)
      else Some (NULL, s))"

declare freelist_alloc_loop.simps [code]

definition freelist_alloc :: "addr \<Rightarrow> size_t \<Rightarrow> mstate \<Rightarrow> (addr \<times> mstate) option" where
  "freelist_alloc freelistp sz s =
     (let p = NEXT_FREE_BLKP (mem s) freelistp
      in if p = NULL then Some (NULL, s)
         else freelist_alloc_loop (ALIGN sz + BLK_HDR_SIZE + BLK_FTR_SIZE) s p)"

section \<open>The interface\<close>

definition segregate_mm_init :: "mstate \<Rightarrow> c_int \<times> mstate" where
  "segregate_mm_init s =
     (let (p, s) = segregate_extend_heap (word_of_int
                     (FLT_SIZE + PADDING_BLK_SIZE + PB_HDR_SIZE + PB_FTR_SIZE + EB_HDR_SIZE)) s;
          s = s\<lparr>freelist_table := p\<rparr>
      in if freelist_table s = NULL then (1, s)
         else
           let m = memset (mem s) (freelist_table s) 0 FLT_SIZE;
               s = s\<lparr>heap_listp := freelist_table s + 8 * int FLT_SLOT_NUM\<rparr>;
               m = SET m (heap_listp s) (0xDEADBEEF :: u32);
               m = SET m (heap_listp s + PADDING_BLK_SIZE) (PACK 8 BLK_ALLOC :: c_int);
               m = SET m (heap_listp s + PADDING_BLK_SIZE + PB_HDR_SIZE) (PACK 8 BLK_ALLOC :: c_int);
               m = SET m (heap_listp s + PADDING_BLK_SIZE + PB_HDR_SIZE + PB_FTR_SIZE)
                     (PACK 0 BLK_ALLOC :: c_int)
           in (0, s\<lparr>mem := m, heap_listp := heap_listp s + (PADDING_BLK_SIZE + PB_HDR_SIZE)\<rparr>))"

text \<open>The \<open>for\<close> loop over the slots from \<open>i\<close> on: \<open>NULL\<close> when none has room.\<close>

function freelist_search :: "size_t \<Rightarrow> nat \<Rightarrow> mstate \<Rightarrow> (addr \<times> mstate) option" where
  "freelist_search sz i s =
     (if i < FLT_SLOT_NUM
      then
        do {
          (bp, s) \<leftarrow> freelist_alloc (freelist_slot s i) sz s;
          if bp \<noteq> NULL then Some (bp, s) else freelist_search sz (i + 1) s
        }
      else Some (NULL, s))"
  by pat_completeness auto
termination
  by (relation "measure (\<lambda>(_, i, _). FLT_SLOT_NUM - i)") auto

declare freelist_search.simps [simp del]

definition segregate_mm_malloc :: "size_t \<Rightarrow> mstate \<Rightarrow> (addr \<times> mstate) option" where
  "segregate_mm_malloc sz s =
     do {
       let index = flt_index (ucast sz);
       (bp, s) \<leftarrow> freelist_search sz index s;
       if bp \<noteq> NULL then Some (bp, s)
       else
         let bsize = ALIGN sz + BLK_HDR_SIZE + BLK_FTR_SIZE;
             (bp, s) = segregate_extend_heap (ucast bsize) s
         in if bp = NULL then Some (NULL, s)
            else Some (bp, s\<lparr>mem := SET_BLK (mem s) bp bsize BLK_ALLOC\<rparr>)
     }"

definition segregate_mm_free :: "addr \<Rightarrow> mstate \<Rightarrow> mstate" where
  "segregate_mm_free ptr s = freelist_insert ptr s"

text \<open>Copying to \<open>NULL\<close> is undefined, as for overlapping regions.\<close>

definition segregate_mm_realloc :: "addr \<Rightarrow> size_t \<Rightarrow> mstate \<Rightarrow> (addr \<times> mstate) option" where
  "segregate_mm_realloc ptr sz s =
     (if ptr = NULL then segregate_mm_malloc sz s
      else if sz = 0 then Some (NULL, segregate_mm_free ptr s)
      else
        let asize = ALIGN sz; avasize = (ucast (BLK_AVAL_SIZE (mem s) ptr) :: size_t)
        in if asize > avasize
           then do {
             (np, s) \<leftarrow> segregate_mm_malloc asize s;
             m \<leftarrow> (if np = NULL then None
                   else memcpy (mem s) np ptr (uint (BLK_AVAL_SIZE (mem s) ptr)));
             Some (np, segregate_mm_free ptr (s\<lparr>mem := m\<rparr>))
           }
           else if asize < avasize \<and> avasize - asize \<ge> BLK_MIN_SIZE
           then
             let m = SET_BLK (mem s) ptr (asize + BLK_HDR_SIZE + BLK_FTR_SIZE) BLK_ALLOC;
                 m = SET_BLK m (NEXT_BLKP m ptr) (avasize - asize) BLK_FREE
             in Some (ptr, segregate_mm_free (NEXT_BLKP m ptr) (s\<lparr>mem := m\<rparr>))
           else Some (ptr, s))"

end
