(* ===== verification/Segregate_Index.thy ===== *)
theory Segregate_Index
  imports Segregate Blocks
begin

text \<open>
  \<open>flt_index\<close>, the bit trick that finds the slot of a size, computes the ceiling of the binary
  logarithm, less 3 and cut to 0 - 10: it is monotone, and slot 0 holds the sizes up to 8.
\<close>

section \<open>The binary search for the highest bit\<close>

text \<open>The loop on integers.\<close>

fun flog :: "nat list \<Rightarrow> int \<Rightarrow> int \<Rightarrow> int" where
  "flog [] v r = r"
| "flog (S # steps) v r = (if 2 ^ S \<le> v then flog steps (v div 2 ^ S) (r + int S) else flog steps v r)"

fun halves :: "nat \<Rightarrow> nat list" where
  "halves 0 = []"
| "halves (Suc k) = 2 ^ k # halves k"

lemma le_div_int: "0 < q \<Longrightarrow> k \<le> v div q \<longleftrightarrow> k * q \<le> (v::int)"
proof
  assume q: "0 < q" and "k \<le> v div q"
  then have "k * q \<le> v div q * q" by (simp add: mult_right_mono)
  also have "\<dots> \<le> v" using q minus_mod_eq_div_mult[of v q] pos_mod_sign[OF q, of v] by linarith
  finally show "k * q \<le> v" .
next
  assume q: "0 < q" and "k * q \<le> v"
  then have "k * q div q \<le> v div q" by (intro zdiv_mono1)
  then show "k \<le> v div q" using q by simp
qed

lemma div_less_int: "0 < q \<Longrightarrow> v div q < k \<longleftrightarrow> (v::int) < k * q"
  using le_div_int[of q k v] by linarith

lemma flog_bounds:
  assumes "1 \<le> v" "v < 2 ^ (2 ^ k)"
  shows "\<exists>l. flog (halves k) v r = r + int l \<and> 2 ^ l \<le> v \<and> v < 2 ^ Suc l"
  using assms
proof (induction k arbitrary: v r)
  case 0
  then show ?case by (intro exI[of _ 0]) simp
next
  case (Suc k)
  let ?S = "2 ^ k :: nat"
  show ?case
  proof (cases "2 ^ ?S \<le> v")
    case True
    have sq: "(2::int) ^ (2 ^ Suc k) = 2 ^ ?S * 2 ^ ?S" by (simp add: mult_2 power_add)
    have "0 < v div 2 ^ ?S" by (subst pos_imp_zdiv_pos_iff) (use True in simp_all)
    then have "1 \<le> v div 2 ^ ?S" by simp
    moreover have "v div 2 ^ ?S < 2 ^ ?S" using Suc.prems(2) unfolding sq by (subst div_less_int) simp_all
    ultimately obtain l where l: "flog (halves k) (v div 2 ^ ?S) (r + int ?S) = r + int ?S + int l"
      "2 ^ l \<le> v div 2 ^ ?S" "v div 2 ^ ?S < 2 ^ Suc l"
      using Suc.IH by blast
    have "2 ^ (?S + l) \<le> v" "v < 2 ^ Suc (?S + l)"
      using l(2,3) by (simp_all add: power_add le_div_int div_less_int algebra_simps)
    then show ?thesis using True l(1) by (intro exI[of _ "?S + l"]) auto
  next
    case False
    then have "v < 2 ^ ?S" by simp
    from Suc.IH[OF Suc.prems(1) this, of r] show ?thesis using False by fastforce
  qed
qed

section \<open>The loop on words\<close>

lemma uint_drop: "uint (drop_bit S (v::'a::len word)) = uint v div 2 ^ S"
  by (simp only: unsigned_drop_bit_eq take_bit_uint drop_bit_eq_div[where ?'a = int])

lemma high_bit_zero:
  fixes v :: "'a::len word"
  assumes v: "uint v < 2 ^ m" and n: "m \<le> n"
  shows "\<not> bit v n"
proof
  have p: "(2::int) ^ m \<le> 2 ^ n" using n by (rule power_increasing) simp
  have t: "take_bit n (uint v) = uint v"
    by (rule take_bit_int_eq_self[OF _ order_less_le_trans[OF v p]]) simp
  assume bv: "bit v n"
  then have "bit (uint v) n" by (simp add: bit_uint_iff bit_imp_le_length)
  then have "bit (take_bit n (uint v)) n" by (simp only: t)
  then show False by (simp add: bit_take_bit_iff)
qed

lemma and_high_bits:
  fixes v b :: "'a::len word"
  assumes b: "\<And>n. n < LENGTH('a) \<Longrightarrow> bit b n \<longleftrightarrow> S \<le> n \<and> n < 2 * S"
    and v: "uint v < 2 ^ (2 * S)"
  shows "v AND b \<noteq> 0 \<longleftrightarrow> 2 ^ S \<le> uint v"
proof -
  have hi: "\<not> bit v n" if "2 * S \<le> n" for n using high_bit_zero[OF v that] .
  have "v AND b = push_bit S (drop_bit S v)"
  proof (rule bit_word_eqI)
    fix n assume n: "n < LENGTH('a)"
    show "bit (v AND b) n = bit (push_bit S (drop_bit S v)) n"
      using n hi[of n] b[OF n] by (auto simp: bit_simps not_less)
  qed
  also have "\<dots> = 0 \<longleftrightarrow> drop_bit S v = 0"
  proof
    assume z: "push_bit S (drop_bit S v) = 0"
    show "drop_bit S v = 0"
    proof (rule bit_word_eqI)
      fix n assume "n < LENGTH('a)"
      have "\<not> bit (push_bit S (drop_bit S v)) (S + n)" using z by simp
      then show "bit (drop_bit S v) n = bit 0 n"
        by (auto simp: bit_simps dest: bit_imp_le_length)
    qed
  qed simp
  also have "\<dots> \<longleftrightarrow> uint v div 2 ^ S = 0"
    unfolding word_uint_eq_iff uint_drop by simp
  also have "\<dots> \<longleftrightarrow> uint v div 2 ^ S < 1"
    using pos_imp_zdiv_nonneg_iff[of "2 ^ S" "uint v"] by auto
  also have "\<dots> \<longleftrightarrow> uint v < 2 ^ S" by (subst div_less_int) simp_all
  finally show ?thesis by auto
qed

lemma uint_or_pow:
  fixes r :: u32
  assumes "uint r mod 2 ^ Suc j = 0" "j < 32"
  shows "uint (r OR of_nat (2 ^ j)) = uint r + 2 ^ j"
proof -
  have "\<not> bit (uint r) j"
    using assms(1) by (simp add: bit_iff_odd) (metis dvd_eq_mod_eq_0 dvd_mult_imp_div mult.commute power_Suc dvdE even_mult_iff dvd_triv_left nonzero_mult_div_cancel_left zero_neq_numeral power_not_zero mult.assoc)
  moreover have "uint (of_nat (2 ^ j) :: u32) = push_bit j 1"
  proof -
    have "(of_nat (2 ^ j) :: u32) = push_bit j 1" by (simp add: push_bit_eq_mult)
    then have "uint (of_nat (2 ^ j) :: u32) = take_bit LENGTH(32) (push_bit j 1)"
      by (simp only: unsigned_push_bit_eq unsigned_1)
    then show ?thesis using assms(2) by (simp add: push_bit_eq_mult take_bit_int_eq_self)
  qed
  ultimately show ?thesis
    unfolding unsigned_or_eq by (simp only: set_bit_eq_or[symmetric] set_bit_eq) simp
qed

definition step_mask :: "nat \<Rightarrow> u32" where
  "step_mask S = push_bit S (mask S)"

lemma halves_5: "halves 5 = [16, 8, 4, 2, 1]"
  by (simp add: eval_nat_numeral)

lemma flt_steps_eq: "flt_steps = map (\<lambda>S. (step_mask S, S)) (halves 5)"
  by (simp add: flt_steps_def halves_5 step_mask_def mask_eq_exp_minus_1 push_bit_eq_mult)

lemma uint_signed_drop:
  assumes "uint (v :: c_int) < 2 ^ 31"
  shows "signed_drop_bit S v = drop_bit S v"
proof -
  have "\<not> bit v 31" by (rule high_bit_zero[OF assms order_refl])
  then show ?thesis
    by (intro bit_word_eqI) (auto simp: bit_simps min_def dest: bit_imp_le_length)
qed

lemma flt_loop_eq:
  assumes "k \<le> 5" "uint v < 2 ^ (2 ^ k)" "uint v < 2 ^ 31" "uint r mod 2 ^ k = 0" "uint r + 2 ^ k \<le> 2 ^ 32"
  shows "uint (flt_loop (map (\<lambda>S. (step_mask S, S)) (halves k)) v r) = flog (halves k) (uint v) (uint r)"
  using assms
proof (induction k arbitrary: v r)
  case 0
  then show ?case by simp
next
  case (Suc k)
  let ?S = "2 ^ k :: nat"
  have k5: "k < 5" "k < 32" using Suc.prems(1) by auto
  have S16: "?S \<le> 16" using power_increasing[of k 4 "2::nat"] k5 by simp
  have sq: "(2::int) ^ (2 ^ Suc k) = 2 ^ (2 * ?S)" by simp
  have bm: "bit (step_mask ?S) n \<longleftrightarrow> ?S \<le> n \<and> n < 2 * ?S" if "n < LENGTH(32)" for n
    using that S16 by (auto simp: step_mask_def bit_simps)
  have c: "v AND step_mask ?S \<noteq> 0 \<longleftrightarrow> 2 ^ ?S \<le> uint v"
    by (rule and_high_bits[OF bm]) (use Suc.prems(2) sq in simp_all)
  have rs: "uint r + 2 ^ k \<le> 2 ^ 32" 
  proof -
    have "(2::int) ^ Suc k = 2 ^ k + 2 ^ k" "(0::int) < 2 ^ k" by simp_all
    then show ?thesis using Suc.prems(5) by linarith
  qed
  have rk: "uint r mod 2 ^ k = 0" using Suc.prems(4) by (metis dvd_eq_mod_eq_0 dvd_trans le_imp_power_dvd lessI less_imp_le)
  show ?case
  proof (cases "2 ^ ?S \<le> uint v")
    case True
    have d: "signed_drop_bit ?S v = drop_bit ?S v" by (rule uint_signed_drop) (use Suc.prems(3) in simp)
    have r': "uint (r OR of_nat ?S) = uint r + int ?S"
      using uint_or_pow[OF Suc.prems(4) k5(2)] by simp
    have vd: "uint v div 2 ^ ?S < 2 ^ ?S"
      using Suc.prems(2) unfolding sq mult_2 power_add by (subst div_less_int) simp_all
    also have "(2::int) ^ ?S \<le> 2 ^ 16" using S16 by (rule power_increasing) simp
    finally have "uint v div 2 ^ ?S < 2 ^ 31" by simp
    then have "uint (flt_loop (map (\<lambda>S. (step_mask S, S)) (halves k)) (drop_bit ?S v) (r OR of_nat ?S))
        = flog (halves k) (uint v div 2 ^ ?S) (uint r + int ?S)"
      using Suc.IH[of "drop_bit ?S v" "r OR of_nat ?S"] Suc.prems(1,5) vd rk
      unfolding uint_drop r' by (simp add: mod_add_eq)
    then show ?thesis using True c d by simp
  next
    case False
    then have "uint (flt_loop (map (\<lambda>S. (step_mask S, S)) (halves k)) v r) = flog (halves k) (uint v) (uint r)"
      by (intro Suc.IH) (use Suc.prems rk rs in simp_all)
    then show ?thesis using c False by simp
  qed
qed

section \<open>The slot of a size\<close>

text \<open>For sizes above 0: the number of bits, less 3, rounded up unless the size is a power of 2.\<close>

lemma bit_top:
  assumes "2 ^ l \<le> uint (v::'a::len word)" "uint v < 2 ^ Suc l"
  shows "bit v l"
proof -
  have "1 \<le> uint v div 2 ^ l" "uint v div 2 ^ l < 2"
    using assms by (simp_all add: le_div_int div_less_int)
  then have "uint v div 2 ^ l = 1" by simp
  then have "bit (uint v) l" by (simp add: bit_iff_odd)
  then show ?thesis by (simp add: bit_uint_iff)
qed

lemma power_of_2_test:
  fixes v :: c_int
  assumes v: "2 ^ l \<le> uint v" "uint v < 2 ^ Suc l"
  shows "v AND (v - 1) \<noteq> 0 \<longleftrightarrow> uint v \<noteq> 2 ^ l"
proof -
  have l: "l < 32"
  proof (rule ccontr)
    assume "\<not> l < 32"
    then have "(2::int) ^ 32 \<le> 2 ^ l" by (intro power_increasing) simp_all
    then show False using v(1) uint_lt2p[of v] by simp
  qed
  have pos: "(1::int) \<le> 2 ^ l" by simp
  have m1: "uint (v - 1) = uint v - 1"
  proof -
    have "1 \<le> uint v" using pos v(1) by linarith
    then show ?thesis using uint_lt2p[of v] by (simp add: uint_word_ariths)
  qed
  show ?thesis
  proof (cases "uint v = 2 ^ l")
    case True
    have "v AND (v - 1) = 0"
    proof (rule bit_word_eqI)
      fix n
      have "\<not> (bit v n \<and> bit (v - 1) n)"
      proof
        assume b: "bit v n \<and> bit (v - 1) n"
        have "n \<noteq> l" using high_bit_zero[of "v - 1" l n] m1 True b by auto
        moreover have "n < Suc l" using high_bit_zero[OF v(2), of n] b by (meson not_le)
        ultimately have n: "n < l" by simp
        then have "uint v div 2 ^ n = 2 ^ (l - n)" using True by (simp add: power_diff)
        then have "even (uint v div 2 ^ n)" using n by simp
        moreover have "bit (uint v) n" using b bit_imp_le_length[of v n] by (simp add: bit_uint_iff)
        ultimately show False by (simp add: bit_iff_odd)
      qed
      then show "bit (v AND (v - 1)) n = bit 0 n" by (simp add: bit_and_iff)
    qed
    then show ?thesis using True by simp
  next
    case False
    then have "bit v l" "bit (v - 1) l" using v m1 by (auto intro!: bit_top)
    then have "bit (v AND (v - 1)) l" by (simp add: bit_and_iff)
    then have "v AND (v - 1) \<noteq> 0" by auto
    then show ?thesis using False by simp
  qed
qed

lemma flt_index_eq:
  assumes v: "1 \<le> uint v" "uint v < 2 ^ 31" and l: "2 ^ l \<le> uint v" "uint v < 2 ^ Suc l"
  shows "flt_index v = min 10 (l + of_bool (uint v \<noteq> 2 ^ l) - 3)"
proof -
  obtain l' where l': "flog (halves 5) (uint v) 0 = int l'" "2 ^ l' \<le> uint v" "uint v < 2 ^ Suc l'"
    using flog_bounds[of "uint v" 5 0] v uint_lt2p[of v] by auto
  have "(2::int) ^ l < 2 ^ Suc l'" "(2::int) ^ l' < 2 ^ Suc l" using l l' by (auto intro: le_less_trans)
  then have "l < Suc l'" "l' < Suc l" by (simp_all add: power_strict_increasing_iff del: power_Suc)
  then have ll: "l' = l" by simp
  have "(2::int) ^ l < 2 ^ 31" using l v(2) by (rule_tac le_less_trans)
  then have l31: "l < 31" by (rule power_less_imp_less_exp[of "2::int", rotated]) simp
  have "uint (flt_loop flt_steps v 0) = int l"
    using flt_loop_eq[of 5 v 0] v uint_lt2p[of v] l'(1) ll by (simp add: flt_steps_eq)
  then have r: "flt_loop flt_steps v 0 = word_of_int (int l)" by (metis word_of_int_uint)
  let ?b = "of_bool (uint v \<noteq> 2 ^ l)"
  have t: "(v AND (v - 1) \<noteq> 0) = (uint v \<noteq> 2 ^ l)" by (rule power_of_2_test[OF l])
  have ret: "word_of_int (int l) - 3 + of_bool (uint v \<noteq> 2 ^ l) = (word_of_int (int l - 3 + ?b) :: c_int)"
    by simp
  have s: "sint (word_of_int (int l - 3 + ?b) :: c_int) = int l - 3 + ?b"
    by (rule sint_word_of_int) (use l31 in auto)
  show ?thesis
    unfolding flt_index_def Let_def r t ret s by (auto simp: min_def)
qed

lemma top_bit_exists:
  assumes "1 \<le> v" "v < (2::int) ^ 31"
  shows "\<exists>l. 2 ^ l \<le> v \<and> v < 2 ^ Suc l"
  using flog_bounds[of v 5 0] assms by fastforce

text \<open>The slots hold 1 - 8, 9 - 16, 17 - 32, \<dots>, 2049 - 4096 and the rest.\<close>

lemma flt_index_slots:
  assumes v: "1 \<le> uint v" "uint v < 2 ^ 31"
  shows "flt_index v \<le> 10"
    "flt_index v \<le> i \<longleftrightarrow> 10 \<le> i \<or> uint v \<le> 2 ^ (i + 3)"
proof -
  obtain l where l: "2 ^ l \<le> uint v" "uint v < 2 ^ Suc l"
    using top_bit_exists[OF v] by blast
  let ?b = "of_bool (uint v \<noteq> 2 ^ l) :: nat"
  have e: "flt_index v = min 10 (l + ?b - 3)" by (rule flt_index_eq[OF v l])
  show "flt_index v \<le> 10" unfolding e by simp
  have "l + ?b - 3 \<le> i \<longleftrightarrow> uint v \<le> 2 ^ (i + 3)"
  proof (cases "uint v = 2 ^ l")
    case True
    have "l - 3 \<le> i \<longleftrightarrow> (2::int) ^ l \<le> 2 ^ (i + 3)" by (subst power_increasing_iff) auto
    then show ?thesis using True by simp
  next
    case False
    have "l + 1 - 3 \<le> i \<longleftrightarrow> (2::int) ^ Suc l \<le> 2 ^ (i + 3)" by (subst power_increasing_iff) auto
    also have "\<dots> \<longleftrightarrow> uint v \<le> 2 ^ (i + 3)"
    proof
      assume u: "uint v \<le> 2 ^ (i + 3)"
      have "2 ^ l < uint v" using False l(1) by simp
      then have "(2::int) ^ l < 2 ^ (i + 3)" using u by (rule less_le_trans)
      then have "l < i + 3" by (rule power_less_imp_less_exp[rotated]) simp
      then show "(2::int) ^ Suc l \<le> 2 ^ (i + 3)" by (intro power_increasing) simp_all
    qed (use l(2) in simp)
    finally show ?thesis using False by simp
  qed
  then show "flt_index v \<le> i \<longleftrightarrow> 10 \<le> i \<or> uint v \<le> 2 ^ (i + 3)"
    unfolding e by auto
qed

text \<open>The slot of a block of \<open>t\<close> bytes.\<close>

definition slot :: "int \<Rightarrow> nat" where
  "slot t = flt_index (word_of_int (t - 8))"

lemma slot_bounds:
  assumes "16 \<le> t" "t < 2 ^ 31"
  shows "slot t \<le> 10" "t = 16 \<Longrightarrow> slot t = 0" "24 \<le> t \<Longrightarrow> 1 \<le> slot t"
proof -
  have u: "uint (word_of_int (t - 8) :: c_int) = t - 8"
    unfolding uint_word_of_int using assms by simp
  note f = flt_index_slots[of "word_of_int (t - 8)", unfolded u, folded slot_def]
  show "slot t \<le> 10" "t = 16 \<Longrightarrow> slot t = 0" "24 \<le> t \<Longrightarrow> 1 \<le> slot t"
    using f(1) f(2)[of 0] assms by auto
qed

end
