(* ===== verification/Segregate_Lists.thy ===== *)
theory Segregate_Lists
  imports Segregate_Index
begin

text \<open>
  The doubly linked free lists. \<open>dll m h xs\<close>: from the list head \<open>h\<close> (a slot, or a block), the
  next pointers run through exactly the blocks \<open>xs\<close> and the previous pointers back.
  \<open>FREELIST_DEL_BLK\<close> removes one block, \<open>freelist_insert2\<close> adds one at the front; both write
  only link words (\<open>foot\<close>).
\<close>

section \<open>Link words\<close>

definition ptr_ok :: "addr \<Rightarrow> bool" where
  "ptr_ok p \<longleftrightarrow> 0 \<le> p \<and> p < 2 ^ 64"

lemma ptr_ok_NULL [simp]: "ptr_ok NULL"
  by (simp add: ptr_ok_def NULL_def)

lemma uint_ptr: "ptr_ok p \<Longrightarrow> uint (word_of_int p :: 64 word) = p"
  unfolding uint_word_of_int by (simp add: ptr_ok_def)

lemma NEXT_SET_NEXT [simp]:
  "ptr_ok v \<Longrightarrow> NEXT_FREE_BLKP (SET_NEXT_FREE_BLK m p v) p = v"
  "p + 8 \<le> q \<or> q + 8 \<le> p \<Longrightarrow> NEXT_FREE_BLKP (SET_NEXT_FREE_BLK m p v) q = NEXT_FREE_BLKP m q"
  by (auto simp: NEXT_FREE_BLKP_def SET_NEXT_FREE_BLK_def uint_ptr)

lemma PREV_SET_PREV [simp]:
  "ptr_ok v \<Longrightarrow> PREV_FREE_BLKP (SET_PREV_FREE_BLK m p v) p = v"
  "p + 8 \<le> q \<or> q + 8 \<le> p \<Longrightarrow> PREV_FREE_BLKP (SET_PREV_FREE_BLK m p v) q = PREV_FREE_BLKP m q"
  by (auto simp: PREV_FREE_BLKP_def SET_PREV_FREE_BLK_def uint_ptr)

lemma NEXT_SET_PREV [simp]:
  "p + 16 \<le> q \<or> q \<le> p \<Longrightarrow> NEXT_FREE_BLKP (SET_PREV_FREE_BLK m p v) q = NEXT_FREE_BLKP m q"
  by (auto simp: NEXT_FREE_BLKP_def SET_PREV_FREE_BLK_def)

lemma PREV_SET_NEXT [simp]:
  "p \<le> q \<or> q + 16 \<le> p \<Longrightarrow> PREV_FREE_BLKP (SET_NEXT_FREE_BLK m p v) q = PREV_FREE_BLKP m q"
  by (auto simp: PREV_FREE_BLKP_def SET_NEXT_FREE_BLK_def)

lemma same_on_SET_NEXT: "A \<inter> {p..<p + 8} = {} \<Longrightarrow> same_on A m (SET_NEXT_FREE_BLK m p v)"
  unfolding SET_NEXT_FREE_BLK_def by (rule same_on_store64)

lemma same_on_SET_PREV: "A \<inter> {p + 8..<p + 16} = {} \<Longrightarrow> same_on A m (SET_PREV_FREE_BLK m p v)"
  unfolding SET_PREV_FREE_BLK_def by (rule same_on_store64) (simp add: algebra_simps)

lemma NEXT_cong: "same_on {p..<p + 8} m m' \<Longrightarrow> NEXT_FREE_BLKP m' p = NEXT_FREE_BLKP m p"
  by (simp add: NEXT_FREE_BLKP_def same_on_load64[of "{p..<p + 8}"])

lemma PREV_cong: "same_on {p + 8..<p + 16} m m' \<Longrightarrow> PREV_FREE_BLKP m' p = PREV_FREE_BLKP m p"
  by (simp add: PREV_FREE_BLKP_def same_on_load64[of "{p + 8..<p + 16}"])

section \<open>Doubly linked lists\<close>

fun dll :: "memory \<Rightarrow> addr \<Rightarrow> addr list \<Rightarrow> bool" where
  "dll m h [] \<longleftrightarrow> NEXT_FREE_BLKP m h = NULL"
| "dll m h (x # xs) \<longleftrightarrow> NEXT_FREE_BLKP m h = x \<and> PREV_FREE_BLKP m x = h \<and> dll m x xs"

definition links :: "addr set \<Rightarrow> addr set" where
  "links X = (\<Union>x\<in>X. {x..<x + 16})"

definition foot :: "addr \<Rightarrow> addr list \<Rightarrow> addr set" where
  "foot h xs = {h..<h + 8} \<union> links (set xs)"

fun apart :: "addr \<Rightarrow> addr list \<Rightarrow> bool" where
  "apart h [] \<longleftrightarrow> True"
| "apart h (x # xs) \<longleftrightarrow> (\<forall>y\<in>set (x # xs). h + 8 \<le> y \<or> y + 16 \<le> h)
     \<and> (\<forall>y\<in>set xs. x + 16 \<le> y \<or> y + 16 \<le> x) \<and> apart x xs"

lemma links_simps [simp]: "links {} = {}" "links (insert x X) = {x..<x + 16} \<union> links X"
    "links (X \<union> Y) = links X \<union> links Y"
  by (auto simp: links_def)

lemma linksI: "x \<in> X \<Longrightarrow> x \<le> a \<Longrightarrow> a < x + 16 \<Longrightarrow> a \<in> links X"
  by (auto simp: links_def)

lemma links_mono: "X \<subseteq> Y \<Longrightarrow> links X \<subseteq> links Y"
  by (auto simp: links_def)

lemma dll_cong: "same_on (foot h xs) m m' \<Longrightarrow> dll m' h xs = dll m h xs"
proof (induction xs arbitrary: h)
  case Nil
  then show ?case by (simp add: foot_def NEXT_cong)
next
  case (Cons x xs)
  have "same_on {h..<h + 8} m m'" "same_on {x + 8..<x + 16} m m'" "same_on (foot x xs) m m'"
    by (rule same_on_subset[OF Cons.prems]; auto simp: foot_def)+
  then show ?case using Cons.IH NEXT_cong PREV_cong by simp
qed

lemma foot_disjoint:
  assumes "l + 8 \<le> h \<or> h + 8 \<le> l" "\<forall>y\<in>set xs. l + 8 \<le> y \<or> y + 16 \<le> l"
  shows "{l..<l + 8} \<subseteq> - foot h xs"
proof
  fix i assume i: "i \<in> {l..<l + 8}"
  have "\<not> (y \<le> i \<and> i < y + 16)" if "y \<in> set xs" for y using assms(2) that i by fastforce
  then show "i \<in> - foot h xs" using i assms(1) by (auto simp: foot_def links_def)
qed

text \<open>Unlinking a block.\<close>

definition unlink :: "memory \<Rightarrow> addr \<Rightarrow> memory" where
  "unlink m x =
     (let p = PREV_FREE_BLKP m x; n = NEXT_FREE_BLKP m x; m = SET_NEXT_FREE_BLK m p n
      in if n \<noteq> NULL then SET_PREV_FREE_BLK m n p else m)"

lemma FREELIST_DEL_BLK_eq: "FREELIST_DEL_BLK m x = (if BLK_SIZE m x > BLK_MIN_SIZE then unlink m x else m)"
  by (simp add: FREELIST_DEL_BLK_def unlink_def Let_def)

lemma apart_nodes: "apart h (as @ x # bs) \<Longrightarrow> y \<in> set as \<union> set bs \<Longrightarrow> x + 16 \<le> y \<or> y + 16 \<le> x"
  by (induction h as rule: apart.induct) auto

lemma unlink_dll:
  assumes "dll m h (as @ x # bs)" "apart h (as @ x # bs)" "ptr_ok h" "\<forall>y\<in>set (as @ x # bs). ptr_ok y \<and> y \<noteq> NULL"
  shows "dll (unlink m x) h (as @ bs)" "same_on (- foot h (as @ bs)) m (unlink m x)"
proof -
  have "dll (unlink m x) h (as @ bs) \<and> same_on (- foot h (as @ bs)) m (unlink m x)"
    using assms
  proof (induction as arbitrary: h)
    case Nil
    then have x: "PREV_FREE_BLKP m x = h" "h + 8 \<le> x \<or> x + 16 \<le> h" by auto
    show ?case
    proof (cases bs)
      case Nil
      then have "unlink m x = SET_NEXT_FREE_BLK m h NULL"
        using Nil.prems x by (simp add: unlink_def)
      then show ?thesis using Nil by (auto simp: foot_def intro!: same_on_SET_NEXT)
    next
      case (Cons y ys)
      have y: "y \<noteq> NULL" "ptr_ok y" "PREV_FREE_BLKP m y = x" "NEXT_FREE_BLKP m x = y" "dll m y ys"
        "h + 8 \<le> y \<or> y + 16 \<le> h" "apart y ys" "\<forall>z\<in>set ys. h + 8 \<le> z \<or> z + 16 \<le> h"
        "\<forall>z\<in>set ys. y + 16 \<le> z \<or> z + 16 \<le> y"
        using Nil.prems Cons by auto
      let ?m = "SET_PREV_FREE_BLK (SET_NEXT_FREE_BLK m h y) y h"
      have u: "unlink m x = ?m" using x y by (simp add: unlink_def)
      have out: "same_on (- ({h..<h + 8} \<union> {y + 8..<y + 16})) m ?m"
        by (rule same_on_trans[OF same_on_SET_NEXT same_on_SET_PREV]) auto
      have "same_on (foot y ys) m ?m"
        by (rule same_on_subset[OF out]) (use y(6,8,9) in \<open>fastforce simp: foot_def links_def\<close>)
      then have "dll ?m y ys" using y(5) dll_cong by blast
      moreover have "same_on (- foot h (y # ys)) m ?m"
        by (rule same_on_subset[OF out]) (auto simp: foot_def)
      ultimately show ?thesis using Cons u y Nil.prems(3) by auto
    qed
  next
    case (Cons a as)
    then have IH: "dll (unlink m x) a (as @ bs)" "same_on (- foot a (as @ bs)) m (unlink m x)"
      by auto
    have ap: "\<forall>y\<in>insert a (set (as @ bs)). h + 8 \<le> y \<or> y + 16 \<le> h" "\<forall>y\<in>set (as @ bs). a + 16 \<le> y \<or> y + 16 \<le> a"
      using Cons.prems(2) by auto
    have "same_on {h..<h + 8} m (unlink m x)"
      by (rule same_on_subset[OF IH(2) foot_disjoint]) (use ap(1) in auto)
    moreover have "a + 8 + 8 \<le> y \<or> y + 16 \<le> a + 8" if "y \<in> set (as @ bs)" for y
    proof -
      have "a + 16 \<le> y \<or> y + 16 \<le> a" using ap(2) that by blast
      then show ?thesis by linarith
    qed
    then have "same_on {a + 8..<a + 8 + 8} m (unlink m x)"
      by (intro same_on_subset[OF IH(2) foot_disjoint]) auto
    then have "same_on {a + 8..<a + 16} m (unlink m x)" by (simp add: add.commute[of 16])
    ultimately have st: "NEXT_FREE_BLKP (unlink m x) h = NEXT_FREE_BLKP m h"
      "PREV_FREE_BLKP (unlink m x) a = PREV_FREE_BLKP m a"
      by (blast intro: NEXT_cong PREV_cong)+
    then have "dll (unlink m x) h ((a # as) @ bs)"
      using IH(1) Cons.prems(1) st by simp
    moreover have "same_on (- foot h ((a # as) @ bs)) m (unlink m x)"
      by (rule same_on_subset[OF IH(2)]) (auto simp: foot_def)
    ultimately show ?case by simp
  qed
  then show "dll (unlink m x) h (as @ bs)" "same_on (- foot h (as @ bs)) m (unlink m x)" by auto
qed

text \<open>Linking a block at the front.\<close>

definition link_front :: "memory \<Rightarrow> addr \<Rightarrow> addr \<Rightarrow> memory" where
  "link_front m h x =
     (let n = NEXT_FREE_BLKP m h; m = SET_NEXT_FREE_BLK m x n; m = SET_PREV_FREE_BLK m x h;
          m = SET_NEXT_FREE_BLK m h x
      in if n \<noteq> NULL then SET_PREV_FREE_BLK m n x else m)"

lemma link_front_dll:
  assumes d: "dll m h xs" and ap: "apart h (x # xs)" and ok: "ptr_ok h" "ptr_ok x" "\<forall>y\<in>set xs. ptr_ok y \<and> y \<noteq> NULL"
  shows "dll (link_front m h x) h (x # xs)" "same_on (- foot h (x # xs)) m (link_front m h x)"
proof -
  let ?n = "NEXT_FREE_BLKP m h"
  let ?m = "SET_NEXT_FREE_BLK (SET_PREV_FREE_BLK (SET_NEXT_FREE_BLK m x ?n) x h) h x"
  have hx: "h + 8 \<le> x \<or> x + 16 \<le> h" using ap by simp
  have out: "same_on (- ({h..<h + 8} \<union> {x..<x + 16})) m ?m"
    by (intro same_on_trans[OF same_on_SET_NEXT same_on_trans[OF same_on_SET_PREV same_on_SET_NEXT]]) auto
  have "dll (link_front m h x) h (x # xs) \<and> same_on (- foot h (x # xs)) m (link_front m h x)"
  proof (cases xs)
    case Nil
    then have "link_front m h x = ?m" using d by (simp add: link_front_def)
    moreover have "same_on (- foot h [x]) m ?m" by (rule same_on_subset[OF out]) (auto simp: foot_def)
    ultimately show ?thesis using d Nil ok hx by auto
  next
    case (Cons y ys)
    have y: "?n = y" "y \<noteq> NULL" "ptr_ok y" "dll m y ys" "h + 8 \<le> y \<or> y + 16 \<le> h" "x + 16 \<le> y \<or> y + 16 \<le> x"
      "\<forall>z\<in>set ys. h + 8 \<le> z \<or> z + 16 \<le> h" "\<forall>z\<in>set ys. x + 16 \<le> z \<or> z + 16 \<le> x"
      "\<forall>z\<in>set ys. y + 16 \<le> z \<or> z + 16 \<le> y"
      using d ap ok(3) Cons by auto
    let ?m' = "SET_PREV_FREE_BLK ?m y x"
    have l: "link_front m h x = ?m'" using y by (simp add: link_front_def)
    have out': "same_on (- ({h..<h + 8} \<union> {x..<x + 16} \<union> {y + 8..<y + 16})) m ?m'"
      by (rule same_on_trans[OF same_on_subset[OF out] same_on_SET_PREV]) auto
    have "same_on (foot y ys) m ?m'"
      by (rule same_on_subset[OF out']) (use y in \<open>fastforce simp: foot_def links_def\<close>)
    then have "dll ?m' y ys" using y(4) dll_cong by blast
    moreover have "same_on (- foot h (x # xs)) m ?m'"
      by (rule same_on_subset[OF out']) (auto simp: foot_def Cons)
    ultimately show ?thesis using Cons l y ok hx by auto
  qed
  then show "dll (link_front m h x) h (x # xs)" "same_on (- foot h (x # xs)) m (link_front m h x)" by auto
qed

section \<open>The table of free lists\<close>

text \<open>
  \<open>F\<close> is a set of blocks (address, size) big enough for both links; \<open>fl i\<close> lists those of slot
  \<open>i\<close>. Slot 0 is not part of it: the code only ever writes it for such blocks.
\<close>

type_synonym freelists = "nat \<Rightarrow> addr list"

definition block_set :: "addr \<Rightarrow> (addr \<times> int) set \<Rightarrow> bool" where
  "block_set ft F \<longleftrightarrow> 0 \<le> ft \<and> ft < 2 ^ 63
     \<and> (\<forall>(q, t)\<in>F. ft + 88 \<le> q \<and> 24 \<le> t \<and> t < 2 ^ 31 \<and> q < 2 ^ 63)
     \<and> (\<forall>(q, t)\<in>F. \<forall>(r, u)\<in>F. (q, t) = (r, u) \<or> q + t \<le> r \<or> r + u \<le> q)"

definition lists_ok :: "memory \<Rightarrow> addr \<Rightarrow> freelists \<Rightarrow> (addr \<times> int) set \<Rightarrow> bool" where
  "lists_ok m ft fl F \<longleftrightarrow> (\<forall>i\<in>{1..10}. dll m (ft + 8 * int i) (fl i) \<and> distinct (fl i)
     \<and> set (fl i) = {q. \<exists>t. (q, t) \<in> F \<and> slot t = i})"

definition table :: "addr \<Rightarrow> addr set" where
  "table ft = {ft..<ft + 88}"

lemma block_setD:
  assumes "block_set ft F" "(q, t) \<in> F"
  shows "ft + 88 \<le> q" "24 \<le> t" "ptr_ok q" "q \<noteq> NULL" "1 \<le> slot t" "slot t \<le> 10"
    "(r, u) \<in> F \<Longrightarrow> q \<noteq> r \<Longrightarrow> q + 16 \<le> r \<or> r + 16 \<le> q"
    "(q, u) \<in> F \<Longrightarrow> u = t"
proof -
  have b: "0 \<le> ft" "ft + 88 \<le> q" "24 \<le> t" "t < 2 ^ 31" "q < 2 ^ 63"
    using assms by (auto simp: block_set_def)
  have sep: "(r, u) \<in> F \<Longrightarrow> (q, t) = (r, u) \<or> q + t \<le> r \<or> r + u \<le> q" for r u
    using assms unfolding block_set_def by blast
  have big: "(r, u) \<in> F \<Longrightarrow> 24 \<le> u" for r u using assms(1) by (auto simp: block_set_def)
  show "ft + 88 \<le> q" "24 \<le> t" by (rule b)+
  show "ptr_ok q" "q \<noteq> NULL" using b by (auto simp: ptr_ok_def NULL_def)
  show "1 \<le> slot t" "slot t \<le> 10" using slot_bounds[of t] b by auto
  show "(r, u) \<in> F \<Longrightarrow> q \<noteq> r \<Longrightarrow> q + 16 \<le> r \<or> r + 16 \<le> q" using sep[of r u] big[of r u] b(3) by auto
  show "(q, u) \<in> F \<Longrightarrow> u = t" using sep[of q u] big[of q u] b(3) by auto
qed

lemma block_set_subset: "block_set ft F \<Longrightarrow> G \<subseteq> F \<Longrightarrow> block_set ft G"
  unfolding block_set_def by blast

lemma apartI:
  assumes "distinct xs" "\<forall>x\<in>set xs. h + 8 \<le> x \<or> x + 16 \<le> h"
    "\<forall>x\<in>set xs. \<forall>y\<in>set xs. x \<noteq> y \<longrightarrow> x + 16 \<le> y \<or> y + 16 \<le> x"
  shows "apart h xs"
  using assms
proof (induction xs arbitrary: h)
  case (Cons x xs)
  have far: "x + 16 \<le> y \<or> y + 16 \<le> x" if "y \<in> set xs" for y
    using Cons.prems(1,3) that by auto
  then have "\<forall>y\<in>set xs. x + 8 \<le> y \<or> y + 16 \<le> x" by fastforce
  then have "apart x xs" using Cons by auto
  then show ?case using Cons.prems(2) far by simp
qed simp

lemma slot_addr: "i \<in> {1..10} \<Longrightarrow> ft \<le> ft + 8 * int i \<and> ft + 8 * int i + 8 \<le> ft + 88"
  by auto

lemma lists_node: "lists_ok m ft fl F \<Longrightarrow> i \<in> {1..10} \<Longrightarrow> x \<in> set (fl i) \<Longrightarrow> \<exists>t. (x, t) \<in> F \<and> slot t = i"
  by (auto simp: lists_ok_def)

lemma lists_apart:
  assumes F: "block_set ft F" and i: "i \<in> {1..10}" and d: "distinct xs" and xs: "\<And>x. x \<in> set xs \<Longrightarrow> \<exists>t. (x, t) \<in> F"
  shows "apart (ft + 8 * int i) xs" "ptr_ok (ft + 8 * int i)" "\<forall>x\<in>set xs. ptr_ok x \<and> x \<noteq> NULL"
proof -
  have x: "ft + 88 \<le> x \<and> ptr_ok x \<and> x \<noteq> NULL" if "x \<in> set xs" for x
    using xs[OF that] block_setD(1,3,4)[OF F] by blast
  show "\<forall>x\<in>set xs. ptr_ok x \<and> x \<noteq> NULL" using x by blast
  have "x + 16 \<le> y \<or> y + 16 \<le> x" if "x \<in> set xs" "y \<in> set xs" "x \<noteq> y" for x y
    using xs[OF that(1)] xs[OF that(2)] block_setD(7)[OF F] that(3) by blast
  moreover have "\<forall>x\<in>set xs. ft + 8 * int i + 8 \<le> x" using x i by fastforce
  ultimately show "apart (ft + 8 * int i) xs" by (intro apartI[OF d]) blast+
  show "ptr_ok (ft + 8 * int i)" using F i by (auto simp: block_set_def ptr_ok_def)
qed

lemma foot_other:
  assumes F: "block_set ft F" and i: "i \<in> {1..10}" "j \<in> {1..10}" "i \<noteq> j"
    and xs: "\<And>x. x \<in> set xs \<Longrightarrow> \<exists>t. (x, t) \<in> F \<and> slot t = i"
    and ys: "\<And>x. x \<in> set ys \<Longrightarrow> \<exists>t. (x, t) \<in> F \<and> slot t = j"
  shows "foot (ft + 8 * int i) xs \<subseteq> - foot (ft + 8 * int j) ys"
proof -
  let ?h = "ft + 8 * int i" and ?k = "ft + 8 * int j"
  have hk: "?h + 8 \<le> ?k \<or> ?k + 8 \<le> ?h" using i(3) by (cases "i < j") auto
  have lo: "x \<in> set xs \<Longrightarrow> ft + 88 \<le> x" "x \<in> set ys \<Longrightarrow> ft + 88 \<le> x" for x
    using xs ys block_setD(1)[OF F] by blast+
  have sep: "x + 16 \<le> y \<or> y + 16 \<le> x" if xy: "x \<in> set xs" "y \<in> set ys" for x y
  proof -
    obtain t u where t: "(x, t) \<in> F" "slot t = i" "(y, u) \<in> F" "slot u = j"
      using xs[OF xy(1)] ys[OF xy(2)] by blast
    then have "x \<noteq> y" using block_setD(8)[OF F t(1), of u] i(3) by auto
    then show ?thesis using block_setD(7)[OF F t(1,3)] by blast
  qed
  show ?thesis
  proof (rule subsetI, rule ComplI)
    fix a assume a: "a \<in> foot ?h xs" "a \<in> foot ?k ys"
    from a(1) consider "?h \<le> a" "a < ?h + 8" | x where "x \<in> set xs" "x \<le> a" "a < x + 16"
      by (auto simp: foot_def links_def)
    then show False
    proof cases
      case 1
      then have "\<not> (?k \<le> a \<and> a < ?k + 8)" using hk by linarith
      then obtain y where "y \<in> set ys" "y \<le> a" using a(2) by (auto simp: foot_def links_def)
      then show False using lo(2)[of y] 1 slot_addr[OF i(1), of ft] by linarith
    next
      case 2
      then have "\<not> a < ?k + 8" using lo(1)[OF 2(1)] slot_addr[OF i(2), of ft] by linarith
      then obtain y where "y \<in> set ys" "y \<le> a" "a < y + 16" using a(2) by (auto simp: foot_def links_def)
      then show False using sep[OF 2(1)] 2 by fastforce
    qed
  qed
qed

lemma foot_in: "i \<in> {1..10} \<Longrightarrow> set xs \<subseteq> X \<Longrightarrow> foot (ft + 8 * int i) xs \<subseteq> table ft \<union> links X"
  using links_mono[of "set xs" X] by (fastforce simp: foot_def table_def)

lemma lists_cong:
  assumes l: "lists_ok m ft fl F" and s: "same_on ({ft + 8..<ft + 88} \<union> links (fst ` F)) m m'"
  shows "lists_ok m' ft fl F"
  unfolding lists_ok_def
proof
  fix i :: nat assume i: "i \<in> {1..10}"
  have ok: "dll m (ft + 8 * int i) (fl i)" "distinct (fl i)" "set (fl i) = {q. \<exists>t. (q, t) \<in> F \<and> slot t = i}"
    using l i by (auto simp: lists_ok_def)
  have "set (fl i) \<subseteq> fst ` F" using ok(3) by force
  from links_mono[OF this] have "foot (ft + 8 * int i) (fl i) \<subseteq> {ft + 8..<ft + 88} \<union> links (fst ` F)"
    using i by (fastforce simp: foot_def)
  from dll_cong[OF same_on_subset[OF s this]] ok
  show "dll m' (ft + 8 * int i) (fl i) \<and> distinct (fl i) \<and> set (fl i) = {q. \<exists>t. (q, t) \<in> F \<and> slot t = i}"
    by simp
qed

lemma lists_del:
  assumes F: "block_set ft F" and l: "lists_ok m ft fl F" and x: "(x, t) \<in> F"
  defines "G \<equiv> F - {(x, t)}"
  shows "lists_ok (unlink m x) ft (fl(slot t := remove1 x (fl (slot t)))) G"
    "same_on (- (table ft \<union> links (fst ` G))) m (unlink m x)"
proof -
  let ?i = "slot t" and ?m = "unlink m x"
  have i: "?i \<in> {1..10}" using block_setD(5,6)[OF F x] by simp
  have ok: "dll m (ft + 8 * int j) (fl j)" "distinct (fl j)" "set (fl j) = {q. \<exists>t. (q, t) \<in> F \<and> slot t = j}"
    if "j \<in> {1..10}" for j using l that by (auto simp: lists_ok_def)
  have "x \<in> set (fl ?i)" using ok(3)[OF i] x by auto
  then obtain as bs where ab: "fl ?i = as @ x # bs" "x \<notin> set as" by (meson split_list_first)
  then have rem: "remove1 x (fl ?i) = as @ bs" by (simp add: remove1_append)
  have nodes: "\<exists>t. (y, t) \<in> F \<and> slot t = ?i" if "y \<in> set (as @ x # bs)" for y
    using ok(3)[OF i] that unfolding ab(1) by auto
  then have inF: "\<exists>t. (y, t) \<in> F" if "y \<in> set (as @ x # bs)" for y using that by blast
  have ds: "distinct (as @ x # bs)" using ok(2)[OF i] ab(1) by simp
  note ap = lists_apart[OF F i ds inF]
  have u: "dll ?m (ft + 8 * int ?i) (as @ bs)" "same_on (- foot (ft + 8 * int ?i) (as @ bs)) m ?m"
    using unlink_dll[OF _ ap] ok(1)[OF i] unfolding ab(1) by auto
  have uniq: "(q, v) \<in> G \<longleftrightarrow> (q, v) \<in> F \<and> q \<noteq> x" for q v
    using block_setD(8)[OF F x, of v] x by (auto simp: G_def)
  have nb: "set (as @ bs) = {q. \<exists>v. (q, v) \<in> G \<and> slot v = ?i}"
    unfolding uniq using ok(3)[OF i] ds unfolding ab(1) by auto
  have "set (as @ bs) \<subseteq> fst ` G" unfolding nb by force
  from foot_in[OF i this, of ft] show "same_on (- (table ft \<union> links (fst ` G))) m ?m"
    by (intro same_on_subset[OF u(2)]) auto
  show "lists_ok ?m ft (fl(?i := remove1 x (fl ?i))) G"
    unfolding lists_ok_def
  proof
    fix j :: nat assume j: "j \<in> {1..10}"
    show "dll ?m (ft + 8 * int j) ((fl(?i := remove1 x (fl ?i))) j) \<and> distinct ((fl(?i := remove1 x (fl ?i))) j)
      \<and> set ((fl(?i := remove1 x (fl ?i))) j) = {q. \<exists>v. (q, v) \<in> G \<and> slot v = j}"
    proof (cases "j = ?i")
      case True
      then show ?thesis using u(1) ds nb rem by simp
    next
      case False
      have "foot (ft + 8 * int j) (fl j) \<subseteq> - foot (ft + 8 * int ?i) (as @ bs)"
        by (rule foot_other[OF F j i False]) (use lists_node[OF l j] nodes in auto)
      then have "dll ?m (ft + 8 * int j) (fl j)"
        using ok(1)[OF j] dll_cong[OF same_on_subset[OF u(2)]] by blast
      moreover have "set (fl j) = {q. \<exists>v. (q, v) \<in> G \<and> slot v = j}"
        unfolding ok(3)[OF j] uniq using block_setD(8)[OF F x] False by blast
      ultimately show ?thesis using False ok(2)[OF j] by simp
    qed
  qed
qed

lemma lists_ins:
  assumes F: "block_set ft (insert (x, t) F)" and l: "lists_ok m ft fl F" and x: "x \<notin> fst ` F"
  shows "lists_ok (link_front m (ft + 8 * int (slot t)) x) ft (fl(slot t := x # fl (slot t))) (insert (x, t) F)"
    "same_on (- (table ft \<union> links (fst ` insert (x, t) F))) m (link_front m (ft + 8 * int (slot t)) x)"
proof -
  let ?i = "slot t" and ?m = "link_front m (ft + 8 * int (slot t)) x" and ?G = "insert (x, t) F"
  have i: "?i \<in> {1..10}" using block_setD(5,6)[OF F, of x t] by simp
  have ok: "dll m (ft + 8 * int j) (fl j)" "distinct (fl j)" "set (fl j) = {q. \<exists>t. (q, t) \<in> F \<and> slot t = j}"
    if "j \<in> {1..10}" for j using l that by (auto simp: lists_ok_def)
  let ?xs = "x # fl ?i"
  have xn: "x \<notin> set (fl j)" if "j \<in> {1..10}" for j using ok(3)[OF that] x by force
  have nodes: "\<exists>t. (y, t) \<in> ?G \<and> slot t = ?i" if "y \<in> set ?xs" for y
    using ok(3)[OF i] that by auto
  then have inF: "\<exists>t. (y, t) \<in> ?G" if "y \<in> set ?xs" for y using that by blast
  have ds: "distinct ?xs" using ok(2)[OF i] xn[OF i] by simp
  note ap = lists_apart[OF F i ds inF]
  have u: "dll ?m (ft + 8 * int ?i) ?xs" "same_on (- foot (ft + 8 * int ?i) ?xs) m ?m"
    using link_front_dll[OF ok(1)[OF i] ap(1,2)] ap(3) by auto
  have nb: "set ?xs = {q. \<exists>v. (q, v) \<in> ?G \<and> slot v = ?i}" using ok(3)[OF i] by auto
  have "set ?xs \<subseteq> fst ` ?G" unfolding nb by force
  from foot_in[OF i this, of ft] show "same_on (- (table ft \<union> links (fst ` ?G))) m ?m"
    by (intro same_on_subset[OF u(2)]) auto
  show "lists_ok ?m ft (fl(?i := ?xs)) ?G"
    unfolding lists_ok_def
  proof
    fix j :: nat assume j: "j \<in> {1..10}"
    show "dll ?m (ft + 8 * int j) ((fl(?i := ?xs)) j) \<and> distinct ((fl(?i := ?xs)) j)
      \<and> set ((fl(?i := ?xs)) j) = {q. \<exists>v. (q, v) \<in> ?G \<and> slot v = j}"
    proof (cases "j = ?i")
      case True
      then show ?thesis using u(1) ds nb by simp
    next
      case False
      have "foot (ft + 8 * int j) (fl j) \<subseteq> - foot (ft + 8 * int ?i) ?xs"
        by (rule foot_other[OF F j i False]) (use lists_node[OF l j] nodes in blast)+
      then have "dll ?m (ft + 8 * int j) (fl j)"
        using ok(1)[OF j] dll_cong[OF same_on_subset[OF u(2)]] by blast
      moreover have "set (fl j) = {q. \<exists>v. (q, v) \<in> ?G \<and> slot v = j}"
        unfolding ok(3)[OF j] using False by auto
      ultimately show ?thesis using False ok(2)[OF j] by simp
    qed
  qed
qed

end
