(* ===== verification/Segregate_Heap.thy ===== *)
theory Segregate_Heap
  imports Segregate_Lists
begin

text \<open>
  The heap of the segregated allocator: the table of slots, a prologue, blocks of at least 16
  bytes and an epilogue word that is always written (\<open>sheap\<close>), with every free block of more
  than 16 bytes in the list of its slot. \<open>FREELIST_DEL_BLK\<close>, \<open>coalesce\<close> and
  \<open>freelist_insert\<close> keep this invariant and join free neighbours.
\<close>

section \<open>Blocks and link words\<close>

definition frees :: "addr \<Rightarrow> block list \<Rightarrow> (addr \<times> int) set" where
  "frees p bs = {(q, t). (q, t, False) \<in> set (lay p bs) \<and> 16 < t}"

definition big :: "block list \<Rightarrow> bool" where
  "big bs \<longleftrightarrow> (\<forall>(t, a)\<in>set bs. 16 \<le> t)"

lemma frees_simps [simp]:
  "frees p [] = {}"
  "frees p ((t, a) # bs) = (if a \<or> t \<le> 16 then frees (p + t) bs else insert (p, t) (frees (p + t) bs))"
  "frees p (xs @ ys) = frees p xs \<union> frees (p + total xs) ys"
  by (auto simp: frees_def)

lemma big_simps [simp]: "big []" "big ((t, a) # bs) \<longleftrightarrow> 16 \<le> t \<and> big bs" "big (xs @ ys) \<longleftrightarrow> big xs \<and> big ys"
  by (auto simp: big_def)

lemma lay_disjoint:
  "blks_ok bs \<Longrightarrow> (q, t, a) \<in> set (lay p bs) \<Longrightarrow> (r, u, b) \<in> set (lay p bs) \<Longrightarrow>
     (q, t, a) = (r, u, b) \<or> q + t \<le> r \<or> r + u \<le> q"
proof (induction p bs rule: lay.induct)
  case (2 p s c bs)
  have "p + s \<le> x" if "(x, y, z) \<in> set (lay (p + s) bs)" for x y z
    using lay_bounds[OF _ that] 2(2) by simp
  then show ?case using 2 by fastforce
qed simp

lemma lay_block:
  assumes "blks_ok bs" "(q, t, a) \<in> set (lay p bs)"
  shows "sz_ok t" "8 \<le> t" "p \<le> q" "q + t \<le> p + total bs"
proof -
  obtain xs ys where "bs = xs @ (t, a) # ys" using assms(2) by (rule lay_split)
  then show "sz_ok t" "8 \<le> t" using assms(1) by simp_all
  show "p \<le> q" "q + t \<le> p + total bs" using lay_bounds[OF assms] by auto
qed

lemma frees_block:
  assumes "blks_ok bs" "(q, t) \<in> frees p bs"
  shows "24 \<le> t" "(q, t, False) \<in> set (lay p bs)"
proof -
  have l: "(q, t, False) \<in> set (lay p bs)" "16 < t" using assms(2) by (auto simp: frees_def)
  then have "8 dvd t" using lay_block(1)[OF assms(1) l(1)] by (simp add: sz_ok_def)
  then show "24 \<le> t" using l(2) by presburger
  show "(q, t, False) \<in> set (lay p bs)" by (rule l)
qed

definition tags :: "addr \<Rightarrow> block list \<Rightarrow> addr set" where
  "tags p bs = (\<Union>(q, t, a)\<in>set (lay p bs). {q - 4..<q} \<union> {q + t - 8..<q + t - 4})"

lemma tags_Cons: "tags p ((t, a) # bs) = {p - 4..<p} \<union> {p + t - 8..<p + t - 4} \<union> tags (p + t) bs"
  by (simp add: tags_def)

lemma seg_tags: "same_on (tags p bs) m m' \<Longrightarrow> seg m p bs \<Longrightarrow> seg m' p bs"
proof (induction m p bs rule: seg.induct)
  case (2 m p s a bs)
  have "same_on {p - 4..<p} m m'" "same_on {p + s - 8..<p + s - 4} m m'" "same_on (tags (p + s) bs) m m'"
    by (rule same_on_subset[OF "2.prems"(1)]; force simp: tags_Cons)+
  then show ?case using 2 by (auto simp: blk_def hdr_at_cong ftr_at_cong)
qed simp

text \<open>The payloads of free blocks; the link words are in them.\<close>

definition slack :: "addr \<Rightarrow> block list \<Rightarrow> addr set" where
  "slack p bs = (\<Union>(q, t, a)\<in>{b \<in> set (lay p bs). \<not> snd (snd b)}. {q..<q + t - 8})"

lemma slackD: "x \<in> slack p bs \<Longrightarrow> \<exists>q t. (q, t, False) \<in> set (lay p bs) \<and> q \<le> x \<and> x < q + t - 8"
  unfolding slack_def by auto blast

lemma slackI: "(q, t, False) \<in> set (lay p bs) \<Longrightarrow> q \<le> x \<Longrightarrow> x < q + t - 8 \<Longrightarrow> x \<in> slack p bs"
  by (force simp: slack_def)

lemma slack_facts:
  assumes ok: "blks_ok bs"
  shows "slack p bs \<inter> tags p bs = {}" "(r, c) \<in> live p bs \<Longrightarrow> slack p bs \<inter> {r..<r + c} = {}"
    "slack p bs \<subseteq> {p..<p + total bs - 8}"
proof -
  show "slack p bs \<inter> tags p bs = {}"
  proof (rule ccontr)
    assume "slack p bs \<inter> tags p bs \<noteq> {}"
    then obtain x r u b where x: "x \<in> slack p bs" "(r, u, b) \<in> set (lay p bs)"
      "x \<in> {r - 4..<r} \<union> {r + u - 8..<r + u - 4}"
      unfolding tags_def by blast
    obtain q t where q: "(q, t, False) \<in> set (lay p bs)" "q \<le> x" "x < q + t - 8" using slackD[OF x(1)] by blast
    show False
      using lay_disjoint[OF ok q(1) x(2)] x(3) q(2,3) lay_block(2)[OF ok x(2)] by auto
  qed
  show "slack p bs \<inter> {r..<r + c} = {}" if r: "(r, c) \<in> live p bs"
  proof (rule ccontr)
    assume "slack p bs \<inter> {r..<r + c} \<noteq> {}"
    then obtain x where x: "x \<in> slack p bs" "r \<le> x" "x < r + c" by auto
    obtain q t where q: "(q, t, False) \<in> set (lay p bs)" "q \<le> x" "x < q + t - 8" using slackD[OF x(1)] by blast
    have "(r, c + 8, True) \<in> set (lay p bs)" using r by (auto simp: live_def)
    then show False using lay_disjoint[OF ok q(1)] x q by fastforce
  qed
  show "slack p bs \<subseteq> {p..<p + total bs - 8}"
    using slackD lay_block(3,4)[OF ok] by fastforce
qed

lemma links_slack: "blks_ok bs \<Longrightarrow> links (fst ` frees p bs) \<subseteq> slack p bs"
proof
  fix x assume ok: "blks_ok bs" and "x \<in> links (fst ` frees p bs)"
  then obtain q t where q: "(q, t) \<in> frees p bs" "q \<le> x" "x < q + 16" by (auto simp: links_def)
  show "x \<in> slack p bs" using slackI[OF frees_block(2)[OF ok q(1)] q(2)] frees_block(1)[OF ok q(1)] q(3) by simp
qed

lemma links_frees:
  assumes ok: "blks_ok bs"
  shows "links (fst ` frees p bs) \<subseteq> {p..<p + total bs - 8}"
  using links_slack[OF ok] slack_facts(3)[OF ok] by blast

section \<open>The heap\<close>

definition sheap :: "memory \<Rightarrow> addr \<Rightarrow> block list \<Rightarrow> bool" where
  "sheap m ft bs \<longleftrightarrow> seg m (ft + 96) (prologue # bs) \<and> hdr_at m (ft + 104 + total bs) 0 True
     \<and> big bs \<and> total bs < 2 ^ 31 \<and> 0 \<le> ft \<and> ft + 104 + total bs < 2 ^ 63"

lemma sheapD:
  assumes "sheap m ft bs"
  shows "seg m (ft + 104) bs" "blks_ok bs" "big bs" "0 \<le> ft" "blk m (ft + 96) 8 True" "0 \<le> total bs"
    "hdr_at m (ft + 104 + total bs) 0 True" "ft + 104 + total bs < 2 ^ 63" "total bs < 2 ^ 31"
proof -
  show s: "seg m (ft + 104) bs" using assms by (simp add: sheap_def prologue_def add.assoc)
  show "blks_ok bs" "0 \<le> total bs" using seg_blks_ok[OF s] seg_total_nonneg[OF s] by auto
qed (use assms in \<open>auto simp: sheap_def prologue_def\<close>)

lemma sheap_frees:
  assumes "sheap m ft bs" "F \<subseteq> frees (ft + 104) bs"
  shows "block_set ft F"
proof -
  note s = sheapD[OF assms(1)]
  have b: "ft + 104 \<le> q \<and> 24 \<le> t \<and> t < 2 ^ 31 \<and> q < 2 ^ 63 \<and> (q, t, False) \<in> set (lay (ft + 104) bs)"
    if "(q, t) \<in> F" for q t
  proof -
    have f: "(q, t) \<in> frees (ft + 104) bs" using that assms(2) by auto
    note fb = frees_block[OF s(2) f]
    show ?thesis using fb lay_block[OF s(2) fb(2)] s(8) by (auto simp: sz_ok_def)
  qed
  moreover have "(q, t) = (r, u) \<or> q + t \<le> r \<or> r + u \<le> q" if "(q, t) \<in> F" "(r, u) \<in> F" for q t r u
    using lay_disjoint[OF s(2), of q t False "ft + 104" r u False] b[OF that(1)] b[OF that(2)] by simp
  moreover have "ft < 2 ^ 63" using s(6,8) by linarith
  moreover have "ft + 88 \<le> q" if "(q, t) \<in> F" for q t using b[OF that] by linarith
  ultimately show ?thesis using s(4) unfolding block_set_def by blast
qed

text \<open>Writing slots and the payloads of free blocks.\<close>

lemma sheap_slack:
  assumes h: "sheap m ft bs" and o: "same_on (- (table ft \<union> slack (ft + 104) bs)) m m'"
  shows "sheap m' ft bs" "keeps m m' (live (ft + 104) bs)"
proof -
  note s = sheapD[OF h] and lf = slack_facts[OF sheapD(2)[OF h], where p = "ft + 104"]
  have lb: "ft + 104 \<le> r \<and> r + c \<le> ft + 104 + total bs" if "(r, c) \<in> live (ft + 104) bs" for r c
    using live_bounds[OF s(1) that] by auto
  have "a \<notin> table ft \<union> slack (ft + 104) bs" if "a \<in> tags (ft + 104) bs" for a
  proof -
    have "ft + 100 \<le> a"
      using that lay_block(2,3)[OF s(2)] unfolding tags_def by fastforce
    then show ?thesis using lf(1) that by (auto simp: table_def)
  qed
  then have "same_on (tags (ft + 104) bs) m m'" by (intro same_on_subset[OF o]) auto
  then have sg: "seg m' (ft + 104) bs" using s(1) seg_tags by blast
  have "same_on {ft + 92..<ft + 96} m m'" "same_on {ft + 96..<ft + 100} m m'"
      "same_on {ft + 104 + total bs - 4..<ft + 104 + total bs} m m'"
    by (rule same_on_subset[OF o]; use lf(3) s(6) in \<open>force simp: table_def\<close>)+
  then have "hdr_at m' (ft + 96) 8 True" "ftr_at m' (ft + 104) 8 True" "hdr_at m' (ft + 104 + total bs) 0 True"
    using s(5,7) hdr_at_cong[of "ft + 96" m m'] ftr_at_cong[of "ft + 104" m m']
      hdr_at_cong[of "ft + 104 + total bs" m m'] by (simp_all add: blk_def add.commute[of ft])
  then have "blk m' (ft + 96) 8 True" "hdr_at m' (ft + 104 + total bs) 0 True"
    by (simp_all add: blk_def add.assoc)
  then show "sheap m' ft bs"
    using sg s by (simp add: sheap_def prologue_def add.assoc)
  have "same_on {r..<r + c} m m'" if "(r, c) \<in> live (ft + 104) bs" for r c
    by (rule same_on_subset[OF o]) (use lf(2)[OF that] lb[OF that] in \<open>auto simp: table_def\<close>)
  then show "keeps m m' (live (ft + 104) bs)" by (auto simp: keeps_def)
qed

lemma sheap_links:
  assumes h: "sheap m ft bs" and o: "same_on (- (table ft \<union> links (fst ` frees (ft + 104) bs))) m m'"
  shows "sheap m' ft bs" "keeps m m' (live (ft + 104) bs)"
proof -
  have "same_on (- (table ft \<union> slack (ft + 104) bs)) m m'"
    by (rule same_on_subset[OF o]) (use links_slack[OF sheapD(2)[OF h]] in blast)
  from sheap_slack[OF h this] show "sheap m' ft bs" "keeps m m' (live (ft + 104) bs)" by auto
qed

text \<open>Replacing a run of blocks.\<close>

lemma sheap_replace:
  assumes h: "sheap m ft (xs @ mid @ ys)" and q: "q = ft + 104 + total xs"
    and o: "same_on (- {q - 4..<q + total mid - 4}) m m'"
    and t: "total mid' = total mid" "seg m' q mid'" "big mid'"
  shows "sheap m' ft (xs @ mid' @ ys)"
    "keeps m m' (live (ft + 104) xs \<union> live (q + total mid) ys)"
    "lists_ok m ft fl (frees (ft + 104) xs \<union> frees (q + total mid) ys) \<Longrightarrow>
     lists_ok m' ft fl (frees (ft + 104) xs \<union> frees (q + total mid) ys)"
proof -
  note s = sheapD[OF h]
  have sg: "seg m (ft + 96) ((prologue # xs) @ mid @ ys)" using h by (simp add: sheap_def)
  have q': "q = ft + 96 + total (prologue # xs)" using q by (simp add: prologue_def)
  have ss: "seg m (ft + 104) xs" "seg m q mid" "seg m (q + total mid) ys"
    using s(1) q by (simp_all add: algebra_simps)
  have nn: "0 \<le> total xs" "0 \<le> total mid" "0 \<le> total ys" using ss seg_total_nonneg by auto
  note r = seg_replace[OF sg o q' t(1,2)]
  have "same_on {ft + 104 + total (xs @ mid @ ys) - 4..<ft + 104 + total (xs @ mid @ ys)} m m'"
    by (rule same_on_subset[OF o]) (use q nn in auto)
  then have "hdr_at m' (ft + 104 + total (xs @ mid' @ ys)) 0 True"
    using s(7) t(1) by (simp add: hdr_at_cong)
  then show "sheap m' ft (xs @ mid' @ ys)"
    using r(1) s t by (simp add: sheap_def)
  have "live (ft + 96) (prologue # xs) = insert (ft + 96, 0) (live (ft + 104) xs)"
    by (simp add: prologue_def add.assoc)
  then show "keeps m m' (live (ft + 104) xs \<union> live (q + total mid) ys)"
    using r(2) by (auto intro: keeps_subset)
  have "links (fst ` frees (ft + 104) xs) \<subseteq> {ft + 104..<q - 8}" "links (fst ` frees (q + total mid) ys) \<subseteq> {q + total mid..}"
    using links_frees[OF seg_blks_ok[OF ss(1)], of "ft + 104"]
      links_frees[OF seg_blks_ok[OF ss(3)], of "q + total mid"] q by auto
  then have "{ft + 8..<ft + 88} \<union> links (fst ` (frees (ft + 104) xs \<union> frees (q + total mid) ys))
      \<subseteq> - {q - 4..<q + total mid - 4}"
    using nn q unfolding image_Un links_simps by fastforce
  from same_on_subset[OF o this]
  show "lists_ok m ft fl (frees (ft + 104) xs \<union> frees (q + total mid) ys) \<Longrightarrow>
     lists_ok m' ft fl (frees (ft + 104) xs \<union> frees (q + total mid) ys)"
    by (rule lists_cong[rotated])
qed

end
