(* ===== verification/Segregate_Free.thy ===== *)
theory Segregate_Free
  imports Segregate_Heap
begin

text \<open>
  \<open>coalesce\<close> and \<open>freelist_insert\<close> of the segregated allocator: free neighbours leave their
  lists, the joined block enters the list of its slot.
\<close>

definition adel :: "addr \<Rightarrow> int \<Rightarrow> freelists \<Rightarrow> freelists" where
  "adel x t fl = (if 16 < t then fl(slot t := remove1 x (fl (slot t))) else fl)"

definition ains :: "addr \<Rightarrow> int \<Rightarrow> freelists \<Rightarrow> freelists" where
  "ains x t fl = (if 16 < t then fl(slot t := x # fl (slot t)) else fl)"

definition drop_right :: "addr \<Rightarrow> block list \<Rightarrow> freelists \<Rightarrow> freelists" where
  "drop_right r ys fl = (case rgt ys of [] \<Rightarrow> fl | (u, _) # _ \<Rightarrow> adel r u fl)"

definition drop_left :: "addr \<Rightarrow> block list \<Rightarrow> freelists \<Rightarrow> freelists" where
  "drop_left q xs fl = (case lft xs of [] \<Rightarrow> fl | (u, _) # _ \<Rightarrow> adel (q - u) u fl)"

lemma BLK_SIZE_hdr: "hdr_at m p s a \<Longrightarrow> uint (BLK_SIZE m p) = s"
  unfolding BLK_eq by (rule RB_SIZE_hdr)

lemma SET_BLK_put:
  fixes v al :: "'a::len word"
  shows "uint v = s \<Longrightarrow> al = of_bool a \<Longrightarrow> sz_ok s \<Longrightarrow> 8 \<le> s \<Longrightarrow> SET_BLK m p v al = put m p s a"
  unfolding BLK_eq by (rule SET_RB_put)

lemma del_spec:
  assumes h: "sheap m ft bs" and F: "F \<subseteq> frees (ft + 104) bs" and l: "lists_ok m ft fl F"
    and x: "(x, u, False) \<in> set (lay (ft + 104) bs)" "16 < u \<Longrightarrow> (x, u) \<in> F"
  shows "lists_ok (FREELIST_DEL_BLK m x) ft (adel x u fl) (F - {(x, u)})"
    "sheap (FREELIST_DEL_BLK m x) ft bs" "keeps m (FREELIST_DEL_BLK m x) (live (ft + 104) bs)"
proof -
  note bf = sheap_frees[OF h F]
  obtain xs ys where s: "bs = xs @ (u, False) # ys" "x = ft + 104 + total xs" using x(1) by (rule lay_split)
  have b: "blk m x u False" using sheapD(1)[OF h] s by (simp add: algebra_simps)
  have sz: "BLK_SIZE m x > BLK_MIN_SIZE \<longleftrightarrow> 16 < u"
    using BLK_SIZE_hdr[OF blkD(1)[OF b]] by (simp add: word_less_def c_const)
  have g: "lists_ok (FREELIST_DEL_BLK m x) ft (adel x u fl) (F - {(x, u)})
    \<and> same_on (- (table ft \<union> links (fst ` (F - {(x, u)})))) m (FREELIST_DEL_BLK m x)"
  proof (cases "16 < u")
    case True
    then show ?thesis
      using lists_del[OF bf l x(2)[OF True]] by (simp add: FREELIST_DEL_BLK_eq sz adel_def)
  next
    case False
    have "(x, u) \<notin> F" using F False by (auto simp: frees_def)
    then show ?thesis using False l by (simp add: FREELIST_DEL_BLK_eq sz adel_def)
  qed
  then show "lists_ok (FREELIST_DEL_BLK m x) ft (adel x u fl) (F - {(x, u)})" by simp
  have "links (fst ` (F - {(x, u)})) \<subseteq> links (fst ` frees (ft + 104) bs)"
    by (rule links_mono) (use F in auto)
  then have "same_on (- (table ft \<union> links (fst ` frees (ft + 104) bs))) m (FREELIST_DEL_BLK m x)"
    using g by (blast intro: same_on_subset)
  from sheap_links[OF h this]
  show "sheap (FREELIST_DEL_BLK m x) ft bs" "keeps m (FREELIST_DEL_BLK m x) (live (ft + 104) bs)" by auto
qed

lemma frees_below: "blks_ok bs \<Longrightarrow> (x, u) \<in> frees p bs \<Longrightarrow> p \<le> x \<and> x + u \<le> p + total bs"
  using frees_block(2) lay_block(3,4) by blast

lemma blks_ok_dvd: "blks_ok bs \<Longrightarrow> 8 dvd total bs"
  by (induction bs rule: total.induct) (auto simp: sz_ok_def)

section \<open>coalesce\<close>

text \<open>The heap around the block that is freed: \<open>xs\<close> before it, \<open>ys\<close> after it.\<close>

definition around :: "memory \<Rightarrow> addr \<Rightarrow> addr \<Rightarrow> block list \<Rightarrow> int \<Rightarrow> bool \<Rightarrow> block list \<Rightarrow> bool" where
  "around m ft q xs t a ys \<longleftrightarrow> sheap m ft (xs @ (t, a) # ys) \<and> q = ft + 104 + total xs"

definition keep_left :: "block list \<Rightarrow> block list" where
  "keep_left xs = take (length xs - length (lft xs)) xs"

definition keep_right :: "block list \<Rightarrow> block list" where
  "keep_right ys = drop (length (rgt ys)) ys"

lemma keep_split: "xs = keep_left xs @ lft xs" "ys = rgt ys @ keep_right ys"
  using lft_split rgt_split by (simp_all add: keep_left_def keep_right_def)

lemma aroundD:
  assumes "around m ft q xs t a ys"
  shows "sheap m ft (xs @ (t, a) # ys)" "q = ft + 104 + total xs" "blk m q t a" "blks_ok xs" "blks_ok ys"
    "sz_ok t" "16 \<le> t" "seg m (q + t) ys" "big xs" "big ys" "seg m (ft + 96) (prologue # xs)"
    "hdr_at m (q + t + total ys) 0 True" "0 \<le> total xs" "0 \<le> total ys"
    "total xs = total (keep_left xs) + total (lft xs)" "total ys = total (rgt ys) + total (keep_right ys)"
    "0 \<le> total (lft xs)" "0 \<le> total (rgt ys)" "total (joined xs t ys) < 2 ^ 31"
    "total (joined xs t ys) = total (lft xs) + t + total (rgt ys)"
    "blks_ok (keep_left xs)" "blks_ok (keep_right ys)" "sz_ok (total (joined xs t ys))"
proof -
  show h: "sheap m ft (xs @ (t, a) # ys)" and q: "q = ft + 104 + total xs" using assms by (auto simp: around_def)
  note s = sheapD[OF h]
  show "blk m q t a" "seg m (q + t) ys" using s(1) q by (simp_all add: algebra_simps)
  show ok: "blks_ok xs" "blks_ok ys" "sz_ok t" "16 \<le> t" "big xs" "big ys" using s(2,3) by auto
  show "seg m (ft + 96) (prologue # xs)" using h by (simp add: sheap_def prologue_def)
  show "hdr_at m (q + t + total ys) 0 True" using s(7) q by (simp add: algebra_simps)
  show t: "total xs = total (keep_left xs) + total (lft xs)" "total ys = total (rgt ys) + total (keep_right ys)"
    using arg_cong[OF keep_split(1), of total xs] arg_cong[OF keep_split(2), of total ys] by simp_all
  show k: "blks_ok (keep_left xs)" "blks_ok (keep_right ys)"
    using ok keep_split(1)[of xs] keep_split(2)[of ys] by (metis blks_ok_simps(3))+
  have lr: "blks_ok (lft xs)" "blks_ok (rgt ys)"
    using ok keep_split(1)[of xs] keep_split(2)[of ys] by (metis blks_ok_simps(3))+
  show n: "0 \<le> total xs" "0 \<le> total ys" "0 \<le> total (lft xs)" "0 \<le> total (rgt ys)"
    using ok lr blks_ok_total by auto
  show j: "total (joined xs t ys) = total (lft xs) + t + total (rgt ys)" by (simp add: joined_total)
  show T: "total (joined xs t ys) < 2 ^ 31"
    using s(9) t j k blks_ok_total[of "keep_left xs"] blks_ok_total[of "keep_right ys"] by simp
  show "sz_ok (total (joined xs t ys))"
    using T n ok(3,4) blks_ok_dvd[OF lr(1)] blks_ok_dvd[OF lr(2)] unfolding j by (simp add: sz_ok_def)
qed

lemma around_frees:
  assumes ar: "around m ft q xs t a ys"
  defines "p \<equiv> q - total (lft xs)" and "T \<equiv> total (joined xs t ys)"
  shows "frees (ft + 104) xs = frees (ft + 104) (keep_left xs) \<union> frees p (lft xs)"
    "frees (q + t) ys = frees (q + t) (rgt ys) \<union> frees (p + T) (keep_right ys)"
    "frees (ft + 104) xs \<union> frees (q + t) ys \<subseteq> frees (ft + 104) (xs @ (t, a) # ys)"
    "frees (ft + 104) xs \<union> frees (p + T) (keep_right ys) \<subseteq> frees (ft + 104) (xs @ (t, a) # ys)"
proof -
  note d = aroundD[OF ar]
  show r: "frees (ft + 104) xs = frees (ft + 104) (keep_left xs) \<union> frees p (lft xs)"
    "frees (q + t) ys = frees (q + t) (rgt ys) \<union> frees (p + T) (keep_right ys)"
    using arg_cong[OF keep_split(1), of "frees (ft + 104)" xs] arg_cong[OF keep_split(2), of "frees (q + t)" ys]
      d(2,15,20) by (simp_all add: p_def T_def algebra_simps)
  show "frees (ft + 104) xs \<union> frees (q + t) ys \<subseteq> frees (ft + 104) (xs @ (t, a) # ys)"
    using d(2) by (auto simp: algebra_simps)
  then show "frees (ft + 104) xs \<union> frees (p + T) (keep_right ys) \<subseteq> frees (ft + 104) (xs @ (t, a) # ys)"
    using r(2) by auto
qed

lemma coalesce_right:
  assumes ar: "around m ft q xs t a ys" and l: "lists_ok m ft fl (frees (ft + 104) xs \<union> frees (q + t) ys)"
    and F1: "F1 = frees (ft + 104) xs \<union> frees (q - total (lft xs) + total (joined xs t ys)) (keep_right ys)"
    and m1: "m1 = (if NEXT_BLK_ALLOC m q = BLK_FREE then FREELIST_DEL_BLK m (NEXT_BLKP m q) else m)"
  shows "lists_ok m1 ft (drop_right (q + t) ys fl) F1 \<and> around m1 ft q xs t a ys
    \<and> keeps m m1 (live (ft + 104) (xs @ (t, a) # ys))
    \<and> uint (if NEXT_BLK_ALLOC m q = BLK_FREE then BLK_SIZE m q + NEXT_BLK_SIZE m1 q else BLK_SIZE m q)
        = t + total (rgt ys)"
proof (cases rule: rgt_cases[of ys])
  note d = aroundD[OF ar] and fr = around_frees[OF ar]
  have sq: "seg m q ((t, a) # ys)" using d(3,8) by simp
  {
    case 1
    have "NEXT_BLK_ALLOC m q \<noteq> BLK_FREE"
    proof (cases ys)
      case Nil
      then show ?thesis
        using NEXT_BLK_hdr(1)[OF blkD(1)[OF d(3)], of 0 True] d(12) by (simp add: c_const)
    next
      case (Cons y r)
      then obtain u where "ys = (u, True) # r" using 1(2) by (cases y) auto
      then show ?thesis
        using NEXT_BLK_hdr(1)[OF blkD(1)[OF d(3)], of u True] d(8) by (auto simp: c_const dest: blkD)
    qed
    then show ?thesis
      using 1 l ar fr BLK_SIZE_hdr[OF blkD(1)[OF d(3)]] unfolding F1 m1 by (simp add: drop_right_def)
  next
    case (2 u r)
    have b: "blk m (q + t) u False" "16 \<le> u" using d(8,10) unfolding 2(2) by auto
    note n = NEXT_BLK_hdr[OF blkD(1)[OF d(3)] blkD(1)[OF b(1)]]
    have nf: "NEXT_BLK_ALLOC m q = BLK_FREE" using n(1) by (simp add: c_const)
    have mm: "m1 = FREELIST_DEL_BLK m (q + t)"
      using nf NEXT_BLKP_hdr[OF blkD(1)[OF d(3)]] unfolding m1 by simp
    have x: "(q + t, u, False) \<in> set (lay (ft + 104) (xs @ (t, a) # ys))"
      unfolding 2(2) using d(2) by (simp add: algebra_simps)
    have xf: "16 < u \<Longrightarrow> (q + t, u) \<in> frees (ft + 104) xs \<union> frees (q + t) ys" unfolding fr(2) 2(1) by simp
    note del = del_spec[OF d(1) fr(3) l x xf, folded mm]
    have "(q + t, u) \<notin> frees (ft + 104) xs" using frees_below[OF d(4), of "q + t" u] d(2,7) b(2) by fastforce
    moreover have "(q + t, u) \<notin> frees (q - total (lft xs) + total (joined xs t ys)) (keep_right ys)"
      using frees_below[OF d(22), of "q + t" u] d(20) b(2) 2(1) by fastforce
    ultimately have F: "frees (ft + 104) xs \<union> frees (q + t) ys - {(q + t, u)} = F1"
      unfolding F1 fr(2) 2(1) using b(2) by auto
    have ar1: "around m1 ft q xs t a ys" using del(2) d(2) by (simp add: around_def)
    note d1 = aroundD[OF ar1]
    have "blk m1 (q + t) u False" using d1(8) unfolding 2(2) by simp
    then have "uint (NEXT_BLK_SIZE m1 q) = u" by (rule NEXT_BLK_hdr(2)[OF blkD(1)[OF d1(3)] blkD(1)])
    then have "uint (BLK_SIZE m q + NEXT_BLK_SIZE m1 q) = t + u"
      using BLK_SIZE_hdr[OF blkD(1)[OF d(3)]] d(7,17,19,20) b(2) 2(1) by (simp add: uint_word_ariths)
    then show ?thesis using del(1,3) F nf ar1 2(1) by (simp add: drop_right_def)
  }
qed

lemma coalesce_left:
  assumes ar: "around m ft q xs t a ys"
    and l: "lists_ok m ft fl (frees (ft + 104) xs \<union> frees (q - total (lft xs) + total (joined xs t ys)) (keep_right ys))"
    and F2: "F2 = frees (ft + 104) (keep_left xs) \<union> frees (q - total (lft xs) + total (joined xs t ys)) (keep_right ys)"
    and v: "uint (v :: c_int) = t + total (rgt ys)"
    and m2: "m2 = (if PREV_BLK_ALLOC m q = BLK_FREE then FREELIST_DEL_BLK m (PREV_BLKP m q) else m)"
  shows "lists_ok m2 ft (drop_left q xs fl) F2 \<and> around m2 ft q xs t a ys
    \<and> keeps m m2 (live (ft + 104) (xs @ (t, a) # ys))
    \<and> uint (if PREV_BLK_ALLOC m q = BLK_FREE then v + PREV_BLK_SIZE m2 q else v) = total (joined xs t ys)
    \<and> (if PREV_BLK_ALLOC m q = BLK_FREE then PREV_BLKP m2 q else q) = q - total (lft xs)"
proof (cases rule: lft_cases[of xs])
  note d = aroundD[OF ar] and fr = around_frees[OF ar]
  have pq: "q = ft + 96 + 8 + total xs" using d(2) by simp
  note pf = prev_ftr_seg[OF d(11) pq]
  {
    case 1
    then obtain u where "ftr_at m q u True" using pf by auto
    then have "PREV_BLK_ALLOC m q \<noteq> BLK_FREE" by (simp add: PREV_BLK_ftr c_const)
    moreover have "keep_left xs = xs" using keep_split(1)[of xs] 1(1) by simp
    ultimately show ?thesis
      using 1 l ar v d(20) unfolding F2 m2 by (simp add: drop_left_def)
  next
    case (2 u r)
    have f1: "ftr_at m q u False" using pf 2(1) by simp
    have nf: "PREV_BLK_ALLOC m q = BLK_FREE" using PREV_BLK_ftr(1)[OF f1] by (simp add: c_const)
    have u: "16 \<le> u" "q - total (lft xs) = q - u" using 2 d(9) by auto
    have mm: "m2 = FREELIST_DEL_BLK m (q - u)" using nf PREV_BLK_ftr(3)[OF f1] unfolding m2 by simp
    have x: "(q - u, u, False) \<in> set (lay (ft + 104) (xs @ (t, a) # ys))" using 2(2) d(2) by simp
    have xf: "16 < u \<Longrightarrow> (q - u, u) \<in> frees (ft + 104) xs \<union> frees (q - total (lft xs) + total (joined xs t ys)) (keep_right ys)"
      unfolding fr(1) 2(1) by simp
    note del = del_spec[OF d(1) fr(4) l x xf, folded mm]
    have "(q - u, u) \<notin> frees (ft + 104) (keep_left xs)"
      using frees_below[OF d(21), of "q - u" u] d(2,15) u(1) 2(1) by fastforce
    moreover have "(q - u, u) \<notin> frees (q - total (lft xs) + total (joined xs t ys)) (keep_right ys)"
      using frees_below[OF d(22), of "q - u" u] d(7,18,20) u 2(1) by fastforce
    ultimately have F: "frees (ft + 104) xs \<union> frees (q - total (lft xs) + total (joined xs t ys)) (keep_right ys)
        - {(q - u, u)} = F2"
      unfolding F2 fr(1) 2(1) using u(1) by auto
    have ar2: "around m2 ft q xs t a ys" using del(2) d(2) by (simp add: around_def)
    have f2: "ftr_at m2 q u False" using prev_ftr_seg[OF aroundD(11)[OF ar2] pq] 2(1) by simp
    have "uint (v + PREV_BLK_SIZE m2 q) = total (joined xs t ys)"
      unfolding uint_word_ariths v PREV_BLK_ftr(2)[OF f2] using d(7,18,19,20) 2(1) u(1) by simp
    then show ?thesis
      using del(1,3) F nf ar2 PREV_BLK_ftr(3)[OF f2] 2(1) by (simp add: drop_left_def)
  }
qed

lemma around_live:
  assumes ar: "around m ft q xs t a ys"
  shows "live (ft + 104) xs \<union> live (q + t) ys
    = live (ft + 104) (keep_left xs) \<union> live (q - total (lft xs) + total (joined xs t ys)) (keep_right ys)"
    "live (ft + 104) xs \<union> live (q + t) ys \<subseteq> live (ft + 104) (xs @ (t, a) # ys)"
proof -
  note d = aroundD[OF ar]
  have "live p (lft xs) = {}" "live p (rgt ys) = {}" for p
    by (cases rule: lft_cases[of xs]; cases rule: rgt_cases[of ys]; simp)+
  then show "live (ft + 104) xs \<union> live (q + t) ys
      = live (ft + 104) (keep_left xs) \<union> live (q - total (lft xs) + total (joined xs t ys)) (keep_right ys)"
    using arg_cong[OF keep_split(1), of "live (ft + 104)" xs] arg_cong[OF keep_split(2), of "live (q + t)" ys] d(20)
    by (simp add: algebra_simps)
  show "live (ft + 104) xs \<union> live (q + t) ys \<subseteq> live (ft + 104) (xs @ (t, a) # ys)"
    using d(2) by (auto simp: algebra_simps)
qed

lemma segregate_coalesce_spec:
  assumes ar: "around m ft q xs t a ys" and l: "lists_ok m ft fl (frees (ft + 104) xs \<union> frees (q + t) ys)"
  defines "p \<equiv> q - total (lft xs)" and "T \<equiv> total (joined xs t ys)"
  shows "\<exists>m'. segregate_coalesce q m = (p, m') \<and> sheap m' ft (merge_free xs t ys)
    \<and> lists_ok m' ft (drop_left q xs (drop_right (q + t) ys fl))
        (frees (ft + 104) (keep_left xs) \<union> frees (p + T) (keep_right ys))
    \<and> keeps m m' (live (ft + 104) xs \<union> live (q + t) ys)"
proof -
  let ?L = "live (ft + 104) (xs @ (t, a) # ys)"
  define m1 where "m1 = (if NEXT_BLK_ALLOC m q = BLK_FREE then FREELIST_DEL_BLK m (NEXT_BLKP m q) else m)"
  define v where "v = (if NEXT_BLK_ALLOC m q = BLK_FREE then BLK_SIZE m q + NEXT_BLK_SIZE m1 q else BLK_SIZE m q)"
  define m2 where "m2 = (if PREV_BLK_ALLOC m1 q = BLK_FREE then FREELIST_DEL_BLK m1 (PREV_BLKP m1 q) else m1)"
  define w where "w = (if PREV_BLK_ALLOC m1 q = BLK_FREE then v + PREV_BLK_SIZE m2 q else v)"
  have s1: "lists_ok m1 ft (drop_right (q + t) ys fl) (frees (ft + 104) xs \<union> frees (p + T) (keep_right ys))"
    "around m1 ft q xs t a ys" "keeps m m1 ?L" "uint v = t + total (rgt ys)"
    using coalesce_right[OF ar l refl m1_def] unfolding v_def p_def T_def by blast+
  have s2: "lists_ok m2 ft (drop_left q xs (drop_right (q + t) ys fl))
      (frees (ft + 104) (keep_left xs) \<union> frees (p + T) (keep_right ys))"
    "around m2 ft q xs t a ys" "keeps m1 m2 ?L" "uint w = T"
    "(if PREV_BLK_ALLOC m1 q = BLK_FREE then PREV_BLKP m2 q else q) = p"
    using coalesce_left[OF s1(2) s1(1)[unfolded p_def T_def] refl s1(4) m2_def]
    unfolding w_def p_def T_def by blast+
  note d = aroundD[OF s2(2)] and lv = around_live[OF s2(2), folded p_def T_def]
  have c: "segregate_coalesce q m = (p, SET_BLK m2 p w BLK_FREE)"
    using s2(5) by (auto simp: segregate_coalesce_def Let_def w_def m2_def v_def m1_def)
  have okT: "sz_ok T" "16 \<le> T" using d(7,17,18,20,23) unfolding T_def by simp_all
  have put: "SET_BLK m2 p w BLK_FREE = puts m2 p [(T, False)]"
    using SET_BLK_put[OF s2(4), of BLK_FREE False] okT by (simp add: c_const)
  let ?mid = "lft xs @ (t, a) # rgt ys"
  have tm: "total ?mid = T" using d(20) unfolding T_def by simp
  have "xs @ (t, a) # ys = keep_left xs @ ?mid @ keep_right ys"
    using keep_split(1)[of xs] keep_split(2)[of ys] by (metis append.assoc append_Cons)
  then have h2: "sheap m2 ft (keep_left xs @ ?mid @ keep_right ys)" using d(1) by metis
  have pp: "p = ft + 104 + total (keep_left xs)" using d(2,15) by (simp add: p_def)
  have okm: "blks_ok [(T, False)]" "big [(T, False)]" using okT by simp_all
  have o: "same_on (- {p - 4..<p + total ?mid - 4}) m2 (puts m2 p [(T, False)])"
    using same_on_puts[OF okm(1), of p m2] tm by simp
  have tT: "total [(T, False)] = total ?mid" using tm by simp
  note r = sheap_replace[OF h2 pp o tT seg_puts[OF okm(1)] okm(2), unfolded tm]
  have "keeps m m2 (live (ft + 104) xs \<union> live (q + t) ys)"
    by (rule keeps_subset[OF keeps_trans[OF s1(3) s2(3)] lv(2)])
  then have "keeps m (puts m2 p [(T, False)]) (live (ft + 104) xs \<union> live (q + t) ys)"
    using r(2) unfolding lv(1) by (rule keeps_trans)
  moreover have "merge_free xs t ys = keep_left xs @ [(T, False)] @ keep_right ys"
    by (simp add: merge_free_def keep_left_def keep_right_def T_def)
  ultimately show ?thesis
    using c put r(1) r(3)[OF s2(1)] by auto
qed

end
