(* ===== verification/Segregate_Alloc.thy ===== *)
theory Segregate_Alloc
  imports Segregate_Free
begin

text \<open>
  The operations of the segregated allocator on its invariant \<open>seg_inv\<close>: free, taking a block
  from a list, the search through the slots and malloc refine operations on the block list and
  the free lists.
\<close>

section \<open>The invariant\<close>

definition seg_inv :: "mstate \<Rightarrow> block list \<Rightarrow> freelists \<Rightarrow> bool" where
  "seg_inv s bs fl \<longleftrightarrow> mem_wf s \<and> freelist_table s = mem_start_brk s \<and> heap_listp s = mem_start_brk s + 96
     \<and> mem_brk s = mem_start_brk s + 104 + total bs \<and> sheap (mem s) (mem_start_brk s) bs
     \<and> lists_ok (mem s) (mem_start_brk s) fl (frees (mem_start_brk s + 104) bs)"

abbreviation sbase :: "mstate \<Rightarrow> addr" where
  "sbase s \<equiv> mem_start_brk s + 104"

lemma seg_invD:
  assumes "seg_inv s bs fl"
  shows "mem_wf s" "freelist_table s = mem_start_brk s" "mem_brk s = sbase s + total bs"
    "sheap (mem s) (mem_start_brk s) bs" "lists_ok (mem s) (mem_start_brk s) fl (frees (sbase s) bs)"
    "heap_listp s = mem_start_brk s + 96"
  using assms by (auto simp: seg_inv_def)

text \<open>A step that only changes the memory.\<close>

lemma seg_inv_mem:
  assumes "seg_inv s bs fl" "sheap m (mem_start_brk s) bs'" "lists_ok m (mem_start_brk s) fl' (frees (sbase s) bs')"
    "total bs' = total bs"
  shows "seg_inv (s\<lparr>mem := m\<rparr>) bs' fl'"
  using assms by (simp add: seg_inv_def mem_wf_def)

section \<open>freelist_insert\<close>

text \<open>The specification of \<open>freelist_insert\<close> on the free lists.\<close>

definition ainsert :: "addr \<Rightarrow> block list \<Rightarrow> int \<Rightarrow> block list \<Rightarrow> freelists \<Rightarrow> freelists" where
  "ainsert q xs t ys fl = ains (q - total (lft xs)) (total (joined xs t ys))
     (drop_left q xs (drop_right (q + t) ys fl))"

lemma total_merge: "total (merge_free xs t ys) = total xs + t + total ys"
  using arg_cong[OF joined_split[of xs t ys], of total] by (simp add: merge_free_def)

lemma merge_free_keep: "merge_free xs t ys = keep_left xs @ (total (joined xs t ys), False) # keep_right ys"
  by (simp add: merge_free_def keep_left_def keep_right_def)

lemma insert2_small:
  assumes h: "sheap m ft bs" and x: "(x, 16, False) \<in> set (lay (ft + 104) bs)"
    and l: "lists_ok m ft fl (frees (ft + 104) bs)"
    and m': "m' = SET_NEXT_FREE_BLK (SET_NEXT_FREE_BLK m x v) ft x"
  shows "sheap m' ft bs" "lists_ok m' ft fl (frees (ft + 104) bs)" "keeps m m' (live (ft + 104) bs)"
proof -
  note s = sheapD[OF h]
  have o: "same_on (- ({x..<x + 8} \<union> {ft..<ft + 8})) m m'"
    unfolding m' by (rule same_on_trans[OF same_on_SET_NEXT same_on_SET_NEXT]) auto
  have xs: "{x..<x + 8} \<subseteq> slack (ft + 104) bs" using slackI[OF x] by auto
  have "same_on (- (table ft \<union> slack (ft + 104) bs)) m m'"
    by (rule same_on_subset[OF o]) (use xs in \<open>auto simp: table_def\<close>)
  from sheap_slack[OF h this] show "sheap m' ft bs" "keeps m m' (live (ft + 104) bs)" by auto
  have lx: "a \<notin> {x..<x + 8}" if a: "a \<in> links (fst ` frees (ft + 104) bs)" for a
  proof -
    obtain q t where q: "(q, t) \<in> frees (ft + 104) bs" "q \<le> a" "a < q + 16" using a by (auto simp: links_def)
    note fb = frees_block[OF s(2) q(1)]
    show ?thesis using lay_disjoint[OF s(2) fb(2) x] fb(1) q(2,3) by auto
  qed
  have "links (fst ` frees (ft + 104) bs) \<subseteq> {ft + 104..}" using links_frees[OF s(2)] by fastforce
  then have "{ft + 8..<ft + 88} \<union> links (fst ` frees (ft + 104) bs) \<subseteq> - ({x..<x + 8} \<union> {ft..<ft + 8})"
    using lx lay_block(3)[OF s(2) x] by fastforce
  from lists_cong[OF l same_on_subset[OF o this]] show "lists_ok m' ft fl (frees (ft + 104) bs)" .
qed

lemma insert2_eq:
  assumes b: "hdr_at m x T False"
  shows "freelist_insert2 h x m = (if T = 16
    then SET_NEXT_FREE_BLK (SET_NEXT_FREE_BLK m x (NEXT_FREE_BLKP m h)) h x else link_front m h x)"
proof -
  have "BLK_SIZE m x = BLK_MIN_SIZE \<longleftrightarrow> T = 16"
    using BLK_SIZE_hdr[OF b] by (simp add: word_uint_eq_iff c_const)
  then show ?thesis by (simp add: freelist_insert2_def link_front_def Let_def)
qed

lemma flt_index_slot:
  assumes "hdr_at m p T False" "8 \<le> T"
  shows "flt_index (BLK_AVAL_SIZE m p) = slot T"
proof -
  have "BLK_AVAL_SIZE m p = word_of_int (T - 8)"
    using RB_AVL_SIZE_hdr[OF assms] unfolding BLK_eq by (metis word_of_int_uint)
  then show ?thesis by (simp add: slot_def)
qed

lemma freelist_insert_spec:
  assumes ar: "around (mem s) (freelist_table s) q xs t a ys"
    and l: "lists_ok (mem s) (freelist_table s) fl (frees (freelist_table s + 104) xs \<union> frees (q + t) ys)"
  shows "\<exists>m'. freelist_insert q s = s\<lparr>mem := m'\<rparr> \<and> sheap m' (freelist_table s) (merge_free xs t ys)
    \<and> lists_ok m' (freelist_table s) (ainsert q xs t ys fl) (frees (freelist_table s + 104) (merge_free xs t ys))
    \<and> keeps (mem s) m' (live (freelist_table s + 104) xs \<union> live (q + t) ys)
    \<and> (total (joined xs t ys) = 16 \<longrightarrow> NEXT_FREE_BLKP m' (freelist_table s) = q - total (lft xs))"
proof -
  let ?ft = "freelist_table s" and ?p = "q - total (lft xs)" and ?T = "total (joined xs t ys)"
  let ?B = "?ft + 104" and ?bs = "merge_free xs t ys" and ?F = "frees (freelist_table s + 104) (keep_left xs)
    \<union> frees (q - total (lft xs) + total (joined xs t ys)) (keep_right ys)"
  let ?fl = "drop_left q xs (drop_right (q + t) ys fl)"
  note d = aroundD[OF ar]
  obtain m where m: "segregate_coalesce q (mem s) = (?p, m)" "sheap m ?ft ?bs" "lists_ok m ?ft ?fl ?F"
    "keeps (mem s) m (live ?B xs \<union> live (q + t) ys)"
    using segregate_coalesce_spec[OF ar l] by blast
  have p: "?p = ?B + total (keep_left xs)" using d(2,15) by simp
  have T: "16 \<le> ?T" using d(7,17,18,20) by simp
  have lay: "(?p, ?T, False) \<in> set (lay ?B ?bs)" unfolding merge_free_keep p by simp
  have fb: "frees ?B ?bs = (if ?T = 16 then ?F else insert (?p, ?T) ?F)"
    unfolding merge_free_keep using T p by auto
  have lvb: "live ?B ?bs = live ?B xs \<union> live (q + t) ys"
    unfolding around_live(1)[OF ar] merge_free_keep using p by simp
  have hd: "hdr_at m ?p ?T False"
    using sheapD(1)[OF m(2)] p unfolding merge_free_keep by (auto dest: blkD)
  have T8: "8 \<le> ?T" using T by simp
  note ins = insert2_eq[OF hd]
  have fi: "freelist_insert q s = s\<lparr>mem := freelist_insert2 (?ft + 8 * int (slot ?T)) ?p m\<rparr>"
    using m(1) flt_index_slot[OF hd T8] by (simp add: freelist_insert_def freelist_slot_def Let_def)
  show ?thesis
  proof (cases "?T = 16")
    case True
    have s0: "slot ?T = 0" using slot_bounds(2)[of ?T] True by simp
    have l0: "lists_ok m ?ft ?fl (frees ?B ?bs)" using m(3) fb True by simp
    note sm = insert2_small[OF m(2) lay[unfolded True] l0 refl, of "NEXT_FREE_BLKP m ?ft"]
    have "ptr_ok ?p" using sheapD(4,8)[OF m(2)] lay_block(3,4)[OF sheapD(2)[OF m(2)] lay] T by (simp add: ptr_ok_def)
    then have "NEXT_FREE_BLKP (SET_NEXT_FREE_BLK m1 ?ft ?p) ?ft = ?p" for m1 by (rule NEXT_SET_NEXT)
    then show ?thesis
      unfolding fi s0 ins if_P[OF True] using sm m(4) True unfolding lvb ainsert_def ains_def
      by (auto intro: keeps_trans)
  next
    case False
    have bF: "block_set ?ft (insert (?p, ?T) ?F)" by (rule sheap_frees[OF m(2)]) (simp add: fb False)
    have pn: "?p \<notin> fst ` ?F"
    proof
      assume "?p \<in> fst ` ?F"
      then obtain u where u: "(?p, u) \<in> ?F" by force
      then have "u = ?T" using block_setD(8)[OF bF, of ?p ?T u] by simp
      then show False
        using u frees_below[OF d(21), of ?p ?T ?B] frees_below[OF d(22), of ?p ?T] p T by fastforce
    qed
    note li = lists_ins[OF bF m(3) pn]
    have "same_on (- (table ?ft \<union> links (fst ` frees ?B ?bs))) m (link_front m (?ft + 8 * int (slot ?T)) ?p)"
      using li(2) fb False by simp
    note sl = sheap_links[OF m(2) this]
    show ?thesis
      unfolding fi ins if_not_P[OF False] using li(1) sl fb False T m(4) unfolding lvb ainsert_def ains_def
      by (auto intro: keeps_trans)
  qed
qed

section \<open>free\<close>

definition afree_lists :: "addr \<Rightarrow> addr \<Rightarrow> block list \<Rightarrow> freelists \<Rightarrow> freelists" where
  "afree_lists base q bs fl =
     (case split_at base q bs of (xs, (t, _) # ys) \<Rightarrow> ainsert q xs t ys fl | _ \<Rightarrow> fl)"

lemma segregate_free_spec:
  assumes inv: "seg_inv s bs fl" and q: "(q, c) \<in> live (sbase s) bs"
  defines "s' \<equiv> segregate_mm_free q s"
  shows "seg_inv s' (afree (sbase s) q bs) (afree_lists (sbase s) q bs fl)"
    "keeps (mem s) (mem s') (live (sbase s) bs - {(q, c)})"
    "live (sbase s) (afree (sbase s) q bs) = live (sbase s) bs - {(q, c)}"
    "mem_brk s' = mem_brk s" "mem_start_brk s' = mem_start_brk s" "mem_max_addr s' = mem_max_addr s"
proof -
  note i = seg_invD[OF inv]
  obtain xs ys where x: "bs = xs @ (c + 8, True) # ys" "q = sbase s + total xs" using q by (rule live_split)
  let ?t = "c + 8"
  have ar: "around (mem s) (freelist_table s) q xs ?t True ys" using i(2,4) x by (simp add: around_def)
  note d = aroundD[OF ar]
  have l: "lists_ok (mem s) (freelist_table s) fl (frees (freelist_table s + 104) xs \<union> frees (q + ?t) ys)"
    using i(2,5) x by (simp add: algebra_simps)
  obtain m' where m': "freelist_insert q s = s\<lparr>mem := m'\<rparr>" "sheap m' (freelist_table s) (merge_free xs ?t ys)"
    "lists_ok m' (freelist_table s) (ainsert q xs ?t ys fl) (frees (freelist_table s + 104) (merge_free xs ?t ys))"
    "keeps (mem s) m' (live (freelist_table s + 104) xs \<union> live (q + ?t) ys)"
    using freelist_insert_spec[OF ar l] by blast
  have sp: "split_at (sbase s) q bs = (xs, (?t, True) # ys)" using split_at_append[OF d(4) x(2)] x(1) by simp
  have af: "afree (sbase s) q bs = merge_free xs ?t ys" "afree_lists (sbase s) q bs fl = ainsert q xs ?t ys fl"
    by (simp_all add: afree_def afree_lists_def sp)
  show "seg_inv s' (afree (sbase s) q bs) (afree_lists (sbase s) q bs fl)"
    unfolding s'_def segregate_mm_free_def m'(1) af
    by (rule seg_inv_mem[OF inv]) (use m' i(2) x(1) total_merge[of xs ?t ys] in simp_all)
  have sx: "seg (mem s) (sbase s) xs" using sheapD(1)[OF i(4)] x(1) by simp
  have out: "(q, c) \<notin> live (sbase s) xs \<union> live (q + ?t) ys"
    using live_bounds[OF sx, of q c] live_bounds[OF d(8), of q c] x(2) d(7) by auto
  have lv: "live (sbase s) bs - {(q, c)} = live (sbase s) xs \<union> live (q + ?t) ys"
    using out x by (auto simp: algebra_simps)
  show "keeps (mem s) (mem s') (live (sbase s) bs - {(q, c)})"
    unfolding s'_def segregate_mm_free_def m'(1) lv using m'(4) i(2) by simp
  show "live (sbase s) (afree (sbase s) q bs) = live (sbase s) bs - {(q, c)}"
    unfolding af lv using around_live(1)[OF ar] i(2) d(2,15) by (simp add: merge_free_keep algebra_simps)
  show "mem_brk s' = mem_brk s" "mem_start_brk s' = mem_start_brk s" "mem_max_addr s' = mem_max_addr s"
    by (simp_all add: s'_def segregate_mm_free_def m'(1))
qed

end
