(* ===== verification/Dump.thy ===== *)
theory Dump
  imports Implicit_Client Segregate_Alloc
begin

text \<open>
  The functions that print the heap and the free lists when \<open>DUMP_HEAP\<close> is defined. They change no
  state; the model yields the values they print, line by line. \<open>None\<close> is a loop that does not end.
  On a heap that keeps the invariant they show the abstract state.
\<close>

section \<open>dump\<close>

record dump_row =
  d_alloc :: bool
  d_size :: u32
  d_from :: addr
  d_to :: addr
  d_hdr :: u32
  d_ftr :: u32

definition print_blk :: "memory \<Rightarrow> addr \<Rightarrow> dump_row" where
  "print_blk m p = \<lparr>d_alloc = (RB_ALLOC m p \<noteq> 0), d_size = RB_SIZE m p, d_from = p, d_to = p + uint (RB_SIZE m p) - 1,
     d_hdr = GET m (RB_HDRP p), d_ftr = GET m (RB_FTRP m p)\<rparr>"

partial_function (option) dump_loop :: "memory \<Rightarrow> addr \<Rightarrow> dump_row list option" where
  "dump_loop m p =
     (if p \<noteq> NULL \<and> \<not> EB m p
      then do { rows \<leftarrow> dump_loop m (NEXT_BLKP m p); Some (print_blk m p # rows) }
      else Some [])"

definition dump :: "mstate \<Rightarrow> dump_row list option" where
  "dump s = dump_loop (mem s) (heap_listp s)"

text \<open>In \<^verbatim>\<open>segregate.c\<close> an epilogue must also be allocated.\<close>

definition segregate_EB :: "memory \<Rightarrow> addr \<Rightarrow> bool" where
  "segregate_EB m p \<longleftrightarrow> BLK_SIZE m p = 0 \<and> BLK_STATE m p \<noteq> 0"

partial_function (option) segregate_dump_loop :: "memory \<Rightarrow> addr \<Rightarrow> dump_row list option" where
  "segregate_dump_loop m p =
     (if p \<noteq> NULL \<and> \<not> segregate_EB m p
      then do {
        rows \<leftarrow> segregate_dump_loop m (NEXT_BLKP m p);
        Some (\<lparr>d_alloc = (BLK_STATE m p \<noteq> 0), d_size = BLK_SIZE m p, d_from = p, d_to = p + uint (BLK_SIZE m p) - 1,
          d_hdr = GET m (BLK_HDRP p), d_ftr = GET m (BLK_FTRP m p)\<rparr> # rows)
      }
      else Some [])"

definition segregate_dump :: "mstate \<Rightarrow> dump_row list option" where
  "segregate_dump s = segregate_dump_loop (mem s) (heap_listp s)"

section \<open>freelist_dump\<close>

text \<open>\<open>while (bp)\<close>: the blocks of one list with their available sizes.\<close>

partial_function (option) print_list :: "memory \<Rightarrow> addr \<Rightarrow> (addr \<times> u32) list option" where
  "print_list m bp =
     (if bp \<noteq> NULL
      then do { bs \<leftarrow> print_list m (NEXT_FREE_BLKP m bp); Some ((bp, BLK_AVAL_SIZE m bp) # bs) }
      else Some [])"

text \<open>The slots \<open>is\<close>; the slot \<open>index\<close> is marked, and empty ones are left out.\<close>

fun print_slots :: "mstate \<Rightarrow> nat \<Rightarrow> nat list \<Rightarrow> (bool \<times> nat \<times> (addr \<times> u32) list) list option" where
  "print_slots s index [] = Some []"
| "print_slots s index (i # is) =
     (let bp = NEXT_FREE_BLKP (mem s) (freelist_slot s i)
      in if bp = NULL then print_slots s index is
         else do {
           bs \<leftarrow> print_list (mem s) bp;
           rows \<leftarrow> print_slots s index is;
           Some ((i = index, i, bs) # rows)
         })"

definition freelist_dump :: "size_t \<Rightarrow> mstate \<Rightarrow> (bool \<times> nat \<times> (addr \<times> u32) list) list option" where
  "freelist_dump sz s = print_slots s (flt_index (ucast sz)) [0..<FLT_SLOT_NUM]"

declare dump_loop.simps [code] segregate_dump_loop.simps [code] print_list.simps [code]

section \<open>They show the abstract state\<close>

definition block_row :: "addr \<times> int \<times> bool \<Rightarrow> dump_row" where
  "block_row = (\<lambda>(q, t, a). \<lparr>d_alloc = a, d_size = word_of_int t, d_from = q, d_to = q + t - 1,
     d_hdr = hdr t a, d_ftr = hdr t a\<rparr>)"

lemma print_blk_row:
  assumes "blk m p t a"
  shows "print_blk m p = block_row (p, t, a)"
proof -
  note h = blkD[OF assms]
  have "RB_SIZE m p = word_of_int t" using RB_SIZE_hdr[OF h(1)] by (metis word_of_int_uint)
  moreover have "GET m (RB_HDRP p) = hdr t a" using h(1) by (simp add: macro_defs c_const hdr_at_def)
  moreover have "GET m (RB_FTRP m p) = hdr t a"
    using h(2) RB_FTRP_hdr[OF h(1,3)] by (simp add: GET_def ftr_at_def)
  ultimately show ?thesis
    using RB_ALLOC_hdr[OF h(1)] RB_SIZE_hdr[OF h(1)] by (simp add: print_blk_def block_row_def)
qed

lemma dump_loop_eq:
  assumes "seg m p bs" "hdr_at m (p + total bs) 0 e" "0 < p"
  shows "dump_loop m p = Some (map block_row (lay p bs))"
  using assms
proof (induction bs arbitrary: p)
  case Nil
  then show ?case by (subst dump_loop.simps) (auto simp: EB_hdr)
next
  case (Cons b bs)
  obtain t a where b: "b = (t, a)" by force
  then have blk: "blk m p t a" and r: "seg m (p + t) bs" "hdr_at m (p + t + total bs) 0 e"
    using Cons.prems by (auto simp: algebra_simps)
  have "0 < p + t" using Cons.prems(3) blkD(3)[OF blk] by simp
  from Cons.IH[OF r this] show ?case
    using Cons.prems(3) by (subst dump_loop.simps) (simp add: blk_fits[OF blk] print_blk_row[OF blk] b NULL_def)
qed

lemma dump_spec:
  assumes "imp_inv fit s bs"
  shows "dump s = Some (map block_row (lay (heap_listp s) (prologue # bs)))"
proof -
  have "heap_inv s bs" using assms by (simp add: imp_inv_def)
  note h = heap_invD[OF this]
  have e: "heap_listp s + total (prologue # bs) = mem_brk s" using h(5) by (simp add: prologue_def)
  have "0 < heap_listp s" using h(7) by simp
  then show ?thesis unfolding dump_def by (rule dump_loop_eq[OF h(3) h(4)[folded e]])
qed

lemma segregate_EB_hdr: "hdr_at m p t a \<Longrightarrow> segregate_EB m p \<longleftrightarrow> t = 0 \<and> a"
  using RB_SIZE_hdr[of m p t a] RB_ALLOC_hdr[of m p t a]
  by (auto simp: segregate_EB_def BLK_eq word_uint_eq_iff)

lemma segregate_dump_loop_eq:
  assumes "seg m p bs" "hdr_at m (p + total bs) 0 True" "0 < p"
  shows "segregate_dump_loop m p = Some (map block_row (lay p bs))"
  using assms
proof (induction bs arbitrary: p)
  case Nil
  then show ?case by (subst segregate_dump_loop.simps) (auto simp: segregate_EB_hdr)
next
  case (Cons b bs)
  obtain t a where b: "b = (t, a)" by force
  then have blk: "blk m p t a" and r: "seg m (p + t) bs" "hdr_at m (p + t + total bs) 0 True"
    using Cons.prems by (auto simp: algebra_simps)
  note h = blkD[OF blk]
  have "0 < p + t" using Cons.prems(3) h(3) by simp
  from Cons.IH[OF r this] show ?case
    using Cons.prems(3) segregate_EB_hdr[OF h(1)] h(3) print_blk_row[OF blk] NEXT_BLKP_hdr[OF h(1)]
    by (subst segregate_dump_loop.simps) (simp add: b NULL_def print_blk_def BLK_eq)
qed

lemma segregate_dump_spec:
  assumes "seg_inv s bs fl"
  shows "segregate_dump s = Some (map block_row (lay (heap_listp s) (prologue # bs)))"
proof -
  have l: "heap_listp s = mem_start_brk s + 96" "sheap (mem s) (mem_start_brk s) bs" using assms by (auto simp: seg_inv_def)
  have "hdr_at (mem s) (mem_start_brk s + 104 + total bs) 0 True" "seg (mem s) (heap_listp s) (prologue # bs)"
    using l by (simp_all add: sheap_def)
  moreover have "heap_listp s + total (prologue # bs) = mem_start_brk s + 104 + total bs"
    using l(1) by (simp add: prologue_def)
  moreover have "0 < heap_listp s" using l(1) sheapD(4)[OF l(2)] by simp
  ultimately show ?thesis unfolding segregate_dump_def by (metis segregate_dump_loop_eq)
qed

lemma print_list_eq:
  assumes "dll m h xs" "\<forall>x\<in>set xs. x \<noteq> NULL"
  shows "print_list m (NEXT_FREE_BLKP m h) = Some (map (\<lambda>q. (q, BLK_AVAL_SIZE m q)) xs)"
  using assms
proof (induction m h xs rule: dll.induct)
  case (1 m h)
  then show ?case by (subst print_list.simps) simp
next
  case (2 m h x xs)
  then show ?case by (subst print_list.simps) simp
qed

lemma print_slots_eq:
  assumes "\<forall>i\<in>set is. dll (mem s) (freelist_slot s i) (fl i) \<and> NULL \<notin> set (fl i)"
  shows "print_slots s k is =
    Some (map (\<lambda>i. (i = k, i, map (\<lambda>q. (q, BLK_AVAL_SIZE (mem s) q)) (fl i))) (filter (\<lambda>i. fl i \<noteq> []) is))"
  using assms
proof (induction "is")
  case (Cons i "is")
  have d: "dll (mem s) (freelist_slot s i) (fl i)" "\<forall>x\<in>set (fl i). x \<noteq> NULL" using Cons.prems by auto
  have "NEXT_FREE_BLKP (mem s) (freelist_slot s i) = NULL \<longleftrightarrow> fl i = []" using d by (cases "fl i") auto
  then show ?case using Cons print_list_eq[OF d] by (auto simp: Let_def)
qed simp

lemma freelist_dump_spec:
  assumes inv: "seg_inv s bs fl" and empty: "NEXT_FREE_BLKP (mem s) (freelist_table s) = NULL"
  shows "freelist_dump sz s = Some (map (\<lambda>i. (i = flt_index (ucast sz), i, map (\<lambda>q. (q, BLK_AVAL_SIZE (mem s) q)) (fl i)))
    (filter (\<lambda>i. fl i \<noteq> []) [1..<FLT_SLOT_NUM]))"
proof -
  note i = seg_invD[OF inv]
  note h = sheapD[OF i(4)]
  have l: "dll (mem s) (freelist_slot s j) (fl j)" "set (fl j) = {q. \<exists>t. (q, t) \<in> frees (sbase s) bs \<and> slot t = j}"
    if "j \<in> {1..10}" for j
    using i(2,5) that by (auto simp: lists_ok_def freelist_slot_def)
  have "NULL \<notin> set (fl j)" if j: "j \<in> {1..10}" for j
  proof
    assume "NULL \<in> set (fl j)"
    then obtain t where "(NULL, t) \<in> frees (sbase s) bs" using l(2)[OF j] by blast
    from lay_block(3)[OF h(2) frees_block(2)[OF h(2) this]] show False using h(4) by (simp add: NULL_def)
  qed
  then have "\<forall>j\<in>set [1..<FLT_SLOT_NUM]. dll (mem s) (freelist_slot s j) (fl j) \<and> NULL \<notin> set (fl j)"
    using l(1) by (auto simp: c_const)
  from print_slots_eq[OF this] have "print_slots s k [1..<FLT_SLOT_NUM] =
    Some (map (\<lambda>i. (i = k, i, map (\<lambda>q. (q, BLK_AVAL_SIZE (mem s) q)) (fl i))) (filter (\<lambda>i. fl i \<noteq> []) [1..<FLT_SLOT_NUM]))" for k .
  moreover have "[0..<FLT_SLOT_NUM] = 0 # [1..<FLT_SLOT_NUM]" by (simp add: c_const upt_rec)
  moreover have "freelist_slot s 0 = freelist_table s" by (simp add: freelist_slot_def)
  ultimately show ?thesis using empty by (simp only: freelist_dump_def print_slots.simps Let_def simp_thms if_True)
qed

end
