(* ===== verification/Implicit_Faults.thy ===== *)
theory Implicit_Faults
  imports Implicit_Client
begin

text \<open>
  What the code does on the requests for which the specification of the previous theories does
  not hold: the extension of the last block when the arena is full, a realloc that must move a
  block while the last block is free, the \<open>int\<close> that carries a size of \<open>2 ^ 32\<close>, and the next-fit
  pointer after a failed malloc.
\<close>

section \<open>Adjacent free blocks\<close>

lemma no_adj_cut:
  assumes "no_adj (xs @ (t, False) # ys)"
  shows "no_adj (xs @ cut t n @ ys)"
  using assms no_adj_append[of "[(t, False)]" ys] no_adj_append[of "[(t - n, False)]" ys]
  by (auto simp: cut_def no_adj_append no_adj_Cons_alloc)

lemma no_adj_amalloc:
  assumes na: "no_adj bs" and inv: "heap_inv s bs" and k: "0 \<le> k"
    and am: "amalloc fit lim (heap_listp s) cur k bs = Some (q, bs')"
  shows "no_adj bs'"
proof (cases "pick fit cur k (lay (heap_listp s) (prologue # bs))")
  case None
  then have "agrow lim (heap_listp s + 8) k bs = Some (q, bs')"
    using am by (simp add: amalloc_def)
  then have "bs' = (if tail_free bs then butlast bs else bs) @ [(k + 8, True)]"
    by (auto simp: agrow_def Let_def split: if_splits)
  moreover have "no_adj (butlast bs)"
    using na no_adj_append[of "butlast bs" "[last bs]"] by (cases "bs = []") auto
  ultimately show ?thesis using na by (auto simp: no_adj_append)
next
  case (Some r)
  then obtain r' t a where r: "pick fit cur k (lay (heap_listp s) (prologue # bs)) = Some (r', t, a)"
    by (cases r) auto
  obtain xs ys where x: "bs = xs @ (t, False) # ys" "split_at (heap_listp s + 8) r' bs = (xs, (t, False) # ys)"
    using pick_split[OF inv r k] by metis
  then show ?thesis
    using am r na no_adj_cut[of xs t ys "k + 8"] by (auto simp: amalloc_def)
qed

lemma no_adj_afree:
  assumes na: "no_adj bs" and inv: "heap_inv s bs" and q: "(q, c) \<in> live (heap_listp s + 8) bs"
  shows "no_adj (afree (heap_listp s + 8) q bs)"
proof -
  obtain xs ys where x: "bs = xs @ (c + 8, True) # ys" "q = heap_listp s + 8 + total xs"
    using q by (rule live_split)
  then have "block_in s bs q xs (c + 8) ys" using inv by (simp add: block_in_def)
  from block_inD(6)[OF this] show ?thesis
    using no_adj_merge[of xs "c + 8" ys "c + 8"] na x(1) by (simp add: afree_def)
qed

section \<open>When the heap cannot grow\<close>

lemma agrow_None:
  assumes "tail_free bs" "last bs = (t, False)" "k + 8 \<le> t"
  shows "agrow lim base k bs = None"
proof -
  have "total bs = total (butlast bs) + t"
    using assms(1,2) arg_cong[OF append_butlast_last_id[of bs], of total]
    by (auto simp: tail_free_def)
  then show ?thesis using assms(1,3) by (simp add: agrow_def Let_def)
qed

text \<open>The last block is extended although \<open>extend_heap\<close> has failed.\<close>

lemma realloc_overrun:
  assumes b: "block_in s bs q xs t []" and k: "uint sz + 15 < 2 ^ 31" "n = align8 (uint sz) + 8" "sz \<noteq> 0"
    and t: "16 \<le> t" "t < n" "mem_max_addr s < mem_brk s + (n - t)"
  shows "\<exists>e. implicit_mm_realloc fit q sz s
    = Some (q, set_curp fit q (s\<lparr>errno := e, mem := put (mem s) q n True\<rparr>))"
proof -
  note d = block_inD[OF b] and z = realloc_sizes[OF block_inD(4)[OF b] k(1,2)]
  note h = heap_invD[OF d(1)]
  let ?b = "ucast (RB_SIZE (mem s) q) :: size_t" and ?n = "ALIGN sz + RB_HDR_SIZE + RB_FTR_SIZE"
  let ?f = "ucast (NEXT_BLK_SIZE (mem s) q) :: size_t"
  have q: "4 < q" using d(5) by simp
  have brk: "mem_brk s = q + t" using h(5) d(2,3) by simp
  have nh: "hdr_at (mem s) (q + t) 0 False" using h(4) brk d(2) by simp
  note nb = NEXT_BLK_hdr[OF blkD(1)[OF d(4)] nh]
  have t32: "t + 0 < 2 ^ 32" using d(9) by (simp add: sz_ok_def)
  note ar = realloc_arith[OF uint_size_of[OF nb(2)] z(1,2) less_imp_le[OF t(2)] t32]
  have eb: "EB (mem s) (NEXT_BLKP (mem s) q)"
    using EB_hdr[OF nh] NEXT_BLKP_hdr[OF blkD(1)[OF d(4)]] by simp
  have f0: "?f = 0" using uint_size_of[OF nb(2)] by (simp add: word_uint_eq_iff)
  have arg: "(ucast (?n - ?b - ?f) :: c_int) = word_of_int (n - t)"
    unfolding f0 using ucast_diff[of ?n ?b] z(1,2) by simp
  have "sint (word_of_int (n - t) :: c_int) = n - t"
    by (rule sint_word_of_int) (use t z(5) d(10) in auto)
  from extend_heap_eq[OF h(1,4) this] t(3)
  obtain e where ext: "extend_heap (word_of_int (n - t)) s = (NULL, s\<lparr>errno := e\<rparr>)" by auto
  have okn: "sz_ok n" using z(3-5) by (simp add: sz_ok_def)
  have set: "SET_RB m q ?n BLK_ALLOC = put m q n True" for m
    by (rule SET_RB_put[OF z(2) _ okn z(3)]) (simp add: c_const)
  have fr: "NEXT_BLK_ALLOC (mem s) q = BLK_FREE" using nb(1) by (simp add: c_const)
  have nle: "\<not> ?n \<le> ?b + ?f" using ar(1) t(2) by simp
  have rl: "realloc_larger fit q sz ?n ?b s
      = Some (q, set_curp fit q (s\<lparr>errno := e, mem := put (mem s) q n True\<rparr>))"
    using fr nle eb arg ext set
    by (simp add: realloc_larger_def realloc_exit_def Let_def del: of_int_diff)
  then show ?thesis
    using realloc_guard[OF d(4) k t(1) q, of fit] t(2) by auto
qed

section \<open>Sizes that do not fit an \<open>int\<close>\<close>

lemma pick_too_big:
  assumes inv: "heap_inv s bs" and k: "2 ^ 31 \<le> k"
  shows "pick fit cur k (lay (heap_listp s) (prologue # bs)) = None"
proof (rule ccontr)
  assume "pick fit cur k (lay (heap_listp s) (prologue # bs)) \<noteq> None"
  then obtain q t a where p: "pick fit cur k (lay (heap_listp s) (prologue # bs)) = Some (q, t, a)" by auto
  then obtain xs ys where x: "k \<le> t - 8" "blk (mem s) q t False"
    using k by (auto elim: pick_split[OF inv])
  then show False using k blkD(4)[OF x(2)] by (simp add: sz_ok_def)
qed

lemma malloc_wraps:
  assumes inv: "imp_inv fit s bs" and tl: "\<not> tail_free bs" and room: "mem_brk s + 8 \<le> mem_max_addr s"
  shows "\<exists>s'. implicit_mm_malloc fit (2 ^ 32) s = Some (mem_brk s, s') \<and> imp_inv fit s' (bs @ [(8, True)])
    \<and> mem_brk s' = mem_brk s + 8"
proof -
  let ?n = "4294967296 :: size_t"
  have hinv: "heap_inv s bs" using inv by (simp add: imp_inv_def)
  note h = heap_invD[OF hinv]
  have al: "ALIGN ?n = ?n" by (simp add: ALIGN_def c_const)
  have find: "find_fit fit s ?n = Some (NULL, s)"
    using find_fit_eq[OF inv, of ?n] pick_too_big[OF hinv, of "uint ?n" fit "heap_curp s"] by simp
  obtain xs t a where x: "prologue # bs = xs @ [(t, a)]"
    by (metis append_butlast_last_id list.distinct(1) surj_pair)
  note tail = TAIL_BLK_eq[OF hinv x]
  have a: "a" using tl x by (cases bs rule: rev_cases) (auto simp: tail_free_def prologue_def)
  have ra: "RB_ALLOC (mem s) (TAIL_BLK s) \<noteq> BLK_FREE"
    using RB_ALLOC_hdr[OF blkD(1)[OF tail(2)]] tail(1) a by (simp add: c_const)
  let ?m0 = "store32 (mem s) (mem_brk s - 4) (hdr 0 True)"
  have ext: "extend_heap 8 s = (mem_brk s, s\<lparr>mem_brk := mem_brk s + 8, mem := ?m0\<rparr>)"
    using extend_heap_eq[OF h(1,4), of 8 8] room by simp
  have sp: "SET m p (PACK (?n + RB_HDR_SIZE + RB_FTR_SIZE) BLK_ALLOC) = store32 m p (hdr 8 True)" for m p
  proof -
    have "(ucast ((?n + RB_HDR_SIZE + RB_FTR_SIZE) OR BLK_ALLOC) :: u32) = hdr 8 True"
      by (simp add: c_const hdr_def)
    then show ?thesis by (simp only: SET_def PACK_def)
  qed
  have set: "SET_RB m p (?n + RB_HDR_SIZE + RB_FTR_SIZE) BLK_ALLOC = put m p 8 True" for m p
  proof -
    have "hdr_at (store32 m (p - 4) (hdr 8 True)) p 8 True" by (simp add: hdr_at_def sz_ok_def)
    from RB_FTRP_hdr[OF this] show ?thesis
      unfolding SET_RB_def Let_def sp by (simp add: RB_HDRP_def c_const put_def)
  qed
  have arg: "ucast (?n + RB_HDR_SIZE + RB_FTR_SIZE) = (8 :: c_int)" by (simp add: c_const)
  let ?s = "s\<lparr>mem_brk := mem_brk s + 8, mem := put ?m0 (mem_brk s) 8 True\<rparr>"
  have nn: "mem_brk s \<noteq> NULL" using mem_wf_ptr[OF h(1)] by simp
  have dm: "do_malloc fit ?n s = (mem_brk s, set_curp fit (mem_brk s) ?s)"
    unfolding do_malloc_def Let_def al arg ext prod.case set using ra nn by (simp add: al arg ext set)
  have q: "mem_brk s = heap_listp s + 8 + total bs" using h(5) by simp
  have "heap_inv ?s (bs @ [(8, True)])"
    using heap_inv_grow(2)[OF hinv _ q _ _ _ _ refl, of "[]" 8] room by (simp add: sz_ok_def)
  moreover have "(mem_brk s, 0) \<in> live (heap_listp s + 8) (bs @ [(8, True)])" using q by simp
  ultimately have "imp_inv fit (set_curp fit (mem_brk s) ?s) (bs @ [(8, True)])"
    using curp_ok_live[of "mem_brk s" 0 ?s] by (simp add: imp_inv_def)
  moreover have "implicit_mm_malloc fit (2 ^ 32) s = Some (mem_brk s, set_curp fit (mem_brk s) ?s)"
    using find dm by (simp add: implicit_mm_malloc_def al)
  ultimately show ?thesis by (intro exI[of _ "set_curp fit (mem_brk s) ?s"]) simp
qed

section \<open>The next-fit pointer after a failed malloc\<close>

text \<open>
  A failed malloc leaves \<open>heap_curp\<close> at NULL, so the next search starts behind a block at address 0.
  On most systems reading the word in front of that address faults. Where it can be read and is 0,
  the search passes through the heap for ever, because it waits to see its starting point again.
\<close>

lemma next_fit_loop_lost:
  assumes "next_fit_loop s n NULL p = Some r"
    and B: "seg (mem s) (heap_listp s) B" "hdr_at (mem s) (heap_listp s + total B) 0 e" "0 < heap_listp s"
    and "EB (mem s) NULL" "\<forall>x\<in>set (lay (heap_listp s) B). \<not> fits (uint n) x"
  shows "\<not> (p = NULL \<or> (\<exists>xs ys. B = xs @ ys \<and> p = heap_listp s + total xs))"
proof -
  have "s' = s \<longrightarrow> n' = n \<longrightarrow> old = NULL \<longrightarrow> \<not> (p = NULL \<or> (\<exists>xs ys. B = xs @ ys \<and> p = heap_listp s + total xs))"
    if "next_fit_loop s' n' old p = Some r" for s' n' old
    using that
  proof (rule next_fit_loop.raw_induct[rotated], goal_cases)
    case (1 loop s' n' old p r)
    show ?case
    proof (intro impI notI)
      assume e: "s' = s" "n' = n" "old = NULL"
        and p: "p = NULL \<or> (\<exists>xs ys. B = xs @ ys \<and> p = heap_listp s + total xs)"
      note IH = 1(1)[rule_format, OF _ e]
      note run = 1(2)[unfolded e]
      have hl: "heap_listp s \<noteq> NULL" using B(3) by (simp add: NULL_def)
      have home: "False" if "EB (mem s) p"
      proof -
        have "loop s n NULL (heap_listp s) = Some r" using run that hl by simp
        then show False using IH[of "heap_listp s" r] e by (metis append_Nil add.right_neutral total.simps(1))
      qed
      from p show False
      proof
        assume "p = NULL"
        then show False using home assms(5) by simp
      next
        assume "\<exists>xs ys. B = xs @ ys \<and> p = heap_listp s + total xs"
        then obtain xs ys where x: "B = xs @ ys" "p = heap_listp s + total xs" by blast
        show False
        proof (cases ys)
          case Nil
          then show False using home B(2) EB_hdr x by auto
        next
          case (Cons b zs)
          obtain t a where b: "b = (t, a)" by force
          have blk: "blk (mem s) p t a" using B(1) x Cons b by simp
          have nf: "\<not> fits (uint n) (p, t, a)" using assms(6) x Cons b by simp
          have "0 \<le> total xs" using B(1) x(1) seg_total_nonneg[of "mem s" "heap_listp s" xs] by simp
          then have nz: "p + t \<noteq> NULL" using x(2) B(3) blkD(3)[OF blk] by (simp add: NULL_def)
          have "loop s n NULL (p + t) = Some r"
            using run nz nf by (simp add: blk_fits[OF blk] Let_def)
          moreover have "B = (xs @ [(t, a)]) @ zs" "p + t = heap_listp s + total (xs @ [(t, a)])"
            using x Cons b by simp_all
          ultimately show False using IH[of "p + t" r] e by blast
        qed
      qed
    qed
  qed
  then show ?thesis using assms(1) by blast
qed

lemma option_none: "(\<And>r. x \<noteq> Some r) \<Longrightarrow> x = None" by (cases x) auto

lemma next_fit_lost:
  assumes inv: "imp_inv USE_NEXT_FIT s bs" and n: "n \<noteq> 0" "uint n + 15 < 2 ^ 31"
    and fail: "implicit_mm_malloc USE_NEXT_FIT n s = Some (NULL, s')"
    and nofit: "\<forall>(t, a)\<in>set bs. a \<or> t - 8 < align8 (uint n)" and zero: "load32 (mem s) (- 4) = 0"
  shows "heap_curp s' = NULL \<and> implicit_mm_malloc USE_NEXT_FIT n s' = None"
proof -
  let ?B = "prologue # bs"
  have hinv: "heap_inv s bs" using inv by (simp add: imp_inv_def)
  note h = heap_invD[OF hinv]
  have k: "align8 (uint n) + 8 < 2 ^ 31" using n(2) align8_facts[of "uint n"] by simp
  obtain e where s': "s' = set_curp USE_NEXT_FIT NULL (s\<lparr>errno := e\<rparr>)"
    using implicit_malloc_spec[OF inv n(1) refl k] fail by (auto split: option.splits)
  have z: "hdr_at (mem s) NULL 0 False" using zero by (simp add: hdr_at_def hdr_def NULL_def sz_ok_def)
  have eb: "EB (mem s') NULL" "NEXT_BLKP (mem s') (heap_curp s') = NULL"
    using EB_hdr[OF z] NEXT_BLKP_hdr[OF z] s' by (simp_all add: set_curp_def NULL_def)
  have m: "mem s' = mem s" "heap_listp s' = heap_listp s" "heap_curp s' = NULL" using s' by (simp_all add: set_curp_def)
  have ua: "uint (ALIGN n) = align8 (uint n)" using n(2) by (simp add: uint_ALIGN)
  have "\<not> fits (uint (ALIGN n)) x" if l: "x \<in> set (lay (heap_listp s) ?B)" for x
  proof -
    obtain q t a where x: "x = (q, t, a)" by (cases x)
    obtain xs ys where "?B = xs @ (t, a) # ys" using l unfolding x by (rule lay_split)
    then have "(t, a) \<in> set ?B" by simp
    then show ?thesis using nofit x ua by (auto simp: fits_def prologue_def)
  qed
  then have nofits: "\<forall>x\<in>set (lay (heap_listp s') ?B). \<not> fits (uint (ALIGN n)) x" using m(2) by simp
  have e: "heap_listp s + total ?B = mem_brk s" using h(5) by (simp add: prologue_def)
  have B: "seg (mem s') (heap_listp s') ?B" "hdr_at (mem s') (heap_listp s' + total ?B) 0 (bs = [])"
    "0 < heap_listp s'"
    unfolding m(1,2) using h(3) h(4)[folded e] h(7) by simp_all
  have "next_fit_loop s' (ALIGN n) NULL NULL \<noteq> Some r" for r
    using next_fit_loop_lost[OF _ B eb(1) nofits, of NULL r] by blast
  then have "next_fit_loop s' (ALIGN n) NULL NULL = None" by (rule option_none)
  then have "find_fit USE_NEXT_FIT s' (ALIGN n) = None" using eb(2) by (simp add: next_fit_def Let_def)
  then show ?thesis using n(1) m(3) by (simp add: implicit_mm_malloc_def)
qed

end
