(* ===== verification/Implicit_Fit.thy ===== *)
theory Implicit_Fit
  imports Implicit_Faults
begin

text \<open>
  Which block the three strategies choose, and when malloc fails: the first fitting block, the
  first one after the next-fit pointer, or a smallest one; failure only when no block fits and
  the arena has no room for what is missing.
\<close>

section \<open>The chosen block\<close>

abbreviation heap_blocks :: "mstate \<Rightarrow> block list \<Rightarrow> (addr \<times> int \<times> bool) set" where
  "heap_blocks s bs \<equiv> set (lay (heap_listp s) (prologue # bs))"

text \<open>\<open>chosen fit cur k L q t\<close>: the strategy prefers the block at \<open>q\<close> to every fitting one of \<open>L\<close>.\<close>

definition chosen :: "fit \<Rightarrow> addr \<Rightarrow> int \<Rightarrow> (addr \<times> int \<times> bool) set \<Rightarrow> addr \<Rightarrow> int \<Rightarrow> bool" where
  "chosen fit cur k L q t \<longleftrightarrow> (\<forall>(r, u, b)\<in>L. fits k (r, u, b) \<longrightarrow>
     (case fit of
        USE_FIRST_FIT \<Rightarrow> q \<le> r
      | USE_NEXT_FIT \<Rightarrow> if cur < q then r \<le> cur \<or> q \<le> r else r \<le> cur \<and> q \<le> r
      | USE_BEST_FIT \<Rightarrow> t \<le> u))"

lemma lay_sorted: "blks_ok bs \<Longrightarrow> sorted_wrt (<) (map fst (lay p bs))"
proof (induction p bs rule: lay.induct)
  case (2 p s a bs)
  have "p < q" if "(q, t, b) \<in> set (lay (p + s) bs)" for q t b
    using lay_bounds[OF _ that] 2(2) by force
  then show ?case using 2 by force
qed simp

lemma find_sorted:
  assumes "sorted_wrt (<) (map fst L)" "find (fits k) L = Some (q, t, a)"
    "(r, u, b) \<in> set L" "fits k (r, u, b)"
  shows "q \<le> r"
proof -
  obtain i where i: "i < length L" "L ! i = (q, t, a)" "\<forall>j<i. \<not> fits k (L ! j)"
    using assms(2) by (auto simp: find_Some_iff)
  obtain j where j: "j < length L" "L ! j = (r, u, b)" using assms(3) by (auto simp: in_set_conv_nth)
  have "\<not> j < i" using i(3) j(2) assms(4) by auto
  then consider "i = j" | "i < j" by linarith
  then have "i = j \<or> fst (L ! i) < fst (L ! j)"
    using assms(1) i(1) j(1) by cases (auto simp: sorted_wrt_iff_nth_less)
  then show ?thesis using i(2) j(2) by auto
qed

lemma find_append: "find P (xs @ ys) = (case find P xs of None \<Rightarrow> find P ys | Some x \<Rightarrow> Some x)"
  by (induction xs) auto

lemma sorted_filter_fits: "sorted_wrt (<) (map fst L) \<Longrightarrow> sorted_wrt (<) (map fst (takeWhile P L))"
    "sorted_wrt (<) (map fst L) \<Longrightarrow> sorted_wrt (<) (map fst (dropWhile P L))"
  by (induction L) (auto dest: set_takeWhileD)

lemma dropWhile_above:
  fixes L :: "(addr \<times> int \<times> bool) list"
  assumes "sorted_wrt (<) (map fst L)" "(r, u, b) \<in> set (dropWhile (\<lambda>b. fst b \<le> cur) L)"
  shows "cur < r"
  using assms
proof (induction L)
  case (Cons x L)
  show ?case
  proof (cases "fst x \<le> cur")
    case True
    then show ?thesis using Cons by simp
  next
    case False
    then have "(r, u, b) = x \<or> fst x < r" using Cons.prems by fastforce
    then show ?thesis using False by auto
  qed
qed simp

lemma pick_chosen:
  assumes ok: "sorted_wrt (<) (map fst L)" and p: "pick fit cur k L = Some (q, t, a)"
    and sm: "\<forall>(r, u, b)\<in>set L. u - 8 < MAX_HEAP"
  shows "chosen fit cur k (set L) q t"
proof (cases fit)
  case USE_FIRST_FIT
  then show ?thesis using find_sorted[OF ok] p by (auto simp: chosen_def)
next
  case USE_BEST_FIT
  obtain b bp where b: "best_of k MAX_HEAP NULL L = (b, bp)" by force
  then have t: "t = b + 8" using p USE_BEST_FIT by (auto split: if_splits)
  have "b \<le> u - 8" if "(r, u, c) \<in> set L" "fits k (r, u, c)" for r u c
    using best_of_min[OF that, of MAX_HEAP NULL] b by simp
  then show ?thesis using USE_BEST_FIT t by (fastforce simp: chosen_def)
next
  case USE_NEXT_FIT
  let ?hi = "dropWhile (\<lambda>b. fst b \<le> cur) L" and ?lo = "takeWhile (\<lambda>b. fst b \<le> cur) L"
  note so = sorted_filter_fits[OF ok]
  have split: "(r, u, b) \<in> set L \<Longrightarrow> (r, u, b) \<in> set ?lo \<and> r \<le> cur \<or> (r, u, b) \<in> set ?hi \<and> cur < r" for r u b
    using dropWhile_above[OF ok] set_takeWhileD[of "(r, u, b)" _ L]
    by (metis Un_iff fst_conv set_append takeWhile_dropWhile_id)
  show ?thesis
  proof (cases "find (fits k) ?hi")
    case None
    then have lo: "find (fits k) ?lo = Some (q, t, a)" using p USE_NEXT_FIT by (simp add: find_append)
    have "q \<le> cur"
      using find_SomeD[OF lo] set_takeWhileD[of "(q, t, a)" "\<lambda>b. fst b \<le> cur" L] by auto
    moreover have "r \<le> cur \<and> q \<le> r" if "(r, u, b) \<in> set L" "fits k (r, u, b)" for r u b
      using split[OF that(1)] None that(2) find_sorted[OF so(1) lo] by (auto simp: find_None_iff)
    ultimately show ?thesis using USE_NEXT_FIT by (auto simp: chosen_def)
  next
    case (Some x)
    then have hi: "find (fits k) ?hi = Some (q, t, a)" using p USE_NEXT_FIT by (simp add: find_append)
    have "cur < q" using find_SomeD[OF hi] dropWhile_above[OF ok] by auto
    moreover have "r \<le> cur \<or> q \<le> r" if "(r, u, b) \<in> set L" "fits k (r, u, b)" for r u b
      using split[OF that(1)] that(2) find_sorted[OF so(2) hi] by auto
    ultimately show ?thesis using USE_NEXT_FIT by (auto simp: chosen_def)
  qed
qed

lemma find_fit_chosen:
  assumes inv: "imp_inv fit s bs" and n: "uint n = k" "8 dvd k"
  shows "(\<exists>s'. find_fit fit s n = Some (NULL, s') \<and> (\<forall>b\<in>heap_blocks s bs. \<not> fits k b))
    \<or> (\<exists>q t s'. find_fit fit s n = Some (q, s') \<and> q \<noteq> NULL \<and> (q, t, False) \<in> heap_blocks s bs
        \<and> fits k (q, t, False) \<and> chosen fit (heap_curp s) k (heap_blocks s bs) q t)"
proof -
  have h: "heap_inv s bs" using inv by (simp add: imp_inv_def)
  note hd = heap_invD[OF h]
  let ?L = "lay (heap_listp s) (prologue # bs)"
  have ok: "blks_ok (prologue # bs)" by (rule seg_blks_ok[OF hd(3)])
  have sm: "u - 8 < MAX_HEAP" if "(r, u, b) \<in> set ?L" for r u b
    using lay_bounds[OF ok that] hd(9) by (simp add: prologue_def c_const)
  note ff = find_fit_eq[OF inv, of n]
  show ?thesis
  proof (cases "pick fit (heap_curp s) k ?L")
    case None
    then have "\<not> fits k b" if "b \<in> set ?L" for b
      using that pick_None[OF None _ sm] by (metis prod.collapse)
    then show ?thesis using ff n(1) None by auto
  next
    case (Some x)
    then obtain q t a where p: "pick fit (heap_curp s) k ?L = Some (q, t, a)" by (cases x) auto
    have k0: "0 \<le> k" using n(1) by auto
    obtain xs ys where x: "\<not> a" "k \<le> t - 8" "q = heap_listp s + 8 + total xs" "blk (mem s) q t False"
      "bs = xs @ (t, False) # ys"
      using pick_split[OF h p k0] by metis
    have f: "find_fit fit s n = Some (q, s\<lparr>mem := puts (mem s) q (cut t (k + 8))\<rparr>)"
      using ff n(1) p place_free[OF x(4) n x(2)] by simp
    have "0 \<le> total xs" using hd(3) x(5) seg_total_nonneg by (auto simp: prologue_def)
    then have "q \<noteq> NULL" using x(3) hd(7) by (simp add: NULL_def)
    moreover have "chosen fit (heap_curp s) k (set ?L) q t"
      by (rule pick_chosen[OF lay_sorted[OF ok] p]) (use sm in auto)
    ultimately show ?thesis using f pick_Some[OF p] x(1) by auto
  qed
qed

section \<open>When malloc fails\<close>

lemma amalloc_None_iff:
  assumes inv: "heap_inv s bs" and k: "0 \<le> k"
  shows "amalloc fit (mem_max_addr s) (heap_listp s) cur k bs = None \<longleftrightarrow>
    (\<forall>b\<in>heap_blocks s bs. \<not> fits k b)
    \<and> mem_max_addr s < mem_brk s + (k + 8) - (if tail_free bs then fst (last bs) else 0)"
proof -
  let ?L = "lay (heap_listp s) (prologue # bs)"
  note hd = heap_invD[OF inv]
  have ok: "blks_ok (prologue # bs)" by (rule seg_blks_ok[OF hd(3)])
  have sm: "u - 8 < MAX_HEAP" if "(r, u, b) \<in> set ?L" for r u b
    using lay_bounds[OF ok that] hd(9) by (simp add: prologue_def c_const)
  show ?thesis
  proof (cases "pick fit cur k ?L")
    case (Some x)
    then obtain q t a where p: "pick fit cur k ?L = Some (q, t, a)" by (cases x) auto
    obtain xs ys where "split_at (heap_listp s + 8) q bs = (xs, (t, False) # ys)"
      using pick_split[OF inv p k] by metis
    then have "amalloc fit (mem_max_addr s) (heap_listp s) cur k bs \<noteq> None"
      using p by (simp add: amalloc_def)
    then show ?thesis using pick_Some[OF p] by blast
  next
    case None
    then have nf: "\<forall>b\<in>set ?L. \<not> fits k b"
      using pick_None[OF None _ sm] by (metis prod.collapse)
    have am: "amalloc fit (mem_max_addr s) (heap_listp s) cur k bs = agrow (mem_max_addr s) (heap_listp s + 8) k bs"
      using None by (simp add: amalloc_def)
    show ?thesis
    proof (cases "tail_free bs")
      case False
      then show ?thesis using am nf hd(5) k by (simp add: agrow_def Let_def)
    next
      case True
      then obtain t where t: "bs = butlast bs @ [(t, False)]"
        by (metis append_butlast_last_id prod.collapse tail_free_def)
      have tot: "total bs = total (butlast bs) + t" using arg_cong[OF t, of total] by simp
      have la: "fst (last bs) = t" by (subst t) simp
      have "(heap_listp s + 8 + total (butlast bs), t, False) \<in> set ?L"
        by (subst t) (simp add: prologue_def)
      then have "t - 8 < k" using nf by (fastforce simp: fits_def)
      then show ?thesis using am nf hd(5) True tot la k by (simp add: agrow_def Let_def)
    qed
  qed
qed

section \<open>Every branch of realloc\<close>

text \<open>A block without payload, as malloc returns for a request of \<open>2\<^sup>3\<^sup>2\<close> bytes, is refused.\<close>

lemma implicit_realloc_bare:
  assumes inv: "imp_inv fit s bs" and l: "(q, c) \<in> live (heap_listp s + 8) bs" and c: "c < 8" and sz: "sz \<noteq> 0"
  shows "implicit_mm_realloc fit q sz s = Some (NULL, s)"
proof -
  obtain xs ys where x: "bs = xs @ (c + 8, True) # ys" "q = heap_listp s + 8 + total xs"
    using l by (rule live_split)
  have b: "block_in s bs q xs (c + 8) ys" using inv x by (simp add: block_in_def imp_inv_def)
  note d = block_inD[OF b]
  have "uint (ucast (RB_SIZE (mem s) q) :: size_t) = c + 8" by (rule uint_size_of[OF RB_SIZE_hdr[OF blkD(1)[OF d(4)]]])
  moreover have "c + 8 \<le> 8"
  proof -
    have "8 dvd c + 8" using blkD(4)[OF d(4)] by (simp add: sz_ok_def)
    then have "8 dvd c" by simp
    then show ?thesis using c zdvd_imp_le[of 8 c] by fastforce
  qed
  ultimately have "(ucast (RB_SIZE (mem s) q) :: size_t) \<le> MIN_BLK_SIZE" by (simp add: word_le_def c_const)
  moreover have "q \<noteq> NULL" using d(5) by (simp add: NULL_def)
  ultimately show ?thesis using sz by (simp add: implicit_mm_realloc_def Let_def)
qed

lemma implicit_realloc_full:
  assumes inv: "imp_inv fit s bs" and l: "(q, c) \<in> live (heap_listp s + 8) bs" and c: "8 \<le> c"
    and sz: "sz \<noteq> 0" "uint sz + 15 < 2 ^ 31"
  shows "case arealloc (mem_max_addr s) (heap_listp s + 8) (align8 (uint sz)) q bs of
      Done r bs' \<Rightarrow> \<exists>s'. implicit_mm_realloc fit q sz s = Some (r, s')
        \<and> realloc_post fit s bs q c (align8 (uint sz)) r s' bs'
    | Fail \<Rightarrow> \<exists>e. implicit_mm_realloc fit q sz s = Some (NULL, s\<lparr>errno := e\<rparr>)
    | Undefined \<Rightarrow> implicit_mm_realloc fit q sz s = None
    | Overrun \<Rightarrow> \<exists>e. implicit_mm_realloc fit q sz s =
        Some (q, set_curp fit q (s\<lparr>errno := e, mem := put (mem s) q (align8 (uint sz) + 8) True\<rparr>))"
proof (cases "arealloc (mem_max_addr s) (heap_listp s + 8) (align8 (uint sz)) q bs = Overrun")
  case False
  then show ?thesis using implicit_realloc_spec[OF assms] by (auto split: realloc_result.splits)
next
  case True
  obtain xs ys where x: "bs = xs @ (c + 8, True) # ys" "q = heap_listp s + 8 + total xs"
    using l by (rule live_split)
  have b: "block_in s bs q xs (c + 8) ys" using inv x by (simp add: block_in_def imp_inv_def)
  note d = block_inD[OF b]
  have o: "ys = []" "c + 8 < align8 (uint sz) + 8" "mem_max_addr s < mem_brk s + (align8 (uint sz) + 8 - (c + 8))"
    using True heap_invD(5)[OF d(1)] unfolding arealloc_def d(6) Let_def prod.case list.case
    by (auto split: if_splits option.splits)
  have "16 \<le> c + 8" using c by simp
  note r = realloc_overrun[OF b[unfolded o(1)] sz(2) refl sz(1) this o(2,3), of fit]
  show ?thesis unfolding True realloc_result.case by (rule r)
qed

end
