(* ===== verification/Mm.thy ===== *)
theory Mm
  imports Implicit Segregate
begin

text \<open>
  \<^verbatim>\<open>mm.c\<close>: the package the driver is linked with hands every call to the allocator chosen
  by the build (\<open>STRATEGY\<close> and \<open>FIT\<close> of the \<^verbatim>\<open>Makefile\<close>). \<open>mm_package\<close> collects the four
  functions that \<^verbatim>\<open>mm.h\<close> declares: the interface the driver is written against.
\<close>

datatype strategy = USE_IMPLICIT fit | USE_SEGREGATE_FIT

instantiation strategy :: enum
begin

definition enum_strategy :: "strategy list" where
  "enum_strategy = map USE_IMPLICIT enum_class.enum @ [USE_SEGREGATE_FIT]"

definition enum_all_strategy :: "(strategy \<Rightarrow> bool) \<Rightarrow> bool" where
  "enum_all_strategy P \<longleftrightarrow> (\<forall>fit. P (USE_IMPLICIT fit)) \<and> P USE_SEGREGATE_FIT"

definition enum_ex_strategy :: "(strategy \<Rightarrow> bool) \<Rightarrow> bool" where
  "enum_ex_strategy P \<longleftrightarrow> (\<exists>fit. P (USE_IMPLICIT fit)) \<or> P USE_SEGREGATE_FIT"

instance
proof
  have u: "(\<exists>fit. x = USE_IMPLICIT fit) \<or> x = USE_SEGREGATE_FIT" for x by (cases x) auto
  show "UNIV = set (enum_class.enum :: strategy list)" using u by (auto simp: enum_strategy_def enum_UNIV image_iff)
  show "distinct (enum_class.enum :: strategy list)"
    by (auto simp: enum_strategy_def distinct_map enum_distinct inj_on_def)
  show "enum_class.enum_all P \<longleftrightarrow> Ball UNIV P" for P :: "strategy \<Rightarrow> bool" unfolding enum_all_strategy_def Ball_def using u by (metis UNIV_I)
  show "enum_class.enum_ex P \<longleftrightarrow> Bex UNIV P" for P :: "strategy \<Rightarrow> bool" unfolding enum_ex_strategy_def Bex_def using u by (metis UNIV_I)
qed

end

fun mm_init :: "strategy \<Rightarrow> mstate \<Rightarrow> c_int \<times> mstate" where
  "mm_init (USE_IMPLICIT fit) s = implicit_mm_init fit s"
| "mm_init USE_SEGREGATE_FIT s = segregate_mm_init s"

fun mm_malloc :: "strategy \<Rightarrow> size_t \<Rightarrow> mstate \<Rightarrow> (addr \<times> mstate) option" where
  "mm_malloc (USE_IMPLICIT fit) sz s = implicit_mm_malloc fit sz s"
| "mm_malloc USE_SEGREGATE_FIT sz s = segregate_mm_malloc sz s"

fun mm_free :: "strategy \<Rightarrow> addr \<Rightarrow> mstate \<Rightarrow> mstate" where
  "mm_free (USE_IMPLICIT fit) ptr s = implicit_mm_free fit ptr s"
| "mm_free USE_SEGREGATE_FIT ptr s = segregate_mm_free ptr s"

fun mm_realloc :: "strategy \<Rightarrow> addr \<Rightarrow> size_t \<Rightarrow> mstate \<Rightarrow> (addr \<times> mstate) option" where
  "mm_realloc (USE_IMPLICIT fit) ptr sz s = implicit_mm_realloc fit ptr sz s"
| "mm_realloc USE_SEGREGATE_FIT ptr sz s = segregate_mm_realloc ptr sz s"

record mm_pkg =
  pkg_init :: "mstate \<Rightarrow> c_int \<times> mstate"
  pkg_malloc :: "size_t \<Rightarrow> mstate \<Rightarrow> (addr \<times> mstate) option"
  pkg_free :: "addr \<Rightarrow> mstate \<Rightarrow> mstate"
  pkg_realloc :: "addr \<Rightarrow> size_t \<Rightarrow> mstate \<Rightarrow> (addr \<times> mstate) option"

definition mm_package :: "strategy \<Rightarrow> mm_pkg" where
  "mm_package st = \<lparr>pkg_init = mm_init st, pkg_malloc = mm_malloc st,
     pkg_free = mm_free st, pkg_realloc = mm_realloc st\<rparr>"

lemma mm_package_simps [simp]:
  "pkg_init (mm_package st) = mm_init st" "pkg_malloc (mm_package st) = mm_malloc st"
  "pkg_free (mm_package st) = mm_free st" "pkg_realloc (mm_package st) = mm_realloc st"
  by (simp_all add: mm_package_def)

end
