(* ===== verification/Outcome.thy ===== *)
theory Outcome
  imports Complex_Main "HOL-Library.Word"
begin

text \<open>
  The result of a function of the driver and of the timing package: it returns a value and a new
  state, leaves the program by \<open>exit\<close>, fails an \<open>assert\<close>, has no defined result, or never returns.
\<close>

datatype ('a, 's) outcome = Ret 'a 's | Exit "32 word" | Abort | Undef | Hang

fun and_then :: "('a, 's) outcome \<Rightarrow> ('a \<Rightarrow> 's \<Rightarrow> ('b, 't) outcome) \<Rightarrow> ('b, 't) outcome" where
  "and_then (Ret x s) f = f x s"
| "and_then (Exit c) f = Exit c"
| "and_then Abort f = Abort"
| "and_then Undef f = Undef"
| "and_then Hang f = Hang"

fun_cases and_then_RetE: "and_then r f = Ret x s"

lemma and_then_Ret_iff: "and_then r f = Ret x s \<longleftrightarrow> (\<exists>y t. r = Ret y t \<and> f y t = Ret x s)"
  by (cases r) auto

lemma and_then_cong [fundef_cong]:
  "r = r' \<Longrightarrow> (\<And>x s. r' = Ret x s \<Longrightarrow> f x s = g x s) \<Longrightarrow> and_then r f = and_then r' g"
  by (cases r') auto

lemma and_then_assoc: "and_then (and_then r f) g = and_then r (\<lambda>x s. and_then (f x s) g)"
  by (cases r) auto

lemma and_then_Ret [simp]: "and_then r Ret = r"
  by (cases r) auto

text \<open>A loop written as a partial function: \<open>None\<close> is the loop that does not end.\<close>

fun loop_outcome :: "('a, 's) outcome option \<Rightarrow> ('a, 's) outcome" where
  "loop_outcome None = Hang"
| "loop_outcome (Some r) = r"

end
