(* ===== verification/Driver.thy ===== *)
theory Driver
  imports Mm Outcome
begin

text \<open>
  \<^verbatim>\<open>mdriver.c\<close>: the range list that checks every payload the package returns, and the three
  evaluations of a trace: for correctness, for space utilisation and for speed. The package
  under test is a parameter (\<open>mm_pkg\<close>), as at link time. The libc calls of the driver itself
  (\<open>malloc\<close> of a range record) succeed or fail as the oracle \<open>libc_ok\<close> says.

  A result is an \<open>outcome\<close>; it is \<open>Undef\<close> for an index out of a trace's arrays or a call of the
  package without a defined result.
\<close>

section \<open>Data\<close>

record range_t =
  lo :: addr
  hi :: addr

datatype request = ALLOC | FREE | REALLOC

record traceop_t =
  op_type :: request
  op_index :: c_int
  op_size :: c_int

record trace_t =
  sugg_heapsize :: c_int
  num_ids :: c_int
  num_ops :: c_int
  weight :: c_int
  ops :: "traceop_t list"
  blocks :: "addr list"
  block_sizes :: "size_t list"

text \<open>What the evaluation of a trace changes. A range list has its head first.\<close>

record driver =
  heap :: mstate
  trace :: trace_t
  ranges :: "range_t list"
  errors :: c_int
  libc_ok :: "nat \<Rightarrow> bool"
  libc_calls :: nat

section \<open>Errors\<close>

definition app_error :: "('a, 's) outcome" where
  "app_error = Exit 1"

definition unix_error :: "('a, 's) outcome" where
  "unix_error = Exit 1"

definition malloc_error :: "driver \<Rightarrow> driver" where
  "malloc_error d = d\<lparr>errors := errors d + 1\<rparr>"

text \<open>It counts the error before it leaves the program.\<close>

definition realloc_error :: "driver \<Rightarrow> ('a, 's) outcome" where
  "realloc_error d = (let d = malloc_error d in Exit 1)"

section \<open>The range list\<close>

definition IS_ALIGNED :: "addr \<Rightarrow> bool" where
  "IS_ALIGNED p \<longleftrightarrow> (word_of_int p :: u32) mod ALIGNMENT = 0"

definition add_range :: "addr \<Rightarrow> c_int \<Rightarrow> driver \<Rightarrow> (c_int, driver) outcome" where
  "add_range l sz d =
     (let h = l + sint sz - 1
      in if sint sz < 0 then Abort
         else if \<not> IS_ALIGNED l then Ret 0 (malloc_error d)
         else if l < mem_heap_lo (heap d) \<or> l > mem_heap_hi (heap d)
              \<or> h < mem_heap_lo (heap d) \<or> h > mem_heap_hi (heap d)
         then Ret 0 (malloc_error d)
         else if \<exists>p\<in>set (ranges d). (l \<ge> lo p \<and> l \<le> hi p) \<or> (h \<ge> lo p \<and> h \<le> hi p)
         then Ret 0 (malloc_error d)
         else
           let ok = libc_ok d (libc_calls d); d = d\<lparr>libc_calls := libc_calls d + 1\<rparr>
           in if \<not> ok then unix_error
              else Ret 1 (d\<lparr>ranges := \<lparr>lo = l, hi = h\<rparr> # ranges d\<rparr>))"

fun remove_range_list :: "addr \<Rightarrow> range_t list \<Rightarrow> range_t list" where
  "remove_range_list l [] = []"
| "remove_range_list l (p # ps) = (if lo p = l then ps else p # remove_range_list l ps)"

definition remove_range :: "addr \<Rightarrow> driver \<Rightarrow> driver" where
  "remove_range l d = d\<lparr>ranges := remove_range_list l (ranges d)\<rparr>"

definition clear_ranges :: "driver \<Rightarrow> driver" where
  "clear_ranges d = d\<lparr>ranges := []\<rparr>"

definition clean_up :: "driver \<Rightarrow> driver" where
  "clean_up d =
     (let t = trace d
      in d\<lparr>heap := mem_clear (heap d),
           trace := t\<lparr>blocks := replicate (length (blocks t)) NULL,
                      block_sizes := replicate (length (block_sizes t)) 0\<rparr>\<rparr>)"

section \<open>Running a trace\<close>

text \<open>
  \<open>for (i = 0; i < n; i++)\<close> over the array of requests. The body returns \<open>None\<close> to go on and
  \<open>Some v\<close> when the function returns \<open>v\<close>; reading past the array is undefined.
\<close>

fun for_ops :: "(traceop_t \<Rightarrow> 's \<Rightarrow> ('a option, 's) outcome) \<Rightarrow> nat \<Rightarrow> traceop_t list \<Rightarrow> 's
    \<Rightarrow> ('a option, 's) outcome" where
  "for_ops body 0 os d = Ret None d"
| "for_ops body (Suc n) [] d = Undef"
| "for_ops body (Suc n) (r # os) d =
     and_then (body r d) (\<lambda>v d. if v = None then for_ops body n os d else Ret v d)"

definition in_array :: "c_int \<Rightarrow> 'a list \<Rightarrow> bool" where
  "in_array i xs \<longleftrightarrow> 0 \<le> sint i \<and> sint i < int (length xs)"

definition arr_get :: "'a list \<Rightarrow> c_int \<Rightarrow> 'a" where
  "arr_get xs i = xs ! nat (sint i)"

definition set_block :: "c_int \<Rightarrow> addr \<Rightarrow> driver \<Rightarrow> driver" where
  "set_block i p d = d\<lparr>trace := (trace d)\<lparr>blocks := (blocks (trace d))[nat (sint i) := p]\<rparr>\<rparr>"

definition set_block_size :: "c_int \<Rightarrow> c_int \<Rightarrow> driver \<Rightarrow> driver" where
  "set_block_size i sz d =
     d\<lparr>trace := (trace d)\<lparr>block_sizes := (block_sizes (trace d))[nat (sint i) := scast sz]\<rparr>\<rparr>"

definition index_ok :: "c_int \<Rightarrow> driver \<Rightarrow> bool" where
  "index_ok i d \<longleftrightarrow> in_array i (blocks (trace d)) \<and> in_array i (block_sizes (trace d))"

definition fill_heap :: "addr \<Rightarrow> c_int \<Rightarrow> c_int \<Rightarrow> driver \<Rightarrow> driver" where
  "fill_heap p i sz d =
     d\<lparr>heap := (heap d)\<lparr>mem := memset (mem (heap d)) p (ucast (i AND 0xFF)) (sint sz)\<rparr>\<rparr>"

section \<open>eval_mm_valid\<close>

definition valid_alloc :: "mm_pkg \<Rightarrow> c_int \<Rightarrow> c_int \<Rightarrow> driver \<Rightarrow> (c_int option, driver) outcome" where
  "valid_alloc P i sz d =
     (case pkg_malloc P (scast sz) (heap d) of
        None \<Rightarrow> Undef
      | Some (p, s) \<Rightarrow>
          let d = d\<lparr>heap := s\<rparr>
          in if p = NULL then Ret (Some 0) (malloc_error d)
             else and_then (add_range p sz d) (\<lambda>r d.
               if r = 0 then Ret (Some 0) d
               else
                 let d = fill_heap p i sz d
                 in if index_ok i d then Ret None (set_block_size i sz (set_block i p d)) else Undef))"

text \<open>\<open>char\<close> is signed; the comparison is one of \<open>int\<close>s.\<close>

definition data_kept :: "addr \<Rightarrow> c_int \<Rightarrow> int \<Rightarrow> driver \<Rightarrow> bool" where
  "data_kept newp i oldsize d \<longleftrightarrow>
     (\<forall>j\<in>set [0..oldsize - 1]. sint (mem (heap d) (newp + j)) = sint (i AND 0xFF))"

definition valid_realloc :: "mm_pkg \<Rightarrow> c_int \<Rightarrow> c_int \<Rightarrow> driver \<Rightarrow> (c_int option, driver) outcome" where
  "valid_realloc P i sz d =
     (if \<not> index_ok i d then Undef
      else
        let oldp = arr_get (blocks (trace d)) i
        in case pkg_realloc P oldp (scast sz) (heap d) of
             None \<Rightarrow> Undef
           | Some (newp, s) \<Rightarrow>
               let d = d\<lparr>heap := s\<rparr>
               in if newp = NULL then Ret (Some 0) (malloc_error d)
                  else and_then (add_range newp sz (remove_range oldp d)) (\<lambda>r d.
                    if r = 0 then Ret (Some 0) d
                    else
                      let oldsize = (ucast (arr_get (block_sizes (trace d)) i) :: c_int);
                          oldsize = (if sint sz < sint oldsize then sz else oldsize)
                      in if \<not> data_kept newp i (sint oldsize) d then Ret (Some 0) (malloc_error d)
                         else Ret None
                           (set_block_size i sz (set_block i newp (fill_heap newp i sz d)))))"

definition valid_free :: "mm_pkg \<Rightarrow> c_int \<Rightarrow> driver \<Rightarrow> (c_int option, driver) outcome" where
  "valid_free P i d =
     (if \<not> in_array i (blocks (trace d)) then Undef
      else
        let p = arr_get (blocks (trace d)) i; d = remove_range p d
        in Ret None (d\<lparr>heap := pkg_free P p (heap d)\<rparr>))"

definition valid_op :: "mm_pkg \<Rightarrow> traceop_t \<Rightarrow> driver \<Rightarrow> (c_int option, driver) outcome" where
  "valid_op P r d =
     (case op_type r of
        ALLOC \<Rightarrow> valid_alloc P (op_index r) (op_size r) d
      | REALLOC \<Rightarrow> valid_realloc P (op_index r) (op_size r) d
      | FREE \<Rightarrow> valid_free P (op_index r) d)"

definition eval_mm_valid :: "mm_pkg \<Rightarrow> driver \<Rightarrow> (c_int, driver) outcome" where
  "eval_mm_valid P d =
     (let d = clear_ranges (d\<lparr>heap := mem_reset_brk (heap d)\<rparr>);
          (r, s) = pkg_init P (heap d);
          d = d\<lparr>heap := s\<rparr>
      in if sint r < 0 then Ret 0 (malloc_error d)
         else and_then (for_ops (valid_op P) (nat (sint (num_ops (trace d)))) (ops (trace d)) d)
           (\<lambda>v d. Ret (case v of Some r \<Rightarrow> r | None \<Rightarrow> 1) d))"

section \<open>eval_mm_util\<close>

record util =
  drv :: driver
  total_size :: c_int
  max_total_size :: c_int

definition add_total :: "c_int \<Rightarrow> util \<Rightarrow> util" where
  "add_total n u =
     (let t = total_size u + n
      in u\<lparr>total_size := t,
           max_total_size := if sint t > sint (max_total_size u) then t else max_total_size u\<rparr>)"

definition util_op :: "mm_pkg \<Rightarrow> traceop_t \<Rightarrow> util \<Rightarrow> (unit option, util) outcome" where
  "util_op P r u =
     (let d = drv u; i = op_index r
      in case op_type r of
           ALLOC \<Rightarrow>
             (case pkg_malloc P (scast (op_size r)) (heap d) of
                None \<Rightarrow> Undef
              | Some (p, s) \<Rightarrow>
                  if p = NULL then app_error
                  else if \<not> index_ok i d then Undef
                  else Ret None (add_total (op_size r)
                         (u\<lparr>drv := set_block_size i (op_size r) (set_block i p (d\<lparr>heap := s\<rparr>))\<rparr>)))
         | REALLOC \<Rightarrow>
             if \<not> index_ok i d then Undef
             else
               let oldsize = (ucast (arr_get (block_sizes (trace d)) i) :: c_int);
                   oldp = arr_get (blocks (trace d)) i
               in (case pkg_realloc P oldp (scast (op_size r)) (heap d) of
                     None \<Rightarrow> Undef
                   | Some (newp, s) \<Rightarrow>
                       if newp = NULL then realloc_error d
                       else Ret None (add_total (op_size r - oldsize)
                         (u\<lparr>drv := set_block_size i (op_size r) (set_block i newp (d\<lparr>heap := s\<rparr>))\<rparr>)))
         | FREE \<Rightarrow>
             if \<not> index_ok i d then Undef
             else
               let sz = (ucast (arr_get (block_sizes (trace d)) i) :: c_int);
                   p = arr_get (blocks (trace d)) i
               in Ret None (u\<lparr>drv := d\<lparr>heap := pkg_free P p (heap d)\<rparr>,
                              total_size := total_size u - sz\<rparr>))"

text \<open>The quotient of two \<open>double\<close>s, taken as the real number it rounds.\<close>

definition eval_mm_util :: "mm_pkg \<Rightarrow> driver \<Rightarrow> (real, util) outcome" where
  "eval_mm_util P d =
     (let (r, s) = pkg_init P (heap d);
          u = \<lparr>drv = d\<lparr>heap := s\<rparr>, total_size = 0, max_total_size = 0\<rparr>
      in if sint r < 0 then app_error
         else and_then (for_ops (util_op P) (nat (sint (num_ops (trace d)))) (ops (trace d)) u)
           (\<lambda>_ u. if mem_heapsize (heap (drv u)) = 0 then Undef
              else Ret (real_of_int (sint (max_total_size u))
                    / real_of_int (uint (mem_heapsize (heap (drv u))))) u))"

section \<open>eval_mm_speed\<close>

definition speed_op :: "mm_pkg \<Rightarrow> traceop_t \<Rightarrow> driver \<Rightarrow> (unit option, driver) outcome" where
  "speed_op P r d =
     (let i = op_index r
      in case op_type r of
           ALLOC \<Rightarrow>
             (case pkg_malloc P (scast (op_size r)) (heap d) of
                None \<Rightarrow> Undef
              | Some (p, s) \<Rightarrow>
                  if p = NULL then app_error
                  else if \<not> in_array i (blocks (trace d)) then Undef
                  else Ret None (set_block i p (d\<lparr>heap := s\<rparr>)))
         | REALLOC \<Rightarrow>
             if \<not> in_array i (blocks (trace d)) then Undef
             else
               (case pkg_realloc P (arr_get (blocks (trace d)) i) (scast (op_size r)) (heap d) of
                  None \<Rightarrow> Undef
                | Some (newp, s) \<Rightarrow>
                    if newp = NULL then realloc_error d
                    else Ret None (set_block i newp (d\<lparr>heap := s\<rparr>)))
         | FREE \<Rightarrow>
             if \<not> in_array i (blocks (trace d)) then Undef
             else Ret None (d\<lparr>heap := pkg_free P (arr_get (blocks (trace d)) i) (heap d)\<rparr>))"

definition eval_mm_speed :: "mm_pkg \<Rightarrow> driver \<Rightarrow> (unit, driver) outcome" where
  "eval_mm_speed P d =
     (let (r, s) = pkg_init P (heap d); d = d\<lparr>heap := s\<rparr>
      in if sint r < 0 then app_error
         else and_then (for_ops (speed_op P) (nat (sint (num_ops (trace d)))) (ops (trace d)) d)
           (\<lambda>_ d. Ret () d))"

end
