(* ===== verification/Allocator.thy ===== *)
theory Allocator
  imports Mm Blocks
begin

text \<open>
  The contract of a malloc package. \<open>wf s L\<close> says that \<open>s\<close> is a good state in which exactly the
  payloads \<open>L\<close> (address, capacity) are allocated; \<open>req\<close> says which request sizes the contract
  covers and \<open>ovh\<close> how many bytes initialisation takes. \<open>payloads\<close> is what a client may assume
  of the memory, \<open>allocator\<close> what the four operations promise, \<open>reliable_allocator\<close> adds that
  realloc cannot fail while there is room. \<open>client_step\<close> is any sequence of calls and writes a
  client may make.
\<close>

section \<open>The contract\<close>

text \<open>
  An empty heap in a zeroed arena. The word in front of the arena has to read as an empty block,
  0 or 1: the implicit allocator reads it, and each of its initialisations sets it to 1.
\<close>

definition pristine :: "mstate \<Rightarrow> bool" where
  "pristine s \<longleftrightarrow> mem_wf s \<and> mem_brk s = mem_start_brk s \<and> fresh s \<and> empty_front s"

definition same_arena :: "mstate \<Rightarrow> mstate \<Rightarrow> bool" where
  "same_arena s s' \<longleftrightarrow> mem_start_brk s' = mem_start_brk s \<and> mem_max_addr s' = mem_max_addr s"

definition cost :: "size_t \<Rightarrow> int" where
  "cost n = align8 (uint n) + 8"

definition room :: "int \<Rightarrow> mstate \<Rightarrow> bool" where
  "room k s \<longleftrightarrow> mem_brk s + k \<le> mem_max_addr s"

lemma same_arena_refl [simp]: "same_arena s s"
  by (simp add: same_arena_def)

lemma same_arena_trans: "same_arena s s' \<Longrightarrow> same_arena s' s'' \<Longrightarrow> same_arena s s''"
  by (simp add: same_arena_def)

lemma same_arena_mem [simp]: "same_arena s (s'\<lparr>mem := m\<rparr>) \<longleftrightarrow> same_arena s s'"
  by (simp add: same_arena_def)

lemma cost_pos: "8 \<le> cost n"
  using align8_facts(4)[of "uint n"] by (simp add: cost_def)

locale payloads =
  fixes wf :: "mstate \<Rightarrow> (addr \<times> int) set \<Rightarrow> bool"
  assumes wf_mem: "wf s L \<Longrightarrow> mem_wf s"
    and wf_finite: "wf s L \<Longrightarrow> finite L"
    and wf_bounds: "wf s L \<Longrightarrow> (p, c) \<in> L \<Longrightarrow>
      8 dvd p \<and> mem_start_brk s \<le> p \<and> 0 \<le> c \<and> p + c < mem_brk s"
    and wf_disjoint: "wf s L \<Longrightarrow> (p, c) \<in> L \<Longrightarrow> (q, d) \<in> L \<Longrightarrow>
      (p, c) = (q, d) \<or> p + c + 8 \<le> q \<or> q + d + 8 \<le> p"
    and wf_write: "wf s L \<Longrightarrow> (p, c) \<in> L \<Longrightarrow> same_on (- {p..<p + c}) (mem s) m \<Longrightarrow>
      wf (s\<lparr>mem := m\<rparr>) L"
begin

lemma wf_unique: "wf s L \<Longrightarrow> (p, c) \<in> L \<Longrightarrow> (p, d) \<in> L \<Longrightarrow> c = d"
  using wf_disjoint[of s L p c p d] wf_bounds[of s L p] by fastforce

lemma wf_other:
  assumes "wf s L" "(p, c) \<in> L" "(q, d) \<in> L" "p \<noteq> q"
  shows "{p..<p + c} \<inter> {q..<q + d} = {}"
  using wf_disjoint[OF assms(1-3)] assms(4) by auto

text \<open>All payloads together fit in the heap.\<close>

lemma wf_total:
  assumes w: "wf s L"
  shows "(\<Sum>(p, c)\<in>L. c) \<le> mem_brk s - mem_start_brk s"
proof -
  let ?I = "\<lambda>(p, c). {p..<p + c :: int}"
  have fin: "finite L" by (rule wf_finite[OF w])
  have "(\<Sum>(p, c)\<in>L. c) = int (\<Sum>x\<in>L. card (?I x))"
    unfolding of_nat_sum by (rule sum.cong) (use wf_bounds[OF w] in force)+
  also have "(\<Sum>x\<in>L. card (?I x)) = card (\<Union>x\<in>L. ?I x)"
  proof (rule card_UN_disjoint[symmetric])
    show "\<forall>i\<in>L. \<forall>j\<in>L. i \<noteq> j \<longrightarrow> ?I i \<inter> ?I j = {}"
    proof (intro ballI impI)
      fix x y assume x: "x \<in> L" "y \<in> L" "x \<noteq> y"
      obtain p c q d where e: "x = (p, c)" "y = (q, d)" by fastforce
      then have "p \<noteq> q" using wf_unique[OF w] x by blast
      then have "{p..<p + c} \<inter> {q..<q + d} = {}" using wf_other[OF w] x(1,2) unfolding e by blast
      then show "?I x \<inter> ?I y = {}" unfolding e prod.case .
    qed
  qed (use fin in auto)
  also have "card (\<Union>x\<in>L. ?I x) \<le> card {mem_start_brk s..<mem_brk s}"
    by (rule card_mono) (use wf_bounds[OF w] in fastforce)+
  also have "int (card {mem_start_brk s..<mem_brk s}) = mem_brk s - mem_start_brk s"
    using wf_mem[OF w] by (simp add: mem_wf_def)
  finally show ?thesis by simp
qed

end

locale allocator = payloads wf
  for wf :: "mstate \<Rightarrow> (addr \<times> int) set \<Rightarrow> bool" +
  fixes P :: mm_pkg and req :: "size_t \<Rightarrow> bool" and ovh :: int
  assumes init_ok: "pristine s \<Longrightarrow> \<exists>s'. pkg_init P s = (0, s') \<and> wf s' {} \<and> same_arena s s'
      \<and> mem_brk s' = mem_start_brk s + ovh"
    and malloc_ok: "wf s L \<Longrightarrow> req n \<Longrightarrow> \<exists>p s'. pkg_malloc P n s = Some (p, s') \<and>
      (if p = NULL then \<not> room (cost n) s
       else \<exists>c. uint n \<le> c \<and> (\<forall>d. (p, d) \<notin> L) \<and> wf s' (insert (p, c) L) \<and> keeps (mem s) (mem s') L
         \<and> same_arena s s' \<and> mem_brk s' \<le> mem_brk s + cost n)"
    and free_ok: "wf s L \<Longrightarrow> (p, c) \<in> L \<Longrightarrow> wf (pkg_free P p s) (L - {(p, c)})
      \<and> keeps (mem s) (mem (pkg_free P p s)) (L - {(p, c)})
      \<and> same_arena s (pkg_free P p s) \<and> mem_brk (pkg_free P p s) = mem_brk s"
    and realloc_ok: "wf s L \<Longrightarrow> (p, c) \<in> L \<Longrightarrow> req n \<Longrightarrow> room (cost n) s \<Longrightarrow>
      pkg_realloc P p n s = Some (q, s') \<Longrightarrow> q \<noteq> NULL \<Longrightarrow>
      \<exists>c'. uint n \<le> c' \<and> (\<forall>d. (q, d) \<notin> L - {(p, c)}) \<and> wf s' (insert (q, c') (L - {(p, c)}))
        \<and> keeps (mem s) (mem s') (L - {(p, c)}) \<and> moved (mem s) (mem s') p q (min c (uint n))
        \<and> same_arena s s' \<and> mem_brk s' \<le> mem_brk s + cost n"

locale reliable_allocator = allocator wf P req ovh
  for wf :: "mstate \<Rightarrow> (addr \<times> int) set \<Rightarrow> bool" and P :: mm_pkg and req :: "size_t \<Rightarrow> bool" and ovh :: int +
  assumes realloc_total: "wf s L \<Longrightarrow> (p, c) \<in> L \<Longrightarrow> req n \<Longrightarrow> room (cost n) s \<Longrightarrow>
      \<exists>q s'. pkg_realloc P p n s = Some (q, s') \<and> q \<noteq> NULL"

section \<open>Clients\<close>

text \<open>A client holds payloads (address, requested size) and writes only inside them.\<close>

inductive client_step :: "mm_pkg \<Rightarrow> (size_t \<Rightarrow> bool) \<Rightarrow> mstate \<times> (addr \<times> int) set \<Rightarrow>
    mstate \<times> (addr \<times> int) set \<Rightarrow> bool" for P req where
  cl_malloc: "req n \<Longrightarrow> pkg_malloc P n s = Some (p, s') \<Longrightarrow> p \<noteq> NULL \<Longrightarrow>
     client_step P req (s, H) (s', insert (p, uint n) H)"
| cl_free: "(p, k) \<in> H \<Longrightarrow> client_step P req (s, H) (pkg_free P p s, H - {(p, k)})"
| cl_realloc: "(p, k) \<in> H \<Longrightarrow> req n \<Longrightarrow> room (cost n) s \<Longrightarrow>
     pkg_realloc P p n s = Some (q, s') \<Longrightarrow> q \<noteq> NULL \<Longrightarrow>
     client_step P req (s, H) (s', insert (q, uint n) (H - {(p, k)}))"
| cl_write: "(p, k) \<in> H \<Longrightarrow> 0 \<le> i \<Longrightarrow> i < k \<Longrightarrow>
     client_step P req (s, H) (s\<lparr>mem := (mem s)(p + i := v)\<rparr>, H)"

inductive_simps client_step_iff: "client_step P req (s, H) (s', H')"

inductive client_reach :: "mm_pkg \<Rightarrow> (size_t \<Rightarrow> bool) \<Rightarrow> mstate \<Rightarrow> mstate \<times> (addr \<times> int) set \<Rightarrow> bool"
  for P req s0 where
  cl_init: "pkg_init P s0 = (0, s) \<Longrightarrow> client_reach P req s0 (s, {})"
| cl_step: "client_reach P req s0 x \<Longrightarrow> client_step P req x y \<Longrightarrow> client_reach P req s0 y"

text \<open>The held payloads are the allocated ones, each within its capacity.\<close>

definition holds :: "(addr \<times> int) set \<Rightarrow> (addr \<times> int) set \<Rightarrow> bool" where
  "holds H L \<longleftrightarrow> fst ` H = fst ` L \<and>
     (\<forall>(p, k)\<in>H. \<exists>c. (p, c) \<in> L \<and> k \<le> c) \<and> (\<forall>(p, k)\<in>H. \<forall>l. (p, l) \<in> H \<longrightarrow> l = k)"

lemma holdsD: "holds H L \<Longrightarrow> (p, k) \<in> H \<Longrightarrow> \<exists>c. (p, c) \<in> L \<and> k \<le> c"
  by (auto simp: holds_def)

lemma holdsI:
  assumes "fst ` H = fst ` L" "\<And>p k. (p, k) \<in> H \<Longrightarrow> \<exists>c. (p, c) \<in> L \<and> k \<le> c"
    "\<And>p k l. (p, k) \<in> H \<Longrightarrow> (p, l) \<in> H \<Longrightarrow> l = k"
  shows "holds H L"
  using assms unfolding holds_def by blast

lemma holds_insert:
  assumes h: "holds H L" and k: "k \<le> c" and n: "\<forall>d. (p, d) \<notin> L"
  shows "holds (insert (p, k) H) (insert (p, c) L)"
proof (rule holdsI)
  have "(p, l) \<notin> H" for l using holdsD[OF h, of p l] n by auto
  then show "l = j" if "(q, j) \<in> insert (p, k) H" "(q, l) \<in> insert (p, k) H" for q j l
    using that h by (auto simp: holds_def)
qed (use h k in \<open>auto simp: holds_def\<close>)

lemma holds_remove:
  assumes h: "holds H L" and k: "(p, k) \<in> H" and c: "\<And>d. (p, d) \<in> L \<Longrightarrow> d = c"
  shows "holds (H - {(p, k)}) (L - {(p, c)})"
proof (rule holdsI)
  have u: "(p, l) \<in> H \<Longrightarrow> l = k" for l using h k by (auto simp: holds_def)
  have rh: "fst ` (H - {(p, k)}) = fst ` H - {p}" using u by force
  have rl: "fst ` (L - {(p, c)}) = fst ` L - {p}" using c by force
  show "fst ` (H - {(p, k)}) = fst ` (L - {(p, c)})"
    unfolding rh rl using h by (simp add: holds_def)
  show "\<exists>e. (q, e) \<in> L - {(p, c)} \<and> j \<le> e" if "(q, j) \<in> H - {(p, k)}" for q j
    using that holdsD[OF h, of q j] u by blast
  show "l = j" if "(q, j) \<in> H - {(p, k)}" "(q, l) \<in> H - {(p, k)}" for q j l
    using that h by (auto simp: holds_def)
qed

context allocator
begin

lemma step_wf:
  assumes st: "client_step P req (s, H) (s', H')" and w: "wf s L" and h: "holds H L"
  shows "\<exists>L'. wf s' L' \<and> holds H' L' \<and> same_arena s s'"
proof -
  from st consider
    (m) n p where "req n" "pkg_malloc P n s = Some (p, s')" "p \<noteq> NULL" "H' = insert (p, uint n) H"
  | (f) p k where "(p, k) \<in> H" "s' = pkg_free P p s" "H' = H - {(p, k)}"
  | (r) p k n q where "(p, k) \<in> H" "req n" "room (cost n) s" "pkg_realloc P p n s = Some (q, s')"
      "q \<noteq> NULL" "H' = insert (q, uint n) (H - {(p, k)})"
  | (w) p k i v where "(p, k) \<in> H" "0 \<le> i" "i < k" "s' = s\<lparr>mem := (mem s)(p + i := v)\<rparr>" "H' = H"
    unfolding client_step_iff by blast
  then show ?thesis
  proof cases
    case m
    then show ?thesis using malloc_ok[OF w m(1)] holds_insert[OF h] by fastforce
  next
    case f
    then obtain c where c: "(p, c) \<in> L" using holdsD[OF h] by blast
    then show ?thesis
      using free_ok[OF w c] holds_remove[OF h f(1)] wf_unique[OF w _ c] f(2,3) by blast
  next
    case r
    then obtain c where c: "(p, c) \<in> L" using holdsD[OF h] by blast
    have "holds (H - {(p, k)}) (L - {(p, c)})"
      using holds_remove[OF h r(1)] wf_unique[OF w _ c] by blast
    then show ?thesis
      using realloc_ok[OF w c r(2-5)] r(6) holds_insert by blast
  next
    case w': w
    then obtain c where c: "(p, c) \<in> L" "k \<le> c" using holdsD[OF h] by blast
    have "wf s' L"
      unfolding w'(4) by (rule wf_write[OF w c(1)]) (use w' c in \<open>auto simp: same_on_def\<close>)
    then show ?thesis using h w' by (auto simp: same_arena_def)
  qed
qed

lemma reach_wf:
  assumes "client_reach P req s0 x" "pristine s0"
  shows "\<exists>L. wf (fst x) L \<and> holds (snd x) L \<and> same_arena s0 (fst x)"
  using assms
proof (induction rule: client_reach.induct)
  case (cl_init s)
  then show ?case using init_ok[of s0] by (auto simp: holds_def)
next
  case (cl_step x y)
  then show ?case
    using step_wf[of "fst x" "snd x" "fst y" "snd y"] by (metis prod.collapse same_arena_trans)
qed

text \<open>Whatever the client does, its payloads stay aligned, inside the heap and disjoint.\<close>

lemma reach_safe:
  assumes r: "client_reach P req s0 (s, H)" and pr: "pristine s0" and p: "(p, k) \<in> H"
  shows "8 dvd p" "mem_start_brk s0 \<le> p" "p + k \<le> mem_brk s"
    "(q, l) \<in> H \<Longrightarrow> p \<noteq> q \<Longrightarrow> p + k \<le> q \<or> q + l \<le> p"
proof -
  obtain L where L: "wf s L" "holds H L" "same_arena s0 s"
    using reach_wf[OF r pr] by auto
  obtain c where c: "(p, c) \<in> L" "k \<le> c" using holdsD[OF L(2) p] by blast
  note b = wf_bounds[OF L(1) c(1)]
  show "8 dvd p" "mem_start_brk s0 \<le> p" "p + k \<le> mem_brk s"
    using b c L(3) by (auto simp: same_arena_def)
  assume q: "(q, l) \<in> H" "p \<noteq> q"
  then obtain d where "(q, d) \<in> L" "l \<le> d" using holdsD[OF L(2)] by blast
  then show "p + k \<le> q \<or> q + l \<le> p"
    using wf_disjoint[OF L(1) c(1)] q(2) c(2) by fastforce
qed

end

end
