(* ===== verification/Driver_Ranges.thy ===== *)
theory Driver_Ranges
  imports Driver Allocator
begin

text \<open>
  The bookkeeping of the driver for a package that keeps the contract: what the range list, the
  arrays of a trace and the heap have to do with each other (\<open>book\<close>, \<open>checked\<close>), and that
  \<open>add_range\<close> accepts every payload the contract allows.
\<close>

section \<open>The range list\<close>

lemma IS_ALIGNED_iff: "IS_ALIGNED p \<longleftrightarrow> 8 dvd p"
proof -
  have "uint ((word_of_int p :: u32) mod ALIGNMENT) = p mod 2 ^ 32 mod 8"
    by (simp add: c_const uint_mod uint_word_of_int)
  also have "\<dots> = p mod 8" by (rule mod_mod_cancel) (simp add: dvd_def)
  finally show ?thesis
    by (simp add: IS_ALIGNED_def word_uint_eq_iff dvd_eq_mod_eq_0)
qed

definition in_heap :: "mstate \<Rightarrow> addr \<Rightarrow> bool" where
  "in_heap s a \<longleftrightarrow> mem_start_brk s \<le> a \<and> a < mem_brk s"

definition disjoint_range :: "addr \<Rightarrow> addr \<Rightarrow> range_t \<Rightarrow> bool" where
  "disjoint_range l h p \<longleftrightarrow> h < lo p \<or> hi p < l"

text \<open>A payload that overlaps no recorded range passes; one that is refused is counted.\<close>

lemma add_range_ok:
  assumes "0 < sint sz" "8 dvd p" "mem_start_brk (heap d) \<le> p" "p + sint sz \<le> mem_brk (heap d)"
    and "\<forall>r\<in>set (ranges d). disjoint_range p (p + sint sz - 1) r" "\<forall>n. libc_ok d n"
  shows "add_range p sz d = Ret 1 (d\<lparr>libc_calls := libc_calls d + 1,
    ranges := \<lparr>lo = p, hi = p + sint sz - 1\<rparr> # ranges d\<rparr>)"
proof -
  have "\<not> (\<exists>r\<in>set (ranges d). (lo r \<le> p \<and> p \<le> hi r) \<or> (lo r \<le> p + sint sz - 1 \<and> p + sint sz - 1 \<le> hi r))"
    using assms(5,1) by (fastforce simp: disjoint_range_def)
  then show ?thesis
    using assms(1-4,6) by (auto simp: add_range_def Let_def IS_ALIGNED_iff mem_heap_lo_def mem_heap_hi_def)
qed

lemma remove_range_list_filter:
  "distinct (map lo rs) \<Longrightarrow> remove_range_list l rs = filter (\<lambda>r. lo r \<noteq> l) rs"
proof (induction rs)
  case (Cons r rs)
  have "lo r \<notin> lo ` set rs" using Cons.prems by simp
  then have "filter (\<lambda>q. lo q \<noteq> lo r) rs = rs" by (intro filter_True ballI) (metis imageI)
  then show ?case using Cons by auto
qed simp

lemma remove_range_set:
  assumes "distinct (map lo (ranges d))"
  shows "set (ranges (remove_range l d)) = {r \<in> set (ranges d). lo r \<noteq> l}"
    "distinct (map lo (ranges (remove_range l d)))"
    "heap (remove_range l d) = heap d" "trace (remove_range l d) = trace d"
    "errors (remove_range l d) = errors d" "libc_ok (remove_range l d) = libc_ok d"
proof -
  note f = remove_range_list_filter[OF assms]
  show "set (ranges (remove_range l d)) = {r \<in> set (ranges d). lo r \<noteq> l}"
    "distinct (map lo (ranges (remove_range l d)))"
    using assms by (auto simp: remove_range_def f distinct_map inj_on_def)
qed (simp_all add: remove_range_def)

section \<open>Well-formed traces\<close>

text \<open>
  \<open>good_ops req n re ids os\<close>: the requests \<open>os\<close> allocate free ids, free and reallocate only
  allocated ones, ask for sizes the contract covers, and use realloc only if \<open>re\<close>, for ids
  whose low byte reads as a non-negative \<open>char\<close>.
\<close>

fun good_ops :: "(size_t \<Rightarrow> bool) \<Rightarrow> int \<Rightarrow> bool \<Rightarrow> int list \<Rightarrow> traceop_t list \<Rightarrow> bool" where
  "good_ops req n re ids [] \<longleftrightarrow> True"
| "good_ops req n re ids (r # os) \<longleftrightarrow>
     (let i = sint (op_index r); sz = op_size r
      in case op_type r of
           ALLOC \<Rightarrow> 0 \<le> i \<and> i < n \<and> i \<notin> set ids \<and> 0 < sint sz \<and> req (scast sz)
             \<and> good_ops req n re (i # ids) os
         | REALLOC \<Rightarrow> re \<and> i \<in> set ids \<and> i mod 256 < 128 \<and> 0 < sint sz \<and> req (scast sz)
             \<and> good_ops req n re ids os
         | FREE \<Rightarrow> i \<in> set ids \<and> good_ops req n re (removeAll i ids) os)"

fun ops_cost :: "traceop_t list \<Rightarrow> int" where
  "ops_cost [] = 0"
| "ops_cost (r # os) = (if op_type r = FREE then 0 else cost (scast (op_size r))) + ops_cost os"

lemma ops_cost_nonneg: "0 \<le> ops_cost os"
proof (induction os)
  case (Cons r os)
  then show ?case using cost_pos[of "scast (op_size r)"] by auto
qed simp

lemma uint_scast_pos:
  assumes "0 < sint (sz :: c_int)"
  shows "uint (scast sz :: size_t) = sint sz"
proof -
  have "uint (scast sz :: size_t) = take_bit LENGTH(64) (sint sz)"
    unfolding scast_eq by (rule uint_word_of_int_eq)
  then show ?thesis using assms sint_lt[of sz] by (simp add: take_bit_int_eq_self)
qed

section \<open>Bookkeeping\<close>

text \<open>\<open>A\<close> maps each allocated id to its payload (address, capacity).\<close>

type_synonym book = "int \<rightharpoonup> addr \<times> int"

definition block_size :: "driver \<Rightarrow> int \<Rightarrow> int" where
  "block_size d i = uint (block_sizes (trace d) ! nat i)"

definition block_addr :: "driver \<Rightarrow> int \<Rightarrow> addr" where
  "block_addr d i = blocks (trace d) ! nat i"

definition arrays :: "driver \<Rightarrow> book \<Rightarrow> bool" where
  "arrays d A \<longleftrightarrow> length (block_sizes (trace d)) = length (blocks (trace d))
     \<and> (\<forall>i p c. A i = Some (p, c) \<longrightarrow> 0 \<le> i \<and> i < int (length (blocks (trace d)))
          \<and> block_addr d i = p \<and> 0 < block_size d i \<and> block_size d i \<le> c \<and> block_size d i < 2 ^ 31)
     \<and> (\<forall>i j p c e. A i = Some (p, c) \<longrightarrow> A j = Some (p, e) \<longrightarrow> i = j)"

definition id_byte :: "int \<Rightarrow> byte" where
  "id_byte i = ucast ((word_of_int i :: c_int) AND 0xFF)"

definition book_ranges :: "driver \<Rightarrow> book \<Rightarrow> range_t set" where
  "book_ranges d A = {\<lparr>lo = p, hi = p + block_size d i - 1\<rparr> | i p c. A i = Some (p, c)}"

definition recorded :: "driver \<Rightarrow> book \<Rightarrow> bool" where
  "recorded d A \<longleftrightarrow> distinct (map lo (ranges d)) \<and> set (ranges d) = book_ranges d A"

definition stamped :: "driver \<Rightarrow> book \<Rightarrow> bool" where
  "stamped d A \<longleftrightarrow> (\<forall>i p c j. A i = Some (p, c) \<longrightarrow> 0 \<le> j \<longrightarrow> j < block_size d i
     \<longrightarrow> mem (heap d) (p + j) = id_byte i)"

lemma arraysD:
  assumes "arrays d A"
  shows "length (block_sizes (trace d)) = length (blocks (trace d))"
    "A i = Some (p, c) \<Longrightarrow> 0 \<le> i \<and> i < int (length (blocks (trace d)))"
    "A i = Some (p, c) \<Longrightarrow> block_addr d i = p \<and> 0 < block_size d i \<and> block_size d i \<le> c \<and> block_size d i < 2 ^ 31"
    "A i = Some (p, c) \<Longrightarrow> A j = Some (p, e) \<Longrightarrow> i = j"
  using assms unfolding arrays_def by blast+

lemma arrays_cong: "trace d' = trace d \<Longrightarrow> arrays d' A = arrays d A"
  by (simp add: arrays_def block_addr_def block_size_def)

lemma book_ranges_cong: "trace d' = trace d \<Longrightarrow> book_ranges d' A = book_ranges d A"
  by (simp add: book_ranges_def block_size_def)

lemma arrays_del: "arrays d A \<Longrightarrow> arrays d (A(i := None))"
  unfolding arrays_def by (auto split: if_splits)

lemma del_iff:
  assumes a: "arrays d A" and i: "A i = Some (p, c)"
  shows "(A(i := None)) j = Some (q, e) \<longleftrightarrow> A j = Some (q, e) \<and> q \<noteq> p"
    "A j = Some (q, e) \<Longrightarrow> q = p \<longleftrightarrow> (q, e) = (p, c)"
proof -
  have u: "j = i" if "A j = Some (p, f)" for f using arraysD(4)[OF a i that] by simp
  show "(A(i := None)) j = Some (q, e) \<longleftrightarrow> A j = Some (q, e) \<and> q \<noteq> p"
  proof (cases "j = i")
    case True
    then show ?thesis using i by simp
  next
    case False
    then have "(A(i := None)) j = A j" by simp
    then show ?thesis using u False by metis
  qed
  show "q = p \<longleftrightarrow> (q, e) = (p, c)" if j: "A j = Some (q, e)"
  proof
    assume q: "q = p"
    then have "j = i" using u j by blast
    then show "(q, e) = (p, c)" using i j by simp
  qed simp
qed

lemma ran_del:
  assumes a: "arrays d A" and i: "A i = Some (p, c)"
  shows "ran (A(i := None)) = ran A - {(p, c)}" "(p, e) \<notin> ran (A(i := None))"
proof -
  have r1: "(q, f) \<in> ran (A(i := None)) \<longleftrightarrow> (q, f) \<in> ran A \<and> q \<noteq> p" for q f
    unfolding ran_def mem_Collect_eq del_iff(1)[OF a i] by blast
  have r2: "(q, f) \<in> ran A \<Longrightarrow> q = p \<longleftrightarrow> (q, f) = (p, c)" for q f
    unfolding ran_def using del_iff(2)[OF a i] by blast
  show "ran (A(i := None)) = ran A - {(p, c)}" "(p, e) \<notin> ran (A(i := None))"
    using r1 r2 by (auto simp del: fun_upd_apply)
qed

lemma book_ranges_del:
  assumes a: "arrays d A" and i: "A i = Some (p, c)"
  shows "book_ranges d (A(i := None)) = {r \<in> book_ranges d A. lo r \<noteq> p}"
  unfolding book_ranges_def del_iff(1)[OF a i] by auto blast

text \<open>Recording payload \<open>p\<close> of \<open>sz\<close> bytes under the id \<open>w\<close>.\<close>

definition stamp :: "c_int \<Rightarrow> c_int \<Rightarrow> addr \<Rightarrow> driver \<Rightarrow> driver" where
  "stamp w sz p d = set_block_size w sz (set_block w p (fill_heap p w sz d))"

lemma stamp_fields:
  "heap (stamp w sz p d) = heap (fill_heap p w sz d)" "ranges (stamp w sz p d) = ranges d"
  "errors (stamp w sz p d) = errors d" "libc_ok (stamp w sz p d) = libc_ok d"
  "trace (stamp w sz p d) = (trace d)\<lparr>blocks := (blocks (trace d))[nat (sint w) := p],
     block_sizes := (block_sizes (trace d))[nat (sint w) := scast sz]\<rparr>"
  by (simp_all add: stamp_def set_block_size_def set_block_def fill_heap_def)

lemma stamp_arrays:
  assumes a: "arrays d A" and i: "i = sint w" "0 \<le> i" "i < int (length (blocks (trace d)))" "A i = None"
    and z: "0 < sint sz" "sint sz \<le> c" and n: "\<And>e. (p, e) \<notin> ran A"
  shows "arrays (stamp w sz p d) (A(i \<mapsto> (p, c)))"
    "A j = Some (q, e) \<Longrightarrow> block_size (stamp w sz p d) j = block_size d j"
    "block_size (stamp w sz p d) i = sint sz"
proof -
  let ?d = "stamp w sz p d"
  note aD = arraysD[OF a]
  have ni: "nat (sint w) \<noteq> nat j" if "A j = Some (q, e)" for j q e
    using aD(2)[OF that] that i by (metis eq_nat_nat_iff option.distinct(1))
  show s1: "block_size ?d j = block_size d j" if "A j = Some (q, e)" for j q e
    using ni[OF that] by (simp add: block_size_def stamp_fields)
  have a1: "block_addr ?d j = block_addr d j" if "A j = Some (q, e)" for j q e
    using ni[OF that] by (simp add: block_addr_def stamp_fields)
  show s2: "block_size ?d i = sint sz"
    using i(2,3) aD(1) by (simp add: block_size_def stamp_fields i(1) uint_scast_pos[OF z(1)])
  have a2: "block_addr ?d i = p" using i(2,3) by (simp add: block_addr_def stamp_fields i(1))
  have z2: "sint sz < 2 ^ 31" using sint_lt[of sz] by simp
  have len: "length (blocks (trace ?d)) = length (blocks (trace d))"
    "length (block_sizes (trace ?d)) = length (blocks (trace ?d))"
    using aD(1) by (simp_all add: stamp_fields)
  have np: "A j \<noteq> Some (p, e)" for j e using n by (auto simp: ran_def)
  show "arrays ?d (A(i \<mapsto> (p, c)))"
    unfolding arrays_def
  proof (intro conjI allI impI)
    fix j q e assume "(A(i \<mapsto> (p, c))) j = Some (q, e)"
    then consider "j = i" "q = p" "e = c" | "j \<noteq> i" "A j = Some (q, e)"
      by (auto split: if_splits)
    then show "0 \<le> j" "j < int (length (blocks (trace ?d)))" "block_addr ?d j = q"
      "0 < block_size ?d j" "block_size ?d j \<le> e" "block_size ?d j < 2 ^ 31"
      using i z z2 s1 s2 a1 a2 aD(2)[of j q e] aD(3)[of j q e] len by (cases; simp)+
  next
    fix j k q e f assume "(A(i \<mapsto> (p, c))) j = Some (q, e)" "(A(i \<mapsto> (p, c))) k = Some (q, f)"
    then show "j = k" using aD(4)[of j q e k f] np by (auto split: if_splits)
  qed (rule len)
qed

end
