(* ===== verification/Driver_Valid.thy ===== *)
theory Driver_Valid
  imports Driver_Ranges
begin

text \<open>
  \<open>eval_mm_valid\<close> accepts every package that keeps the contract: on a well-formed trace that
  fits in the arena it returns 1 and counts no error. The proof follows the loop with the book
  of allocated ids.
\<close>

section \<open>The invariant of the loop\<close>

definition drv_frame :: "driver \<Rightarrow> driver \<Rightarrow> bool" where
  "drv_frame d d' \<longleftrightarrow> errors d' = errors d \<and> libc_ok d' = libc_ok d
     \<and> length (blocks (trace d')) = length (blocks (trace d))
     \<and> ops (trace d') = ops (trace d) \<and> num_ops (trace d') = num_ops (trace d)
     \<and> same_arena (heap d) (heap d')"

lemma drv_frame_refl: "drv_frame d d"
  by (simp add: drv_frame_def)

lemma drv_frame_trans: "drv_frame d d' \<Longrightarrow> drv_frame d' d'' \<Longrightarrow> drv_frame d d''"
  by (auto simp: drv_frame_def intro: same_arena_trans)

definition valid_inv :: "(mstate \<Rightarrow> (addr \<times> int) set \<Rightarrow> bool) \<Rightarrow> driver \<Rightarrow> book \<Rightarrow> bool" where
  "valid_inv W d A \<longleftrightarrow> W (heap d) (ran A) \<and> arrays d A \<and> recorded d A \<and> stamped d A"

lemma uint_low_byte: "uint ((w :: c_int) AND 0xFF) = uint w mod 256"
proof -
  have m: "(0xFF :: c_int) = mask 8" by (simp add: mask_numeral)
  show ?thesis unfolding m take_bit_eq_mask[symmetric] by (simp add: take_bit_eq_mod uint_mod)
qed

lemma id_byte_sint:
  assumes "i = sint (w :: c_int)" "i mod 256 < 128"
  shows "sint (id_byte i) = sint (w AND 0xFF)"
proof -
  have w: "word_of_int i = w" using assms(1) by simp
  have "uint w = i mod 2 ^ 32"
    unfolding w[symmetric] by (simp add: uint_word_of_int)
  then have "uint w mod 256 = i mod 256" by (simp add: mod_mod_cancel)
  then have u: "uint (w AND 0xFF) = i mod 256" by (simp add: uint_low_byte)
  then have ub: "uint (id_byte i) = i mod 256"
    by (simp add: id_byte_def w unsigned_ucast_eq take_bit_eq_mod)
  show ?thesis
    using u ub assms(2) sint_small[of "id_byte i"] sint_small[of "w AND 0xFF"] by simp
qed

section \<open>One request\<close>

text \<open>A payload \<open>p\<close> that the package has just returned for the id \<open>w\<close> is recorded.\<close>

context payloads
begin

lemma record_payload:
  assumes a: "arrays d A" and rec: "recorded d A" and st: "stamped d A"
    and w: "wf (heap d) (insert (p, c) (ran A))" and n: "\<And>e. (p, e) \<notin> ran A"
    and i: "i = sint w'" "0 \<le> i" "i < int (length (blocks (trace d)))" "A i = None"
    and z: "0 < sint sz" "sint sz \<le> c" and ok: "\<forall>n. libc_ok d n"
  shows "\<exists>d1. add_range p sz d = Ret 1 d1 \<and> valid_inv wf (stamp w' sz p d1) (A(i \<mapsto> (p, c)))
    \<and> drv_frame d (stamp w' sz p d1) \<and> index_ok w' d1 \<and> heap d1 = heap d \<and> trace d1 = trace d
    \<and> mem_brk (heap (stamp w' sz p d1)) = mem_brk (heap d)"
proof -
  let ?A = "A(i \<mapsto> (p, c))"
  let ?d1 = "d\<lparr>libc_calls := libc_calls d + 1, ranges := \<lparr>lo = p, hi = p + sint sz - 1\<rparr> # ranges d\<rparr>"
  let ?d2 = "stamp w' sz p ?d1"
  note aD = arraysD[OF a]
  have pc: "(p, c) \<in> insert (p, c) (ran A)" by simp
  note b = wf_bounds[OF w pc]
  have far: "p + c + 8 \<le> q \<or> q + e + 8 \<le> p" if "A j = Some (q, e)" for j q e
  proof -
    have "(q, e) \<in> ran A" using that by (auto simp: ran_def)
    then show ?thesis using wf_disjoint[OF w pc, of q e] n by auto
  qed
  have "disjoint_range p (p + sint sz - 1) r" if "r \<in> set (ranges d)" for r
    using that rec far aD(3) z(2) by (fastforce simp: recorded_def book_ranges_def disjoint_range_def)
  then have ar: "add_range p sz d = Ret 1 ?d1"
    using b z ok by (intro add_range_ok) auto
  have a1: "arrays ?d1 A" using a arrays_cong[of ?d1 d] by simp
  have i3: "i < int (length (blocks (trace ?d1)))" using i(3) by simp
  note sa = stamp_arrays[OF a1 i(1,2) i3 i(4) z n]
  have bs: "block_size ?d2 j = block_size d j" if "A j = Some (q, e)" for j q e
    using sa(2)[OF that] by (simp add: block_size_def)
  have m2: "mem (heap ?d2) = memset (mem (heap d)) p (id_byte i) (sint sz)"
    using i(1) by (simp add: stamp_fields fill_heap_def id_byte_def)
  have h2: "heap ?d2 = (heap d)\<lparr>mem := mem (heap ?d2)\<rparr>"
    by (simp add: stamp_fields fill_heap_def)
  have rA: "ran ?A = insert (p, c) (ran A)" using i(4) by (rule ran_map_upd)
  have w2: "wf (heap ?d2) (ran ?A)"
    unfolding rA by (subst h2) (rule wf_write[OF w pc], unfold m2, rule same_on_memset, use z in auto)
  have "stamped ?d2 ?A"
    unfolding stamped_def
  proof (intro allI impI)
    fix j q e k assume j: "?A j = Some (q, e)" "0 \<le> k" "k < block_size ?d2 j"
    show "mem (heap ?d2) (q + k) = id_byte j"
    proof (cases "j = i")
      case True
      then show ?thesis using j sa(3) unfolding m2 by (simp add: memset_def)
    next
      case False
      then have A: "A j = Some (q, e)" using j(1) by simp
      then have "k < block_size d j" "block_size d j \<le> e" using j(3) bs aD(3) by auto
      then have "mem (heap ?d2) (q + k) = mem (heap d) (q + k)"
        using far[OF A] z j(2) unfolding m2 by (auto simp: memset_def)
      then show ?thesis using st A j(2) \<open>k < block_size d j\<close> by (simp add: stamped_def)
    qed
  qed
  moreover have "recorded ?d2 ?A"
  proof -
    have br: "book_ranges ?d2 ?A = insert \<lparr>lo = p, hi = p + sint sz - 1\<rparr> (book_ranges d A)"
      (is "?L = insert ?r ?R")
    proof (intro set_eqI iffI)
      fix r assume "r \<in> ?L"
      then obtain j q e where j: "?A j = Some (q, e)" "r = \<lparr>lo = q, hi = q + block_size ?d2 j - 1\<rparr>"
        unfolding book_ranges_def by blast
      show "r \<in> insert ?r ?R"
      proof (cases "j = i")
        case True
        then show ?thesis using j sa(3) by (metis fun_upd_same insertI1 option.inject prod.inject)
      next
        case False
        then have A: "A j = Some (q, e)" using j(1) by simp
        then show ?thesis using j(2) bs[OF A] by (auto simp: book_ranges_def)
      qed
    next
      fix r assume "r \<in> insert ?r ?R"
      then consider "r = ?r" | j q e where "A j = Some (q, e)" "r = \<lparr>lo = q, hi = q + block_size d j - 1\<rparr>"
        unfolding book_ranges_def by blast
      then show "r \<in> ?L"
      proof cases
        case 1
        have "?A i = Some (p, c)" by simp
        then show ?thesis unfolding book_ranges_def 1 using sa(3) by (metis (mono_tags, lifting) mem_Collect_eq)
      next
        case (2 j q e)
        then have "?A j = Some (q, e)" using i(4) by auto
        then show ?thesis unfolding book_ranges_def 2(2) using bs[OF 2(1)] by (metis (mono_tags, lifting) mem_Collect_eq)
      qed
    qed
    have "p \<noteq> lo r" if "r \<in> book_ranges d A" for r
      using that n by (auto simp: book_ranges_def ran_def)
    then show ?thesis using rec br by (auto simp: recorded_def stamp_fields)
  qed
  ultimately have "valid_inv wf ?d2 ?A" using w2 sa(1) by (simp add: valid_inv_def)
  moreover have "drv_frame d ?d2"
    by (simp add: drv_frame_def stamp_fields fill_heap_def same_arena_def)
  moreover have "index_ok w' ?d1" using i aD(1) by (simp add: index_ok_def in_array_def)
  moreover have "mem_brk (heap ?d2) = mem_brk (heap d)" by (simp add: stamp_fields fill_heap_def)
  ultimately show ?thesis using ar by auto
qed

end

lemma stamped_keeps:
  assumes "stamped d A" "arrays d A" "keeps (mem (heap d)) (mem s') (ran B)" "B \<subseteq>\<^sub>m A"
  shows "stamped (d\<lparr>heap := s'\<rparr>) B"
  unfolding stamped_def
proof (intro allI impI)
  fix i p c j assume i: "B i = Some (p, c)" "0 \<le> j" "j < block_size (d\<lparr>heap := s'\<rparr>) i"
  have A: "A i = Some (p, c)" using i(1) assms(4) by (metis domI map_le_def)
  have j: "j < block_size d i" using i(3) by (simp add: block_size_def)
  have "(p, c) \<in> ran B" using i(1) by (auto simp: ran_def)
  then have "same_on {p..<p + c} (mem (heap d)) (mem s')" using assms(3) by (auto simp: keeps_def)
  moreover have "block_size d i \<le> c" using arraysD(3)[OF assms(2) A] by simp
  ultimately have "mem s' (p + j) = mem (heap d) (p + j)" using i(2) j by (simp add: same_on_def)
  then show "mem (heap (d\<lparr>heap := s'\<rparr>)) (p + j) = id_byte i"
    using assms(1) A i(2) j by (simp add: stamped_def)
qed

lemma recorded_heap: "recorded (d\<lparr>heap := s'\<rparr>) A = recorded d A"
  by (simp add: recorded_def book_ranges_def block_size_def)

lemma recorded_remove:
  assumes "recorded d A" "arrays d A" "A i = Some (p, c)"
  shows "recorded (remove_range p d) (A(i := None))"
  using assms(1) remove_range_set[of d p] book_ranges_del[OF assms(2,3)]
    book_ranges_cong[of "remove_range p d" d "A(i := None)"]
  by (simp add: recorded_def del: fun_upd_apply)

lemma arr_get_block:
  assumes "arrays d A" "A i = Some (p, c)" "i = sint w"
  shows "arr_get (blocks (trace d)) w = p" "uint (arr_get (block_sizes (trace d)) w) = block_size d i"
    "index_ok w d" "in_array w (blocks (trace d))"
  using arraysD[OF assms(1)] assms(2,3)
  by (auto simp: arr_get_def block_addr_def block_size_def index_ok_def in_array_def)

lemma sint_ucast_small:
  assumes "uint (x :: size_t) < 2 ^ 31"
  shows "sint (ucast x :: c_int) = uint x"
proof -
  have "uint (ucast x :: c_int) = uint x" using assms by (simp add: unsigned_ucast_eq take_bit_int_eq_self)
  then show ?thesis using assms sint_small[of "ucast x :: c_int"] by simp
qed

context allocator
begin

lemma valid_alloc_ok:
  assumes inv: "valid_inv wf d A" and ok: "\<forall>n. libc_ok d n" and rm: "room (cost (scast sz)) (heap d)"
    and i: "i = sint w" "0 \<le> i" "i < int (length (blocks (trace d)))" "A i = None"
    and z: "0 < sint sz" "req (scast sz)"
  shows "\<exists>d' p c. valid_alloc P w sz d = Ret None d' \<and> valid_inv wf d' (A(i \<mapsto> (p, c))) \<and> drv_frame d d'
    \<and> mem_brk (heap d') \<le> mem_brk (heap d) + cost (scast sz)"
proof -
  have v: "wf (heap d) (ran A)" "arrays d A" "recorded d A" "stamped d A"
    using inv by (auto simp: valid_inv_def)
  obtain p s' where p: "pkg_malloc P (scast sz) (heap d) = Some (p, s')" "p \<noteq> NULL"
    using malloc_ok[OF v(1) z(2)] rm by (metis (full_types))
  then obtain c where c: "sint sz \<le> c" "\<And>e. (p, e) \<notin> ran A" "wf s' (insert (p, c) (ran A))"
    "keeps (mem (heap d)) (mem s') (ran A)" "same_arena (heap d) s'" "mem_brk s' \<le> mem_brk (heap d) + cost (scast sz)"
    using malloc_ok[OF v(1) z(2)] by (auto simp: uint_scast_pos[OF z(1)])
  let ?d = "d\<lparr>heap := s'\<rparr>"
  have "arrays ?d A" using v(2) arrays_cong[of ?d d] by simp
  moreover have "recorded ?d A" using v(3) by (simp add: recorded_heap)
  moreover have "stamped ?d A" by (rule stamped_keeps[OF v(4,2) c(4)]) simp
  ultimately obtain d1 where d1: "add_range p sz ?d = Ret 1 d1" "valid_inv wf (stamp w sz p d1) (A(i \<mapsto> (p, c)))"
    "drv_frame ?d (stamp w sz p d1)" "index_ok w d1" "trace d1 = trace ?d" "heap d1 = s'"
    "mem_brk (heap (stamp w sz p d1)) = mem_brk s'"
    using record_payload[of ?d A p c i w sz] c(1-3) i z(1) ok by auto
  have "index_ok w (fill_heap p w sz d1)"
    using d1(4) by (simp add: index_ok_def fill_heap_def)
  then have "valid_alloc P w sz d = Ret None (stamp w sz p d1)"
    using p d1(1) by (simp add: valid_alloc_def stamp_def Let_def)
  moreover have "drv_frame d (stamp w sz p d1)"
    using d1(3) c(5) by (auto simp: drv_frame_def intro: same_arena_trans)
  ultimately show ?thesis using d1(2,7) c(6) by (intro exI[of _ "stamp w sz p d1"]) auto
qed

lemma valid_free_ok:
  assumes inv: "valid_inv wf d A" and i: "i = sint w" "i \<in> dom A"
  shows "\<exists>d'. valid_free P w d = Ret None d' \<and> valid_inv wf d' (A(i := None)) \<and> drv_frame d d'
    \<and> mem_brk (heap d') = mem_brk (heap d)"
proof -
  have v: "wf (heap d) (ran A)" "arrays d A" "recorded d A" "stamped d A"
    using inv by (auto simp: valid_inv_def)
  obtain p c where p: "A i = Some (p, c)" using i(2) by auto
  then have "(p, c) \<in> ran A" by (auto simp: ran_def)
  note f = free_ok[OF v(1) this]
  let ?d = "remove_range p (d\<lparr>heap := pkg_free P p (heap d)\<rparr>)"
  note rD = ran_del[OF v(2) p] and g = arr_get_block[OF v(2) p i(1)]
  have "valid_free P w d = Ret None ?d"
    using g by (simp add: valid_free_def remove_range_def)
  moreover have "arrays ?d (A(i := None))"
    using arrays_del[OF v(2)] arrays_cong[of ?d d] by (simp add: remove_range_def)
  moreover have "recorded ?d (A(i := None))"
    using recorded_remove[of "d\<lparr>heap := pkg_free P p (heap d)\<rparr>" A i p c] v(2,3) p
      arrays_cong[of "d\<lparr>heap := pkg_free P p (heap d)\<rparr>" d] by (simp add: recorded_heap)
  moreover have "stamped ?d (A(i := None))"
    using stamped_keeps[OF v(4,2), of "pkg_free P p (heap d)" "A(i := None)"] f rD(1)
    by (simp add: remove_range_def stamped_def block_size_def map_le_def)
  ultimately show ?thesis
    using f rD(1) by (auto simp: valid_inv_def drv_frame_def remove_range_def)
qed

lemma valid_realloc_ok:
  assumes inv: "valid_inv wf d A" and ok: "\<forall>n. libc_ok d n" and rm: "room (cost (scast sz)) (heap d)"
    and i: "i = sint w" "i \<in> dom A" "i mod 256 < 128" and z: "0 < sint sz" "req (scast sz)"
    and tot: "\<forall>p c. (p, c) \<in> ran A \<longrightarrow> (\<exists>q s'. pkg_realloc P p (scast sz) (heap d) = Some (q, s') \<and> q \<noteq> NULL)"
  shows "\<exists>d' q c'. valid_realloc P w sz d = Ret None d' \<and> valid_inv wf d' (A(i \<mapsto> (q, c')))
    \<and> drv_frame d d' \<and> mem_brk (heap d') \<le> mem_brk (heap d) + cost (scast sz)"
proof -
  have v: "wf (heap d) (ran A)" "arrays d A" "recorded d A" "stamped d A"
    using inv by (auto simp: valid_inv_def)
  obtain p c where p: "A i = Some (p, c)" using i(2) by auto
  then have pr: "(p, c) \<in> ran A" by (auto simp: ran_def)
  obtain q s' where q: "pkg_realloc P p (scast sz) (heap d) = Some (q, s')" "q \<noteq> NULL"
    using tot pr by blast
  note rD = ran_del[OF v(2) p] and g = arr_get_block[OF v(2) p i(1)] and aD = arraysD[OF v(2)]
  let ?A = "A(i := None)" and ?n = "uint (scast sz :: size_t)"
  obtain c' where c': "sint sz \<le> c'" "\<And>e. (q, e) \<notin> ran ?A" "wf s' (insert (q, c') (ran ?A))"
    "keeps (mem (heap d)) (mem s') (ran ?A)" "moved (mem (heap d)) (mem s') p q (min c (sint sz))"
    "same_arena (heap d) s'" "mem_brk s' \<le> mem_brk (heap d) + cost (scast sz)"
    using realloc_ok[OF v(1) pr z(2) rm q] unfolding rD(1) uint_scast_pos[OF z(1)] by blast
  let ?e = "d\<lparr>heap := s'\<rparr>"
  let ?d = "remove_range p ?e"
  have tr: "trace ?d = trace d" "heap ?d = s'" "libc_ok ?d = libc_ok d" "errors ?d = errors d"
    by (simp_all add: remove_range_def)
  have "arrays ?d ?A" using arrays_del[OF v(2)] arrays_cong[OF tr(1)] by simp
  moreover have "recorded ?d ?A"
    using recorded_remove[of ?e A i p c] v(2,3) p arrays_cong[of ?e d] by (simp add: recorded_heap)
  moreover have "stamped ?d ?A"
    using stamped_keeps[OF v(4,2) c'(4)]
    by (simp add: remove_range_def stamped_def block_size_def map_le_def)
  ultimately obtain d1 where d1: "add_range q sz ?d = Ret 1 d1" "valid_inv wf (stamp w sz q d1) (?A(i \<mapsto> (q, c')))"
    "drv_frame ?d (stamp w sz q d1)" "trace d1 = trace d" "heap d1 = s'"
    "mem_brk (heap (stamp w sz q d1)) = mem_brk s'"
    using record_payload[of ?d ?A q c' i w sz] c'(1-3) i(1) aD(2)[OF p] z(1) ok tr by auto
  have bsz: "block_size d i \<le> c" "block_size d i < 2 ^ 31" using aD(3)[OF p] by auto
  let ?o = "ucast (arr_get (block_sizes (trace d1)) w) :: c_int"
  have o: "sint ?o = block_size d i"
    using sint_ucast_small[of "arr_get (block_sizes (trace d1)) w"] g(2) bsz(2) d1(4) by simp
  have "data_kept q w (sint (if sint sz < sint ?o then sz else ?o)) d1"
    unfolding data_kept_def
  proof
    fix j assume "j \<in> set [0..sint (if sint sz < sint ?o then sz else ?o) - 1]"
    then have j: "0 \<le> j" "j < block_size d i" "j < sint sz" using o by (auto split: if_splits)
    then have "mem s' (q + j) = mem (heap d) (p + j)" using c'(5) bsz(1) by (simp add: moved_def)
    also have "\<dots> = id_byte i" using v(4) p j by (simp add: stamped_def)
    finally show "sint (mem (heap d1) (q + j)) = sint (w AND 0xFF)"
      using id_byte_sint[OF i(1,3)] d1(5) by simp
  qed
  then have "valid_realloc P w sz d = Ret None (stamp w sz q d1)"
    using g q d1(1) by (simp add: valid_realloc_def stamp_def Let_def)
  moreover have "drv_frame d (stamp w sz q d1)"
    using d1(3) c'(6) tr by (auto simp: drv_frame_def intro: same_arena_trans)
  ultimately show ?thesis using d1(2,6) c'(7) by (intro exI[of _ "stamp w sz q d1"]) auto
qed

end

section \<open>A whole trace\<close>

text \<open>Realloc of an allocated payload succeeds while there is room for a new one.\<close>

definition realloc_succeeds :: "(mstate \<Rightarrow> (addr \<times> int) set \<Rightarrow> bool) \<Rightarrow> mm_pkg \<Rightarrow> (size_t \<Rightarrow> bool) \<Rightarrow> bool" where
  "realloc_succeeds W P req \<longleftrightarrow> (\<forall>s L p c n. W s L \<longrightarrow> (p, c) \<in> L \<longrightarrow> req n \<longrightarrow> room (cost n) s \<longrightarrow>
     (\<exists>q s'. pkg_realloc P p n s = Some (q, s') \<and> q \<noteq> NULL))"

definition trace_ok :: "(size_t \<Rightarrow> bool) \<Rightarrow> bool \<Rightarrow> int \<Rightarrow> driver \<Rightarrow> bool" where
  "trace_ok req re k d \<longleftrightarrow> length (block_sizes (trace d)) = length (blocks (trace d))
     \<and> sint (num_ops (trace d)) = int (length (ops (trace d)))
     \<and> good_ops req (int (length (blocks (trace d)))) re [] (ops (trace d))
     \<and> k + ops_cost (ops (trace d)) \<le> MAX_HEAP"

lemma room_step:
  assumes "room (k + m) s" "same_arena s s'" "mem_brk s' \<le> mem_brk s + k"
  shows "room m s'"
  using assms by (simp add: room_def same_arena_def)

lemma room_mono: "room k s \<Longrightarrow> m \<le> k \<Longrightarrow> room m s"
  by (simp add: room_def)

context allocator
begin

lemma valid_run:
  assumes "good_ops req (int (length (blocks (trace d)))) re ids os" "valid_inv wf d A" "dom A = set ids"
    and "\<forall>n. libc_ok d n" "room (ops_cost os) (heap d)" "re \<longrightarrow> realloc_succeeds wf P req"
  shows "\<exists>d' A'. for_ops (valid_op P) (length os) os d = Ret None d' \<and> valid_inv wf d' A' \<and> drv_frame d d'"
  using assms
proof (induction os arbitrary: ids d A)
  case Nil
  then show ?case using drv_frame_refl by auto
next
  case (Cons r os)
  let ?w = "op_index r" and ?i = "sint (op_index r)" and ?z = "op_size r"
  have next_step: ?case
    if st: "valid_op P r d = Ret None d1" "valid_inv wf d1 A1" "drv_frame d d1"
      "mem_brk (heap d1) \<le> mem_brk (heap d) + (ops_cost (r # os) - ops_cost os)"
      "dom A1 = set ids1" "good_ops req (int (length (blocks (trace d)))) re ids1 os" for d1 A1 ids1
  proof -
    have fr: "length (blocks (trace d1)) = length (blocks (trace d))" "libc_ok d1 = libc_ok d"
      "same_arena (heap d) (heap d1)" using st(3) by (auto simp: drv_frame_def)
    have "room (ops_cost os) (heap d1)"
      by (rule room_step[OF _ fr(3) st(4)]) (use Cons.prems(5) in simp)
    then obtain d' A' where "for_ops (valid_op P) (length os) os d1 = Ret None d'" "valid_inv wf d' A'" "drv_frame d1 d'"
      using Cons.IH[of d1 ids1 A1] st(2,5,6) fr(1,2) Cons.prems(4,6) by auto
    then show ?thesis using st(1,3) drv_frame_trans by auto
  qed
  have rm: "op_type r \<noteq> FREE \<Longrightarrow> room (cost (scast ?z)) (heap d)"
    using Cons.prems(5) ops_cost_nonneg[of os] by (auto intro: room_mono)
  show ?case
  proof (cases "op_type r")
    case ALLOC
    then have g: "0 \<le> ?i" "?i < int (length (blocks (trace d)))" "?i \<notin> set ids" "0 < sint ?z" "req (scast ?z)"
      "good_ops req (int (length (blocks (trace d)))) re (?i # ids) os"
      using Cons.prems(1) by (auto simp: Let_def)
    have none: "A ?i = None" using g(3) Cons.prems(3) by auto
    obtain d' p c where "valid_alloc P ?w ?z d = Ret None d'" "valid_inv wf d' (A(?i \<mapsto> (p, c)))" "drv_frame d d'"
      "mem_brk (heap d') \<le> mem_brk (heap d) + cost (scast ?z)"
      using valid_alloc_ok[OF Cons.prems(2,4) rm refl g(1,2) none g(4,5)] ALLOC by auto
    then show ?thesis
      using next_step[of d' "A(?i \<mapsto> (p, c))" "?i # ids"] ALLOC g(6) Cons.prems(3) by (simp add: valid_op_def)
  next
    case FREE
    then have g: "?i \<in> set ids" "good_ops req (int (length (blocks (trace d)))) re (removeAll ?i ids) os"
      using Cons.prems(1) by (auto simp: Let_def)
    have "?i \<in> dom A" using g(1) Cons.prems(3) by simp
    from valid_free_ok[OF Cons.prems(2) refl this]
    obtain d' where "valid_free P ?w d = Ret None d'" "valid_inv wf d' (A(?i := None))" "drv_frame d d'"
      "mem_brk (heap d') = mem_brk (heap d)" by blast
    then show ?thesis
      using next_step[of d' "A(?i := None)" "removeAll ?i ids"] FREE g(2) Cons.prems(3) by (simp add: valid_op_def)
  next
    case REALLOC
    then have g: "re" "?i \<in> set ids" "?i mod 256 < 128" "0 < sint ?z" "req (scast ?z)"
      "good_ops req (int (length (blocks (trace d)))) re ids os"
      using Cons.prems(1) by (auto simp: Let_def)
    have dom: "?i \<in> dom A" using g(2) Cons.prems(3) by simp
    have w: "wf (heap d) (ran A)" using Cons.prems(2) by (simp add: valid_inv_def)
    have rm': "room (cost (scast ?z)) (heap d)" using rm REALLOC by simp
    have tot: "\<forall>p c. (p, c) \<in> ran A \<longrightarrow>
        (\<exists>q s'. pkg_realloc P p (scast ?z) (heap d) = Some (q, s') \<and> q \<noteq> NULL)"
      using Cons.prems(6)[unfolded realloc_succeeds_def] g(1,5) w rm' by blast
    obtain d' q c' where "valid_realloc P ?w ?z d = Ret None d'" "valid_inv wf d' (A(?i \<mapsto> (q, c')))" "drv_frame d d'"
      "mem_brk (heap d') \<le> mem_brk (heap d) + cost (scast ?z)"
      using valid_realloc_ok[OF Cons.prems(2,4) rm' refl dom g(3-5) tot] by blast
    moreover have "dom (A(?i \<mapsto> (q, c'))) = set ids" using dom Cons.prems(3) by auto
    ultimately show ?thesis
      using next_step[of d' "A(?i \<mapsto> (q, c'))" ids] REALLOC g(6) by (simp add: valid_op_def)
  qed
qed

lemma eval_mm_valid_from:
  assumes t: "trace_ok req re ovh d" and re: "re \<longrightarrow> realloc_succeeds wf P req" and ok: "\<forall>n. libc_ok d n"
    and s': "pkg_init P (mem_reset_brk (heap d)) = (0, s')" "wf s' {}"
      "same_arena (heap d) s'" "mem_brk s' = mem_start_brk (heap d) + ovh"
  shows "\<exists>d' L. eval_mm_valid P d = Ret 1 d' \<and> drv_frame d d' \<and> wf (heap d') L
    \<and> length (block_sizes (trace d')) = length (blocks (trace d'))"
proof -
  let ?d = "d\<lparr>ranges := [], heap := s'\<rparr>"
  note tr = t[unfolded trace_ok_def]
  have "mem_max_addr s' = mem_start_brk s' + MAX_HEAP" using wf_mem[OF s'(2)] by (simp add: mem_wf_def)
  then have "room (ops_cost (ops (trace d))) (heap ?d)"
    using tr s'(3,4) by (simp add: room_def same_arena_def)
  moreover have "valid_inv wf ?d Map.empty"
    using s'(2) tr by (simp add: valid_inv_def arrays_def recorded_def book_ranges_def stamped_def)
  ultimately obtain d' A' where d': "for_ops (valid_op P) (length (ops (trace d))) (ops (trace d)) ?d = Ret None d'"
    "valid_inv wf d' A'" "drv_frame ?d d'"
    using valid_run[of ?d re "[]" "ops (trace d)" Map.empty] tr ok re by auto
  have "nat (sint (num_ops (trace d))) = length (ops (trace d))" using tr by simp
  then have "eval_mm_valid P d = Ret 1 d'"
    using d'(1) s'(1) by (simp add: eval_mm_valid_def clear_ranges_def Let_def)
  moreover have "drv_frame d d'" using d'(3) s'(3) by (auto simp: drv_frame_def intro: same_arena_trans)
  ultimately show ?thesis using d'(2) by (auto simp: valid_inv_def dest: arraysD(1))
qed

lemma eval_mm_valid_ok:
  assumes t: "trace_ok req re ovh d" and re: "re \<longrightarrow> realloc_succeeds wf P req"
    and pr: "pristine (mem_reset_brk (heap d))" and ok: "\<forall>n. libc_ok d n"
  shows "\<exists>d'. eval_mm_valid P d = Ret 1 d' \<and> errors d' = errors d"
proof -
  obtain s' where "pkg_init P (mem_reset_brk (heap d)) = (0, s')" "wf s' {}"
    "same_arena (mem_reset_brk (heap d)) s'" "mem_brk s' = mem_start_brk (mem_reset_brk (heap d)) + ovh"
    using init_ok[OF pr] by blast
  then show ?thesis
    using eval_mm_valid_from[OF t re ok, of s'] by (auto simp: drv_frame_def same_arena_def mem_reset_brk_def)
qed

end

context reliable_allocator
begin

lemma realloc_succeeds: "realloc_succeeds wf P req"
  using realloc_total by (auto simp: realloc_succeeds_def)

lemmas eval_mm_valid_realloc = eval_mm_valid_ok[where re = True, OF _ impI[OF realloc_succeeds]]

end

end
