(* ===== verification/Segregate_Malloc.thy ===== *)
theory Segregate_Malloc
  imports Segregate_Alloc
begin

text \<open>
  The search of the segregated allocator: taking a block from its list, the walk through the
  slots, and malloc.
\<close>

section \<open>Taking a block\<close>

lemma live_merge_free:
  assumes "around m ft q xs t a ys"
  shows "live (ft + 104) (merge_free xs t ys) = live (ft + 104) xs \<union> live (q + t) ys"
  unfolding around_live(1)[OF assms] merge_free_keep using aroundD(2,15)[OF assms] by (simp add: algebra_simps)

text \<open>The specification: the block at \<open>p\<close> leaves its list and is cut to \<open>n\<close> bytes.\<close>

definition atake :: "addr \<Rightarrow> int \<Rightarrow> addr \<Rightarrow> block list \<times> freelists \<Rightarrow> block list \<times> freelists" where
  "atake base n p = (\<lambda>(bs, fl). case split_at base p bs of
      (xs, (t, _) # ys) \<Rightarrow>
        if 16 \<le> t - n
        then (merge_free (xs @ [(n, True)]) (t - n) ys, ainsert (p + n) (xs @ [(n, True)]) (t - n) ys (adel p t fl))
        else (xs @ (t, True) # ys, adel p t fl)
    | _ \<Rightarrow> (bs, fl))"

lemma frees_without:
  assumes "blks_ok (xs @ (t, False) # ys)" "p = base + total xs" "8 \<le> t"
  shows "frees base (xs @ (t, False) # ys) - {(p, t)} = frees base xs \<union> frees (p + t) ys"
proof -
  have "(p, t) \<notin> frees base xs" using frees_below[of xs p t base] assms by fastforce
  moreover have "(p, t) \<notin> frees (p + t) ys" using frees_below[of ys p t "p + t"] assms by fastforce
  ultimately show ?thesis using assms(2) by auto
qed

text \<open>Cutting a block and giving the rest to the free lists.\<close>

lemma cut_insert_spec:
  assumes e: "freelist_table s = ft" and h: "sheap (mem s) ft (xs @ (t, a) # ys)" and p: "p = ft + 104 + total xs"
    and l: "lists_ok (mem s) ft fl (frees (ft + 104) xs \<union> frees (p + t) ys)"
    and n: "16 \<le> n" "16 \<le> t - n" "8 dvd n"
  defines "bs' \<equiv> merge_free (xs @ [(n, True)]) (t - n) ys"
  shows "\<exists>m'. freelist_insert (p + n) (s\<lparr>mem := puts (mem s) p [(n, True), (t - n, False)]\<rparr>) = s\<lparr>mem := m'\<rparr>
    \<and> sheap m' ft bs' \<and> lists_ok m' ft (ainsert (p + n) (xs @ [(n, True)]) (t - n) ys fl) (frees (ft + 104) bs')
    \<and> keeps (mem s) m' (live (ft + 104) xs \<union> live (p + t) ys) \<and> same_on {p..<p + n - 8} (mem s) m'
    \<and> live (ft + 104) bs' = insert (p, n - 8) (live (ft + 104) xs \<union> live (p + t) ys)"
proof -
  let ?mid = "[(n, True), (t - n, False)]" and ?m2 = "puts (mem s) p [(n, True), (t - n, False)]"
  let ?xs = "xs @ [(n, True)]" and ?s = "s\<lparr>mem := puts (mem s) p [(n, True), (t - n, False)]\<rparr>"
  have h': "sheap (mem s) ft (xs @ [(t, a)] @ ys)" using h by simp
  have "sz_ok t" using sheapD(2)[OF h] by simp
  then have ok: "sz_ok n" "sz_ok (t - n)" using n by (auto simp: sz_ok_def)
  have okm: "blks_ok ?mid" "big ?mid" using ok n by simp_all
  have tab: "total [(t, a)] = t" and tt: "total ?mid = total [(t, a)]" by simp_all
  have o: "same_on (- {p - 4..<p + total [(t, a)] - 4}) (mem s) ?m2"
    using same_on_puts[OF okm(1), of p "mem s"] by simp
  note r = sheap_replace[OF h' p o tt seg_puts[OF okm(1)] okm(2), unfolded tab]
  have ar: "around ?m2 ft (p + n) ?xs (t - n) False ys" using r(1) p by (simp add: around_def)
  have l2: "lists_ok ?m2 ft fl (frees (ft + 104) ?xs \<union> frees (p + n + (t - n)) ys)" using r(3)[OF l] by simp
  have e': "mem ?s = ?m2" "freelist_table ?s = ft" using e by simp_all
  obtain m' where m': "freelist_insert (p + n) ?s = ?s\<lparr>mem := m'\<rparr>" "sheap m' ft bs'"
    "lists_ok m' ft (ainsert (p + n) ?xs (t - n) ys fl) (frees (ft + 104) bs')"
    "keeps ?m2 m' (live (ft + 104) ?xs \<union> live (p + n + (t - n)) ys)"
    using freelist_insert_spec[of ?s, unfolded e', OF ar l2] unfolding bs'_def by blast
  have lv: "live (ft + 104) ?xs = insert (p, n - 8) (live (ft + 104) xs)" using p by auto
  have "keeps ?m2 m' (live (ft + 104) xs \<union> live (p + t) ys)"
    by (rule keeps_subset[OF m'(4)]) (use lv in auto)
  then have "keeps (mem s) m' (live (ft + 104) xs \<union> live (p + t) ys)" using r(2) by (rule keeps_trans[rotated])
  moreover have "same_on {p..<p + n - 8} (mem s) m'"
  proof (rule same_on_trans)
    show "same_on {p..<p + n - 8} (mem s) ?m2"
      using n by (auto intro!: same_on_trans[OF same_on_put same_on_put])
    have "(p, n - 8) \<in> live (ft + 104) ?xs \<union> live (p + n + (t - n)) ys" using lv by simp
    then show "same_on {p..<p + n - 8} ?m2 m'" using keepsD[OF m'(4), of p "n - 8" "n - 8"] by (simp add: algebra_simps)
  qed
  moreover have "live (ft + 104) bs' = insert (p, n - 8) (live (ft + 104) xs \<union> live (p + t) ys)"
    unfolding bs'_def live_merge_free[OF ar] lv by simp
  ultimately show ?thesis using m'(1-3) by auto
qed

lemma freelist_take_spec:
  assumes inv: "seg_inv s bs fl" and b: "bs = xs @ (t, False) # ys" "p = sbase s + total xs"
    and n: "uint nsize = n" "16 \<le> n" "n \<le> t" "8 dvd n" and res: "atake (sbase s) n p (bs, fl) = (bs', fl')"
  shows "\<exists>m' c. freelist_take p nsize s = s\<lparr>mem := m'\<rparr> \<and> seg_inv (s\<lparr>mem := m'\<rparr>) bs' fl'
    \<and> keeps (mem s) m' (live (sbase s) bs)
    \<and> live (sbase s) bs' = insert (p, c) (live (sbase s) bs) \<and> n - 8 \<le> c \<and> (\<forall>d. (p, d) \<notin> live (sbase s) bs)"
proof -
  note i = seg_invD[OF inv]
  let ?ft = "mem_start_brk s" and ?m1 = "FREELIST_DEL_BLK (mem s) p" and ?fl = "adel p t fl"
  let ?F = "frees (sbase s) xs \<union> frees (p + t) ys"
  note h = sheapD[OF i(4)]
  have t: "sz_ok t" "16 \<le> t" "blks_ok xs" "blks_ok ys" using h(2,3) b(1) by simp_all
  have t31: "t < 2 ^ 31" using t(1) by (simp add: sz_ok_def)
  have lay: "(p, t, False) \<in> set (lay (sbase s) bs)" using b by simp
  have fr: "16 < t \<Longrightarrow> (p, t) \<in> frees (sbase s) bs" using b by simp
  have F: "frees (sbase s) bs - {(p, t)} = ?F"
    unfolding b(1) by (rule frees_without) (use h(2) b t in simp_all)
  have del: "lists_ok ?m1 ?ft ?fl ?F" "sheap ?m1 ?ft bs" "keeps (mem s) ?m1 (live (sbase s) bs)"
    using del_spec[OF i(4) subset_refl i(5) lay fr] unfolding F by simp_all
  have sp: "split_at (sbase s) p bs = (xs, (t, False) # ys)"
    using split_at_append[OF t(3) b(2)] b(1) by simp
  have bl: "blk (mem s) p t False" using h(1) b by (simp add: algebra_simps)
  have lb: "live (sbase s) bs = live (sbase s) xs \<union> live (p + t) ys" using b by (simp add: algebra_simps)
  have sg: "seg (mem s) (sbase s) xs" "seg (mem s) (p + t) ys" using h(1) b by (simp_all add: algebra_simps)
  have new: "(p, d) \<notin> live (sbase s) bs" for d
    unfolding lb using live_bounds[OF sg(1), of p d] live_bounds[OF sg(2), of p d] b(2) t(2) by auto
  have "BLK_SIZE (mem s) p = word_of_int t"
    using BLK_SIZE_hdr[OF blkD(1)[OF bl]] by (metis word_of_int_uint)
  let ?bsize = "ucast (BLK_SIZE (mem s) p) :: size_t"
  have bs: "uint ?bsize = t"
    using BLK_SIZE_hdr[OF blkD(1)[OF bl]] t31 t(2) by (simp add: unsigned_ucast_eq take_bit_int_eq_self)
  have rs: "uint (?bsize - nsize) = t - n" unfolding uint_word_ariths bs n(1) using n t31 by simp
  have split: "?bsize - nsize \<ge> BLK_MIN_SIZE \<longleftrightarrow> 16 \<le> t - n" unfolding word_le_def rs by (simp add: c_const)
  have bsz: "bs = xs @ [(t, False)] @ ys" using b(1) by simp
  have tab: "total [(t, False)] = t" by simp
  show ?thesis
  proof (cases "16 \<le> t - n")
    case True
    let ?xs = "xs @ [(n, True)]" and ?s1 = "s\<lparr>mem := ?m1\<rparr>" and ?m2 = "puts ?m1 p [(n, True), (t - n, False)]"
    have ok: "sz_ok n" "sz_ok (t - n)" using n t(1) True by (auto simp: sz_ok_def)
    have e: "mem ?s1 = ?m1" "freelist_table ?s1 = ?ft" using i(2) by simp_all
    note cs = cut_insert_spec[of ?s1 ?ft xs t False ys p, unfolded e, OF refl del(2)[unfolded b(1)] b(2) del(1) n(2) True n(4)]
    then obtain m' where m': "freelist_insert (p + n) (s\<lparr>mem := ?m2\<rparr>) = s\<lparr>mem := m'\<rparr>"
      "sheap m' ?ft (merge_free ?xs (t - n) ys)"
      "lists_ok m' ?ft (ainsert (p + n) ?xs (t - n) ys ?fl) (frees (?ft + 104) (merge_free ?xs (t - n) ys))"
      "keeps ?m1 m' (live (sbase s) xs \<union> live (p + t) ys)"
      "live (sbase s) (merge_free ?xs (t - n) ys) = insert (p, n - 8) (live (sbase s) xs \<union> live (p + t) ys)"
      by auto
    have set1: "SET_BLK ?m1 p nsize BLK_ALLOC = put ?m1 p n True"
      by (rule SET_BLK_put[OF n(1)]) (use ok n in \<open>simp_all add: c_const\<close>)
    have set2: "SET_BLK m (p + n) (?bsize - nsize) BLK_FREE = put m (p + n) (t - n) False" for m
      by (rule SET_BLK_put[OF rs]) (use ok True in \<open>simp_all add: c_const\<close>)
    have nx: "NEXT_BLKP (put ?m1 p n True) p = p + n"
      using NEXT_BLKP_hdr[OF blkD(1)[OF put_blk[OF ok(1)]]] n(2) by simp
    have nx2: "NEXT_BLKP ?m2 p = p + n"
      using seg_puts[of "[(n, True), (t - n, False)]" ?m1 p] ok n(2) True NEXT_BLKP_hdr[of ?m2 p n True]
      by (auto dest: blkD(1))
    have ft: "freelist_take p nsize s = s\<lparr>mem := m'\<rparr>"
      unfolding freelist_take_def Let_def using split True set1 set2 nx nx2 m'(1) by simp
    have res': "bs' = merge_free ?xs (t - n) ys" "fl' = ainsert (p + n) ?xs (t - n) ys ?fl"
      using res sp True by (simp_all add: atake_def)
    have "seg_inv (s\<lparr>mem := m'\<rparr>) bs' fl'"
      unfolding res' by (rule seg_inv_mem[OF inv]) (use m' b(1) in \<open>simp_all add: total_merge\<close>)
    moreover have "keeps (mem s) m' (live (sbase s) bs)"
      using del(3) m'(4) unfolding lb by (rule keeps_trans)
    moreover have "live (sbase s) bs' = insert (p, n - 8) (live (sbase s) bs)"
      unfolding res' lb by (rule m'(5))
    ultimately show ?thesis using ft new by blast
  next
    case False
    let ?m2 = "puts ?m1 p [(t, True)]"
    have okm: "blks_ok [(t, True)]" "big [(t, True)]" using t by simp_all
    have o: "same_on (- {p - 4..<p + total [(t, False)] - 4}) ?m1 ?m2"
      using same_on_puts[OF okm(1), of p ?m1] by simp
    have tt: "total [(t, True)] = total [(t, False)]" by simp
    note r = sheap_replace[OF del(2)[unfolded bsz] b(2) o tt seg_puts[OF okm(1)] okm(2), unfolded tab]
    have b1: "blk ?m1 p t False" using sheapD(1)[OF del(2)] b by (simp add: algebra_simps)
    have set1: "SET_BLK ?m1 p (BLK_SIZE ?m1 p) BLK_ALLOC = put ?m1 p t True"
      by (rule SET_BLK_put[OF BLK_SIZE_hdr[OF blkD(1)[OF b1]]]) (use t in \<open>simp_all add: c_const\<close>)
    have ft: "freelist_take p nsize s = s\<lparr>mem := ?m2\<rparr>"
      unfolding freelist_take_def Let_def using split False set1 by simp
    have res': "bs' = xs @ (t, True) # ys" "fl' = ?fl"
      using res sp False by (simp_all add: atake_def)
    have "seg_inv (s\<lparr>mem := ?m2\<rparr>) bs' fl'"
      unfolding res' by (rule seg_inv_mem[OF inv]) (use r(1) r(3)[OF del(1)] b in \<open>simp_all add: algebra_simps\<close>)
    moreover have "keeps (mem s) ?m2 (live (sbase s) bs)"
      using del(3) r(2) unfolding lb by (auto intro: keeps_trans)
    moreover have "live (sbase s) bs' = insert (p, t - 8) (live (sbase s) bs)"
      unfolding res' lb using b(2) by (auto simp: algebra_simps)
    ultimately show ?thesis using ft new n(3) by (intro exI[of _ ?m2] exI[of _ "t - 8"]) auto
  qed
qed


section \<open>Searching the slots\<close>

lemma lay_map_of: "blks_ok bs \<Longrightarrow> map_of (lay p bs) q = Some (t, a) \<longleftrightarrow> (q, t, a) \<in> set (lay p bs)"
proof -
  have "distinct (map fst (lay p bs))" if "blks_ok bs" for p
    using that
  proof (induction bs arbitrary: p rule: total.induct)
    case (2 s a bs)
    have "p \<noteq> r" if "(r, t, b) \<in> set (lay (p + s) bs)" for r t b
      using lay_bounds[OF _ that] 2(2) by auto
    then show ?case using 2 by force
  qed simp
  then show "blks_ok bs \<Longrightarrow> map_of (lay p bs) q = Some (t, a) \<longleftrightarrow> (q, t, a) \<in> set (lay p bs)"
    by (simp add: map_of_eq_Some_iff)
qed

definition big_enough :: "addr \<Rightarrow> int \<Rightarrow> block list \<Rightarrow> addr \<Rightarrow> bool" where
  "big_enough base n bs x = (case map_of (lay base bs) x of Some (t, a) \<Rightarrow> n \<le> t | None \<Rightarrow> False)"

text \<open>The first block that is big enough in the lists from slot \<open>i\<close> on.\<close>

definition asearch :: "addr \<Rightarrow> int \<Rightarrow> nat \<Rightarrow> block list \<Rightarrow> freelists \<Rightarrow> addr option" where
  "asearch base n i bs fl = find (big_enough base n bs) (concat (map fl [i..<FLT_SLOT_NUM]))"

lemma freelist_alloc_loop_eq:
  "dll (mem s) h xs \<Longrightarrow> \<forall>x\<in>set xs. x \<noteq> NULL \<Longrightarrow>
     freelist_alloc_loop n s (NEXT_FREE_BLKP (mem s) h) = Some
       (case find (\<lambda>x. n \<le> ucast (BLK_SIZE (mem s) x)) xs of
          None \<Rightarrow> (NULL, s) | Some x \<Rightarrow> (x, freelist_take x n s))"
  by (induction xs arbitrary: h) (simp_all add: freelist_alloc_loop.simps)

lemma find_cong_set: "(\<And>x. x \<in> set xs \<Longrightarrow> P x = Q x) \<Longrightarrow> find P xs = find Q xs"
  by (induction xs) auto

lemma find_in: "find P xs = Some x \<Longrightarrow> x \<in> set xs \<and> P x"
  by (induction xs) (auto split: if_splits)

lemma find_concat: "find P (xs @ ys) = (case find P xs of None \<Rightarrow> find P ys | Some x \<Rightarrow> Some x)"
  by (induction xs) auto

lemma list_block:
  assumes inv: "seg_inv s bs fl" and i: "1 \<le> i" "i \<le> 10" and x: "x \<in> set (fl i)"
  shows "\<exists>t. (x, t, False) \<in> set (lay (sbase s) bs) \<and> 24 \<le> t \<and> x \<noteq> NULL \<and> slot t = i
    \<and> uint (ucast (BLK_SIZE (mem s) x) :: size_t) = t"
proof -
  note I = seg_invD[OF inv]
  note h = sheapD[OF I(4)]
  obtain t where t: "(x, t) \<in> frees (sbase s) bs" "slot t = i"
    using lists_node[OF I(5) _ x] i by auto
  note fb = frees_block[OF h(2) t(1)]
  obtain xs ys where s: "bs = xs @ (t, False) # ys" "x = sbase s + total xs" using fb(2) by (rule lay_split)
  have b: "blk (mem s) x t False" using h(1) s by (simp add: algebra_simps)
  have t31: "t < 2 ^ 31" using blkD(4)[OF b] by (simp add: sz_ok_def)
  have "x \<noteq> NULL" using block_setD(4)[OF sheap_frees[OF I(4) subset_refl] t(1)] .
  then show ?thesis
    using fb t(2) BLK_SIZE_hdr[OF blkD(1)[OF b]] t31
    by (auto simp: unsigned_ucast_eq take_bit_int_eq_self intro!: exI[of _ t])
qed

lemma freelist_alloc_eq:
  assumes inv: "seg_inv s bs fl" and i: "1 \<le> i" "i \<le> 10"
    and n: "nsize = ALIGN sz + BLK_HDR_SIZE + BLK_FTR_SIZE" "uint nsize = n"
  shows "freelist_alloc (freelist_slot s i) sz s = Some
    (case find (big_enough (sbase s) n bs) (fl i) of None \<Rightarrow> (NULL, s) | Some x \<Rightarrow> (x, freelist_take x nsize s))"
proof -
  note I = seg_invD[OF inv]
  have d: "dll (mem s) (freelist_slot s i) (fl i)"
    using I(2,5) i by (auto simp: lists_ok_def freelist_slot_def)
  have "\<forall>x\<in>set (fl i). x \<noteq> NULL" using list_block[OF inv i] by blast
  note lp = freelist_alloc_loop_eq[OF d this, of nsize]
  have "nsize \<le> ucast (BLK_SIZE (mem s) x) \<longleftrightarrow> big_enough (sbase s) n bs x" if x: "x \<in> set (fl i)" for x
  proof -
    obtain t where t: "(x, t, False) \<in> set (lay (sbase s) bs)" "uint (ucast (BLK_SIZE (mem s) x) :: size_t) = t"
      using list_block[OF inv i x] by blast
    have "map_of (lay (sbase s) bs) x = Some (t, False)"
      using lay_map_of[OF sheapD(2)[OF I(4)]] t(1) by blast
    then show ?thesis unfolding word_le_def n(2) t(2) by (simp add: big_enough_def)
  qed
  then have e: "find (\<lambda>x. nsize \<le> ucast (BLK_SIZE (mem s) x)) (fl i) = find (big_enough (sbase s) n bs) (fl i)"
    by (rule find_cong_set)
  show ?thesis
  proof (cases "NEXT_FREE_BLKP (mem s) (freelist_slot s i) = NULL")
    case True
    then show ?thesis
      unfolding freelist_alloc_def Let_def n(1)[symmetric] using lp[unfolded e]
      unfolding True freelist_alloc_loop.simps[of nsize s NULL] by simp
  qed (use lp[unfolded e] in \<open>simp add: freelist_alloc_def n(1)\<close>)
qed

lemma freelist_search_eq:
  assumes inv: "seg_inv s bs fl" and n: "nsize = ALIGN sz + BLK_HDR_SIZE + BLK_FTR_SIZE" "uint nsize = n"
  shows "1 \<le> i \<Longrightarrow> freelist_search sz i s = Some
    (case asearch (sbase s) n i bs fl of None \<Rightarrow> (NULL, s) | Some x \<Rightarrow> (x, freelist_take x nsize s))"
proof (induction "FLT_SLOT_NUM - i" arbitrary: i)
  case 0
  then have "\<not> i < FLT_SLOT_NUM" by simp
  then show ?case by (simp add: freelist_search.simps[of sz i] asearch_def)
next
  case (Suc k)
  then have i: "i < FLT_SLOT_NUM" "1 \<le> i" "i \<le> 10" "k = FLT_SLOT_NUM - (i + 1)" by (auto simp: c_const)
  have up: "[i..<FLT_SLOT_NUM] = i # [i + 1..<FLT_SLOT_NUM]" using i(1) by (simp add: upt_conv_Cons)
  note fa = freelist_alloc_eq[OF inv i(2,3) n]
  have nn: "x \<noteq> NULL" if "find (big_enough (sbase s) n bs) (fl i) = Some x" for x
    using list_block[OF inv i(2,3), of x] find_in[OF that] by auto
  show ?case
  proof (cases "find (big_enough (sbase s) n bs) (fl i)")
    case None
    then have "asearch (sbase s) n i bs fl = asearch (sbase s) n (i + 1) bs fl"
      by (simp add: asearch_def up find_concat)
    then show ?thesis
      using Suc(1)[OF i(4)] i(1) fa None by (simp add: freelist_search.simps[of sz i])
  next
    case (Some x)
    then show ?thesis
      using i(1) fa nn by (simp add: freelist_search.simps[of sz i] asearch_def up find_concat)
  qed
qed

lemma asearch_Some:
  assumes inv: "seg_inv s bs fl" and i: "1 \<le> i" and a: "asearch (sbase s) n i bs fl = Some p"
  shows "\<exists>t xs ys. bs = xs @ (t, False) # ys \<and> p = sbase s + total xs \<and> n \<le> t \<and> 24 \<le> t \<and> p \<noteq> NULL"
proof -
  have "p \<in> set (concat (map fl [i..<FLT_SLOT_NUM]))" "big_enough (sbase s) n bs p"
    using find_in[OF a[unfolded asearch_def]] by auto
  then obtain j where "j \<in> set [i..<FLT_SLOT_NUM]" "p \<in> set (fl j)" and be: "big_enough (sbase s) n bs p"
    by auto
  then have j: "1 \<le> j" "j \<le> 10" "p \<in> set (fl j)" using i by (auto simp: c_const)
  obtain t where t: "(p, t, False) \<in> set (lay (sbase s) bs)" "24 \<le> t" "p \<noteq> NULL"
    using list_block[OF inv j] by blast
  have "map_of (lay (sbase s) bs) p = Some (t, False)"
    using lay_map_of sheapD(2)[OF seg_invD(4)[OF inv]] t(1) by blast
  then have "n \<le> t" using be by (simp add: big_enough_def)
  then show ?thesis using lay_split[OF t(1)] t(2,3) by metis
qed


section \<open>Extending the heap\<close>

lemma segregate_extend_eq:
  assumes wf: "mem_wf s" and k: "sint k = n" "0 < n" "8 dvd n"
  shows "segregate_extend_heap k s =
    (if mem_brk s + n \<le> mem_max_addr s
     then (mem_brk s, s\<lparr>mem_brk := mem_brk s + n, mem := store32 (mem s) (mem_brk s + n - 4) (hdr 0 True)\<rparr>)
     else (NULL, s\<lparr>errno := ENOMEM\<rparr>))"
proof -
  have k0: "k \<noteq> 0" using k by auto
  have al: "sint (ALIGNMENT :: c_int) = 8" by (simp add: c_const)
  have eb: "SET_EB m p = store32 m (p - 4) (hdr 0 True)" for m p
    by (simp add: SET_EB_def EB_HDRP_def SET_def PACK_def hdr_def c_const)
  have wf': "mem_wf (s\<lparr>mem_brk := mem_brk s + n\<rparr>)" if "mem_brk s + n \<le> mem_max_addr s"
    using wf k that by (simp add: mem_wf_def)
  show ?thesis
    unfolding segregate_extend_heap_def al mem_sbrk_cases[of k] k(1)
    using k0 k mem_wf_ptr[OF wf] mem_sbrk_0[OF wf'] by (auto simp: eb Let_def)
qed

definition smalloc :: "int \<Rightarrow> addr \<Rightarrow> int \<Rightarrow> block list \<times> freelists \<Rightarrow> (addr \<times> block list \<times> freelists) option" where
  "smalloc mx base v = (\<lambda>(bs, fl).
     let n = align8 v + 8
     in case asearch base n (slot (v + 8)) bs fl of
          Some p \<Rightarrow> Some (p, atake base n p (bs, fl))
        | None \<Rightarrow> if base + total bs + n \<le> mx then Some (base + total bs, bs @ [(n, True)], fl) else None)"

lemma seg_inv_grow:
  assumes inv: "seg_inv s bs fl" and n: "sz_ok n" "16 \<le> n" and room: "mem_brk s + n \<le> mem_max_addr s"
    and m: "m = put (store32 (mem s) (mem_brk s + n - 4) (hdr 0 True)) (mem_brk s) n True"
  shows "seg_inv (s\<lparr>mem_brk := mem_brk s + n, mem := m\<rparr>) (bs @ [(n, True)]) fl"
    "keeps (mem s) m (live (sbase s) bs)"
proof -
  note I = seg_invD[OF inv]
  let ?ft = "mem_start_brk s" and ?b = "mem_brk s" and ?bs = "bs @ [(n, True)]"
  note h = sheapD[OF I(4)]
  have o: "same_on (- {?b - 4..<?b + n}) (mem s) m"
    unfolding m by (rule same_on_trans[OF same_on_store32 same_on_put]) (use n in auto)
  have "8 \<le> n" using n(2) by simp
  then have pb: "blk m ?b n True" unfolding m by (rule put_blk[OF n(1)])
  have "hdr_at m (?b + n) 0 True"
    using n(2) unfolding m by (simp add: hdr_at_def put_def sz_ok_def)
  moreover have "seg m (?ft + 96) (prologue # bs)"
    by (rule seg_cong[of _ _ "mem s"])
      (use I(3,4) in \<open>auto simp: sheap_def prologue_def add.assoc intro: same_on_subset[OF o]\<close>)
  moreover have bt: "?b = ?ft + 104 + total bs" using I(3) by simp
  moreover have "total bs + n < 2 ^ 31" "?b + n < 2 ^ 63"
    using I(1) room bt by (auto simp: mem_wf_def c_const)
  ultimately have sh: "sheap m ?ft ?bs"
    using pb h(3,4) n(2) by (simp add: sheap_def prologue_def algebra_simps)
  have "frees (sbase s) ?bs = frees (sbase s) bs" by simp
  moreover have "lists_ok m ?ft fl (frees (sbase s) bs)"
  proof (rule lists_cong[OF I(5)])
    have "{?ft + 8..<?ft + 88} \<union> links (fst ` frees (sbase s) bs) \<subseteq> - {?b - 4..<?b + n}"
      using links_frees[OF h(2), of "sbase s"] h(6) bt by fastforce
    then show "same_on ({?ft + 8..<?ft + 88} \<union> links (fst ` frees (sbase s) bs)) (mem s) m"
      by (rule same_on_subset[OF o])
  qed
  ultimately show "seg_inv (s\<lparr>mem_brk := ?b + n, mem := m\<rparr>) ?bs fl"
    using inv sh room bt n(2) by (auto simp: seg_inv_def mem_wf_def)
  show "keeps (mem s) m (live (sbase s) bs)"
    unfolding keeps_def
  proof clarify
    fix q c assume "(q, c) \<in> live (sbase s) bs"
    then have "q + c + 8 \<le> ?b" using live_bounds[OF h(1)] bt by fastforce
    then show "same_on {q..<q + c} (mem s) m" by (intro same_on_subset[OF o]) auto
  qed
qed

section \<open>malloc\<close>

definition segregate_req :: "size_t \<Rightarrow> bool" where
  "segregate_req n \<longleftrightarrow> 9 \<le> uint n \<and> uint n + 15 < 2 ^ 31"

lemma segregate_reqD:
  assumes "segregate_req n"
  shows "9 \<le> uint n" "uint n + 15 < 2 ^ 31" "16 \<le> align8 (uint n)" "uint n \<le> align8 (uint n)" "8 dvd align8 (uint n)"
    "align8 (uint n) + 8 < 2 ^ 31" "uint (ALIGN n + BLK_HDR_SIZE + BLK_FTR_SIZE) = align8 (uint n) + 8"
    "uint (ALIGN n) = align8 (uint n)"
proof -
  show r: "9 \<le> uint n" "uint n + 15 < 2 ^ 31" using assms by (simp_all add: segregate_req_def)
  note a = align8_facts[of "uint n"]
  show a16: "16 \<le> align8 (uint n)" "uint n \<le> align8 (uint n)" "8 dvd align8 (uint n)" "align8 (uint n) + 8 < 2 ^ 31"
    using r a unfolding align8_def by presburger+
  show u: "uint (ALIGN n) = align8 (uint n)" using r by (intro uint_ALIGN) simp
  show "uint (ALIGN n + BLK_HDR_SIZE + BLK_FTR_SIZE) = align8 (uint n) + 8"
    using a16 by (simp add: c_const uint_word_ariths u)
qed

lemma ucast_size: "ucast (x :: size_t) = (word_of_int (uint x) :: c_int)"
  using ucast_word_of_int[of "uint x"] by simp

lemma malloc_extend:
  assumes inv: "seg_inv s bs fl" and sr: "freelist_search v (flt_index (ucast v)) s = Some (NULL, s)"
    and n: "uint (ALIGN v + BLK_HDR_SIZE + BLK_FTR_SIZE) = n" "sz_ok n" "16 \<le> n"
  shows "if mem_brk s + n \<le> mem_max_addr s
    then \<exists>m. segregate_mm_malloc v s = Some (mem_brk s, s\<lparr>mem_brk := mem_brk s + n, mem := m\<rparr>)
      \<and> seg_inv (s\<lparr>mem_brk := mem_brk s + n, mem := m\<rparr>) (bs @ [(n, True)]) fl
      \<and> keeps (mem s) m (live (sbase s) bs) \<and> mem_brk s \<noteq> NULL
    else segregate_mm_malloc v s = Some (NULL, s\<lparr>errno := ENOMEM\<rparr>)"
proof -
  note I = seg_invD[OF inv]
  let ?ns = "ALIGN v + BLK_HDR_SIZE + BLK_FTR_SIZE"
  have si: "sint (ucast ?ns :: c_int) = n"
    unfolding ucast_size n(1) by (rule sint_word_of_int) (use n in \<open>auto simp: sz_ok_def\<close>)
  have n8: "0 < n" "8 dvd n" "8 \<le> n" using n by (simp_all add: sz_ok_def)
  note ex = segregate_extend_eq[OF I(1) si n8(1,2)]
  have set: "SET_BLK m p ?ns BLK_ALLOC = put m p n True" for m p
    by (rule SET_BLK_put[OF n(1)]) (use n(2) n8 in \<open>simp_all add: c_const\<close>)
  have nn: "mem_brk s \<noteq> NULL" using mem_wf_ptr[OF I(1)] by simp
  show ?thesis
    using seg_inv_grow[OF inv n(2,3) _ refl] sr ex nn set by (auto simp: segregate_mm_malloc_def)
qed

lemma segregate_malloc_spec:
  assumes inv: "seg_inv s bs fl" and r: "segregate_req v"
  shows "case smalloc (mem_max_addr s) (sbase s) (uint v) (bs, fl) of
      None \<Rightarrow> \<exists>e. segregate_mm_malloc v s = Some (NULL, s\<lparr>errno := e\<rparr>)
    | Some (p, bs', fl') \<Rightarrow> \<exists>s' c. segregate_mm_malloc v s = Some (p, s') \<and> seg_inv s' bs' fl'
        \<and> keeps (mem s) (mem s') (live (sbase s) bs)
        \<and> live (sbase s) bs' = insert (p, c) (live (sbase s) bs) \<and> align8 (uint v) \<le> c
        \<and> (\<forall>d. (p, d) \<notin> live (sbase s) bs) \<and> p \<noteq> NULL
        \<and> mem_start_brk s' = mem_start_brk s \<and> mem_max_addr s' = mem_max_addr s
        \<and> mem_brk s' \<le> mem_brk s + (align8 (uint v) + 8)"
proof -
  note rq = segregate_reqD[OF r]
  note I = seg_invD[OF inv]
  let ?n = "align8 (uint v) + 8" and ?ns = "ALIGN v + BLK_HDR_SIZE + BLK_FTR_SIZE"
  have ix: "flt_index (ucast v) = slot (uint v + 8)" unfolding slot_def ucast_size by simp
  have u: "uint (word_of_int (uint v) :: c_int) = uint v" 
    unfolding uint_word_of_int by (rule mod_pos_pos_trivial) (use rq(2) in simp_all)
  have "\<not> slot (uint v + 8) \<le> 0"
    using flt_index_slots(2)[of "word_of_int (uint v)" 0] rq(1,2) u by (simp add: slot_def)
  then have s1: "1 \<le> slot (uint v + 8)" by simp
  note se = freelist_search_eq[OF inv refl rq(7) s1]
  show ?thesis
  proof (cases "asearch (sbase s) ?n (slot (uint v + 8)) bs fl")
    case (Some p)
    obtain t xs ys where x: "bs = xs @ (t, False) # ys" "p = sbase s + total xs" "?n \<le> t" "p \<noteq> NULL"
      using asearch_Some[OF inv s1 Some] by blast
    obtain bs' fl' where at: "atake (sbase s) ?n p (bs, fl) = (bs', fl')" by force
    have "16 \<le> ?n" "8 dvd ?n" using rq(3,5) by simp_all
    from freelist_take_spec[OF inv x(1,2) rq(7) this(1) x(3) this(2) at]
    obtain m' c where m': "freelist_take p ?ns s = s\<lparr>mem := m'\<rparr>" "seg_inv (s\<lparr>mem := m'\<rparr>) bs' fl'"
      "keeps (mem s) m' (live (sbase s) bs)" "live (sbase s) bs' = insert (p, c) (live (sbase s) bs)" "?n - 8 \<le> c"
      "\<forall>d. (p, d) \<notin> live (sbase s) bs" by blast
    have "segregate_mm_malloc v s = Some (p, s\<lparr>mem := m'\<rparr>)"
      using se Some m'(1) x(4) by (simp add: segregate_mm_malloc_def ix)
    moreover have sm: "smalloc (mem_max_addr s) (sbase s) (uint v) (bs, fl) = Some (p, bs', fl')"
      using Some at by (simp add: smalloc_def Let_def)
    ultimately show ?thesis
      unfolding sm option.case prod.case using m'(2-6) x(4) rq(3)
      by (intro exI[of _ "s\<lparr>mem := m'\<rparr>"] exI[of _ c]) simp
  next
    case None
    have sr: "freelist_search v (flt_index (ucast v)) s = Some (NULL, s)" using se None ix by simp
    have okn: "sz_ok ?n" "16 \<le> ?n" using rq(3,5,6) by (simp_all add: sz_ok_def)
    note mx = malloc_extend[OF inv sr rq(7) okn]
    have bt: "mem_brk s = sbase s + total bs" by (rule I(3))
    show ?thesis
    proof (cases "mem_brk s + ?n \<le> mem_max_addr s")
      case True
      then obtain m where m: "segregate_mm_malloc v s = Some (mem_brk s, s\<lparr>mem_brk := mem_brk s + ?n, mem := m\<rparr>)"
        "seg_inv (s\<lparr>mem_brk := mem_brk s + ?n, mem := m\<rparr>) (bs @ [(?n, True)]) fl"
        "keeps (mem s) m (live (sbase s) bs)" "mem_brk s \<noteq> NULL"
        using mx by auto
      let ?s = "s\<lparr>mem_brk := mem_brk s + ?n, mem := m\<rparr>"
      have "(mem_brk s, d) \<notin> live (sbase s) bs" for d
        using live_bounds[OF sheapD(1)[OF I(4)], of "mem_brk s" d] bt by auto
      moreover have "live (sbase s) (bs @ [(?n, True)]) = insert (mem_brk s, align8 (uint v)) (live (sbase s) bs)"
        using bt by simp
      moreover have "smalloc (mem_max_addr s) (sbase s) (uint v) (bs, fl) = Some (mem_brk s, bs @ [(?n, True)], fl)"
        using None True bt by (simp add: smalloc_def Let_def)
      ultimately show ?thesis
        using m by (auto intro!: exI[of _ ?s] exI[of _ "align8 (uint v)"])
    next
      case False
      then show ?thesis
        using mx None bt by (auto simp: smalloc_def Let_def)
    qed
  qed
qed

end
