(* ===== verification/Segregate_Realloc.thy ===== *)
theory Segregate_Realloc
  imports Segregate_Malloc
begin

text \<open>
  Initialisation of the segregated allocator, writes to its payloads, and realloc: growing moves
  the block with a malloc, a copy and a free, shrinking gives the rest to the free lists.
\<close>

section \<open>Initialisation\<close>

lemma segregate_init_spec:
  assumes wf: "mem_wf s" and b: "mem_brk s = mem_start_brk s"
  shows "\<exists>m'. segregate_mm_init s = (0, s\<lparr>mem_brk := mem_start_brk s + 104, mem := m',
      freelist_table := mem_start_brk s, heap_listp := mem_start_brk s + 96\<rparr>)
    \<and> seg_inv (s\<lparr>mem_brk := mem_start_brk s + 104, mem := m',
        freelist_table := mem_start_brk s, heap_listp := mem_start_brk s + 96\<rparr>) [] (\<lambda>_. [])
    \<and> same_on (- {mem_start_brk s..<mem_start_brk s + 104}) (mem s) m'
    \<and> NEXT_FREE_BLKP m' (mem_start_brk s) = NULL"
proof -
  let ?b = "mem_start_brk s"
  have room: "mem_brk s + 104 \<le> mem_max_addr s" using wf b by (simp add: mem_wf_def c_const)
  have "sint (word_of_int (FLT_SIZE + PADDING_BLK_SIZE + PB_HDR_SIZE + PB_FTR_SIZE + EB_HDR_SIZE) :: c_int) = 104"
    by (simp add: c_const)
  from segregate_extend_eq[OF wf this] room b
  have ext: "segregate_extend_heap (word_of_int (FLT_SIZE + PADDING_BLK_SIZE + PB_HDR_SIZE + PB_FTR_SIZE + EB_HDR_SIZE)) s
      = (?b, s\<lparr>mem_brk := ?b + 104, mem := store32 (mem s) (?b + 104 - 4) (hdr 0 True)\<rparr>)" by simp
  let ?mz = "memset (store32 (mem s) (?b + 104 - 4) (hdr 0 True)) ?b 0 88"
  let ?m = "store32 (store32 (store32 (store32 ?mz (?b + 88) 0xDEADBEEF) (?b + 92) (hdr 8 True)) (?b + 96) (hdr 8 True))
    (?b + 100) (hdr 0 True)"
  have nn: "?b \<noteq> NULL" using wf by (auto simp: mem_wf_def NULL_def)
  have pk: "(PACK 8 BLK_ALLOC :: c_int) = hdr 8 True" "(PACK 0 BLK_ALLOC :: c_int) = hdr 0 True"
    by (simp_all add: PACK_def c_const hdr_def)
  have sw: "SET m p (w :: u32) = store32 m p w" for m p w by (simp add: SET_def)
  have init: "segregate_mm_init s = (0, s\<lparr>mem_brk := ?b + 104, mem := ?m,
      freelist_table := ?b, heap_listp := ?b + 96\<rparr>)"
    unfolding segregate_mm_init_def Let_def ext prod.case pk sw using nn by (simp add: c_const add.assoc)
  have o: "same_on (- {?b..<?b + 104}) (mem s) ?m"
    by (auto simp: same_on_def store32_def memset_def)
  have z: "NEXT_FREE_BLKP ?m (?b + 8 * int i) = NULL" if i: "i \<in> {0..10}" for i
  proof -
    have l0: "load32 (memset m p 0 88) a = 0" if "p \<le> a" "a + 4 \<le> p + 88" for m p a
      using that by (simp add: load32_def memset_def)
    have "load64 ?m (?b + 8 * int i) = load64 ?mz (?b + 8 * int i)" using i by simp
    also have "\<dots> = 0" using i by (simp add: load64_def l0)
    finally show ?thesis by (simp add: NEXT_FREE_BLKP_def NULL_def)
  qed
  have "blk ?m (?b + 96) 8 True" "hdr_at ?m (?b + 104) 0 True"
    by (simp_all add: blk_def hdr_at_def ftr_at_def sz_ok_def add.commute[of ?b])
  moreover have "?b + 104 < 2 ^ 63" "0 \<le> ?b" using wf room b by (auto simp: mem_wf_def)
  ultimately have "sheap ?m ?b []" by (simp add: sheap_def prologue_def)
  then have "seg_inv (s\<lparr>mem_brk := ?b + 104, mem := ?m, freelist_table := ?b, heap_listp := ?b + 96\<rparr>) [] (\<lambda>_. [])"
    using wf room b z by (simp add: seg_inv_def mem_wf_def lists_ok_def)
  moreover have "NEXT_FREE_BLKP ?m ?b = NULL" using z[of 0] by simp
  ultimately show ?thesis using init o by blast
qed

section \<open>Writing a payload\<close>

lemma seg_inv_payload:
  assumes inv: "seg_inv s bs fl" and q: "(q, c) \<in> live (sbase s) bs" and o: "same_on (- {q..<q + c}) (mem s) m"
  shows "seg_inv (s\<lparr>mem := m\<rparr>) bs fl" "keeps (mem s) m (live (sbase s) bs - {(q, c)})"
proof -
  note I = seg_invD[OF inv]
  note h = sheapD[OF I(4)]
  let ?ft = "mem_start_brk s"
  obtain xs ys where x: "bs = xs @ (c + 8, True) # ys" "q = sbase s + total xs" using q by (rule live_split)
  have b: "blk (mem s) q (c + 8) True" "0 \<le> total xs" "0 \<le> total ys"
    using h(1) x by (auto dest: seg_total_nonneg)
  have c: "0 \<le> c" using blkD(3)[OF b(1)] by simp
  have "same_on {q - 4..<q} (mem s) m" "same_on {q + (c + 8) - 8..<q + (c + 8) - 4} (mem s) m"
    by (rule same_on_subset[OF o]; auto)+
  then have b': "blk m q (c + 8) True" using b(1) by (simp add: blk_def hdr_at_cong ftr_at_cong)
  have o': "same_on (- {q - 4..<q + total [(c + 8, True)] - 4}) (mem s) m"
    by (rule same_on_subset[OF o]) (use c in auto)
  have sg: "seg m q [(c + 8, True)]" "big [(c + 8, True)]" using b' h(3) x(1) by simp_all
  have h': "sheap (mem s) ?ft (xs @ [(c + 8, True)] @ ys)" using I(4) x(1) by simp
  note r = sheap_replace[OF h' x(2) o' refl sg]
  have "frees (sbase s) xs \<union> frees (q + total [(c + 8, True)]) ys = frees (sbase s) bs"
    using x by (simp add: algebra_simps)
  then have "lists_ok m ?ft fl (frees (sbase s) bs)" using r(3)[of fl] I(5) by simp
  then show "seg_inv (s\<lparr>mem := m\<rparr>) bs fl" using r(1) x(1) by (intro seg_inv_mem[OF inv]) simp_all
  show "keeps (mem s) m (live (sbase s) bs - {(q, c)})"
    by (rule keeps_subset[OF r(2)]) (use x in \<open>auto simp: algebra_simps\<close>)
qed

lemma live_BLK_AVAL_SIZE:
  assumes "seg_inv s bs fl" "(q, c) \<in> live (sbase s) bs"
  shows "uint (BLK_AVAL_SIZE (mem s) q) = c" "uint (ucast (BLK_AVAL_SIZE (mem s) q) :: size_t) = c"
    "8 \<le> c" "sz_ok (c + 8)" "q \<noteq> NULL"
proof -
  note I = seg_invD[OF assms(1)]
  note h = sheapD[OF I(4)]
  obtain xs ys where x: "bs = xs @ (c + 8, True) # ys" "q = sbase s + total xs" using assms(2) by (rule live_split)
  have b: "blk (mem s) q (c + 8) True" "0 \<le> total xs" "16 \<le> c + 8"
    using h(1,3) x by (auto dest: seg_total_nonneg)
  show u: "uint (BLK_AVAL_SIZE (mem s) q) = c"
    using RB_AVL_SIZE_hdr[OF blkD(1,3)[OF b(1)]] by (simp add: BLK_eq)
  show c8: "8 \<le> c" using b(3) by simp
  show z: "sz_ok (c + 8)" by (rule blkD(4)[OF b(1)])
  show "uint (ucast (BLK_AVAL_SIZE (mem s) q) :: size_t) = c"
    using u c8 z by (simp add: unsigned_ucast_eq take_bit_int_eq_self sz_ok_def)
  show "q \<noteq> NULL" using x(2) b(2) h(4) by (simp add: NULL_def)
qed

section \<open>realloc\<close>

text \<open>The specification of \<open>realloc\<close> of the block at \<open>q\<close> to \<open>v\<close> bytes; \<open>None\<close>: undefined.\<close>

definition srealloc :: "int \<Rightarrow> addr \<Rightarrow> int \<Rightarrow> addr \<Rightarrow> block list \<times> freelists \<Rightarrow> (addr \<times> block list \<times> freelists) option" where
  "srealloc mx base v q = (\<lambda>(bs, fl). case split_at base q bs of
     (xs, (t, _) # ys) \<Rightarrow>
       let n = align8 v + 8
       in if t < n
          then (case smalloc mx base (align8 v) (bs, fl) of
                  None \<Rightarrow> None
                | Some (p, bs', fl') \<Rightarrow> Some (p, afree base q bs', afree_lists base q bs' fl'))
          else if 16 \<le> t - n
          then Some (q, merge_free (xs @ [(n, True)]) (t - n) ys, ainsert (q + n) (xs @ [(n, True)]) (t - n) ys fl)
          else Some (q, bs, fl)
   | _ \<Rightarrow> None)"

definition srealloc_post ::
  "mstate \<Rightarrow> block list \<Rightarrow> addr \<Rightarrow> int \<Rightarrow> int \<Rightarrow> addr \<Rightarrow> mstate \<Rightarrow> block list \<Rightarrow> freelists \<Rightarrow> bool" where
  "srealloc_post s bs q c k r s' bs' fl' \<longleftrightarrow>
     (let L = live (sbase s) bs - {(q, c)}
      in seg_inv s' bs' fl' \<and> r \<noteq> NULL \<and> keeps (mem s) (mem s') L
         \<and> (\<exists>c'. k \<le> c' \<and> (\<forall>d. (r, d) \<notin> L) \<and> live (sbase s) bs' = insert (r, c') L)
         \<and> moved (mem s) (mem s') q r (min c k)
         \<and> mem_start_brk s' = mem_start_brk s \<and> mem_max_addr s' = mem_max_addr s
         \<and> mem_brk s' \<le> mem_brk s + (k + 8))"

lemma srealloc_shrink:
  assumes inv: "seg_inv s bs fl" and x: "bs = xs @ (c + 8, True) # ys" "q = sbase s + total xs"
    and n: "uint nsize = n" "16 \<le> n" "8 dvd n" "16 \<le> c + 8 - n" and r: "uint rsize = c + 8 - n"
  shows "\<exists>s'. segregate_mm_free (NEXT_BLKP (SET_BLK (SET_BLK (mem s) q nsize BLK_ALLOC) (q + n) rsize BLK_FREE) q)
      (s\<lparr>mem := SET_BLK (SET_BLK (mem s) q (nsize :: size_t) BLK_ALLOC) (q + n) (rsize :: size_t) BLK_FREE\<rparr>) = s'
    \<and> srealloc_post s bs q c (n - 8) q s' (merge_free (xs @ [(n, True)]) (c + 8 - n) ys)
        (ainsert (q + n) (xs @ [(n, True)]) (c + 8 - n) ys fl)"
proof -
  note I = seg_invD[OF inv]
  note h = sheapD[OF I(4)]
  let ?ft = "mem_start_brk s" and ?t = "c + 8"
  have q: "(q, c) \<in> live (sbase s) bs" using x by simp
  note a = live_BLK_AVAL_SIZE[OF inv q]
  have ok: "sz_ok n" "sz_ok (?t - n)" using n a(4) by (auto simp: sz_ok_def)
  have l: "lists_ok (mem s) ?ft fl (frees (?ft + 104) xs \<union> frees (q + ?t) ys)"
    using I(5) x by (simp add: algebra_simps)
  obtain m' where m': "freelist_insert (q + n) (s\<lparr>mem := puts (mem s) q [(n, True), (?t - n, False)]\<rparr>) = s\<lparr>mem := m'\<rparr>"
    "sheap m' ?ft (merge_free (xs @ [(n, True)]) (?t - n) ys)"
    "lists_ok m' ?ft (ainsert (q + n) (xs @ [(n, True)]) (?t - n) ys fl) (frees (?ft + 104) (merge_free (xs @ [(n, True)]) (?t - n) ys))"
    "keeps (mem s) m' (live (?ft + 104) xs \<union> live (q + ?t) ys)" "same_on {q..<q + n - 8} (mem s) m'"
    "live (?ft + 104) (merge_free (xs @ [(n, True)]) (?t - n) ys) = insert (q, n - 8) (live (?ft + 104) xs \<union> live (q + ?t) ys)"
    using cut_insert_spec[OF I(2) I(4)[unfolded x(1)] x(2) l n(2,4,3)] by blast
  have set1: "SET_BLK m q nsize BLK_ALLOC = put m q n True" for m
    by (rule SET_BLK_put[OF n(1)]) (use ok n in \<open>simp_all add: c_const\<close>)
  have set2: "SET_BLK m (q + n) rsize BLK_FREE = put m (q + n) (?t - n) False" for m
    by (rule SET_BLK_put[OF r]) (use ok n in \<open>simp_all add: c_const\<close>)
  let ?m2 = "puts (mem s) q [(n, True), (?t - n, False)]"
  have "blks_ok [(n, True), (?t - n, False)]" using ok n by simp
  from seg_puts[OF this, of "mem s" q] have nx: "NEXT_BLKP ?m2 q = q + n"
    using NEXT_BLKP_hdr[of ?m2 q n True] by (auto dest: blkD(1))
  have sg: "seg (mem s) (sbase s) xs" "seg (mem s) (q + ?t) ys" using h(1) x by (simp_all add: algebra_simps)
  have out: "(q, d) \<notin> live (sbase s) xs \<union> live (q + ?t) ys" for d
    using live_bounds[OF sg(1), of q d] live_bounds[OF sg(2), of q d] x(2) a(3) by auto
  have L: "live (sbase s) bs - {(q, c)} = live (sbase s) xs \<union> live (q + ?t) ys"
    using out x by (auto simp: algebra_simps)
  have "segregate_mm_free (NEXT_BLKP (SET_BLK (SET_BLK (mem s) q nsize BLK_ALLOC) (q + n) rsize BLK_FREE) q)
      (s\<lparr>mem := SET_BLK (SET_BLK (mem s) q nsize BLK_ALLOC) (q + n) rsize BLK_FREE\<rparr>) = s\<lparr>mem := m'\<rparr>"
    unfolding set1 set2 segregate_mm_free_def using m'(1) nx by simp
  moreover have "seg_inv (s\<lparr>mem := m'\<rparr>) (merge_free (xs @ [(n, True)]) (?t - n) ys)
      (ainsert (q + n) (xs @ [(n, True)]) (?t - n) ys fl)"
    by (rule seg_inv_mem[OF inv]) (use m' x(1) in \<open>simp_all add: total_merge\<close>)
  moreover have "moved (mem s) m' q q (min c (n - 8))"
    by (rule same_on_moved) (rule same_on_subset[OF m'(5)], auto)
  ultimately show ?thesis
    using m'(4,6) out a(5) n(2) unfolding srealloc_post_def Let_def L by auto
qed


lemma smalloc_keeps_block:
  assumes inv: "seg_inv s bs fl" and q: "(q, c) \<in> live (sbase s) bs"
    and inv': "seg_inv s' bs' fl'" and b: "mem_start_brk s' = mem_start_brk s"
    and l: "live (sbase s) bs' = insert (p, c') (live (sbase s) bs)" and n: "\<forall>d. (p, d) \<notin> live (sbase s) bs"
  shows "(q, c) \<in> live (sbase s') bs'" "p + c' \<le> q \<or> q + c \<le> p" "0 \<le> c'"
proof -
  show q': "(q, c) \<in> live (sbase s') bs'" using q l b by simp
  have p': "(p, c') \<in> live (sbase s') bs'" using l b by simp
  have sg: "seg (mem s') (sbase s') bs'" by (rule sheapD(1)[OF seg_invD(4)[OF inv']])
  have "p \<noteq> q" using n q by auto
  then show "p + c' \<le> q \<or> q + c \<le> p" using live_disjoint[OF sg p' q'] by auto
  show "0 \<le> c'" using live_bounds[OF sg p'] by simp
qed

lemma srealloc_move:
  assumes inv: "seg_inv s bs fl" and q: "(q, c) \<in> live (sbase s) bs" and r: "segregate_req n"
    and c: "c < align8 (uint n)"
    and as: "asize = ALIGN n"
  shows "case smalloc (mem_max_addr s) (sbase s) (align8 (uint n)) (bs, fl) of
      None \<Rightarrow> \<exists>s'. segregate_mm_malloc asize s = Some (NULL, s')
    | Some (p, bs', fl') \<Rightarrow> \<exists>s1 m. segregate_mm_malloc asize s = Some (p, s1) \<and> p \<noteq> NULL
        \<and> memcpy (mem s1) p q (uint (BLK_AVAL_SIZE (mem s1) q)) = Some m
        \<and> srealloc_post s bs q c (align8 (uint n)) p (segregate_mm_free q (s1\<lparr>mem := m\<rparr>))
            (afree (sbase s) q bs') (afree_lists (sbase s) q bs' fl')"
proof -
  note rq = segregate_reqD[OF r]
  let ?k = "align8 (uint n)" and ?L = "live (sbase s) bs"
  have ua: "uint asize = ?k" using rq(8) as by simp
  have ra: "segregate_req asize"
    using rq(2,3,4) align8_facts(2)[of "uint n"] by (simp add: segregate_req_def ua) (use rq in presburger)
  have aa: "align8 ?k = ?k" by (rule align8_facts(6)[OF rq(5)])
  note sp = segregate_malloc_spec[OF inv ra, unfolded ua aa]
  show ?thesis
  proof (cases "smalloc (mem_max_addr s) (sbase s) ?k (bs, fl)")
    case None
    then show ?thesis using sp by auto
  next
    case (Some x)
    then obtain p bs' fl' where x: "smalloc (mem_max_addr s) (sbase s) ?k (bs, fl) = Some (p, bs', fl')"
      by (cases x) auto
    with sp obtain s1 c' where s1: "segregate_mm_malloc asize s = Some (p, s1)" "seg_inv s1 bs' fl'"
      "keeps (mem s) (mem s1) ?L" "live (sbase s) bs' = insert (p, c') ?L" "?k \<le> c'"
      "\<forall>d. (p, d) \<notin> ?L" "p \<noteq> NULL" "mem_start_brk s1 = mem_start_brk s" "mem_max_addr s1 = mem_max_addr s"
      "mem_brk s1 \<le> mem_brk s + (?k + 8)" by auto
    note kb = smalloc_keeps_block[OF inv q s1(2,8,4,6)]
    have q1: "(q, c) \<in> live (sbase s1) bs'" by (rule kb(1))
    have av: "uint (BLK_AVAL_SIZE (mem s1) q) = c" "8 \<le> c" using live_BLK_AVAL_SIZE[OF s1(2) q1] by simp_all
    have p1: "(p, c') \<in> live (sbase s1) bs'" using s1(4,8) by simp
    obtain m where m: "memcpy (mem s1) p q c = Some m"
      using kb(2) c s1(5) av(2) by (auto simp: memcpy_def)
    note mc = memcpy_Some[OF m]
    have o: "same_on (- {p..<p + c'}) (mem s1) m"
      by (rule same_on_subset[OF conjunct1[OF mc]]) (use c s1(5) in auto)
    note pl = seg_inv_payload[OF s1(2) p1 o]
    let ?s2 = "s1\<lparr>mem := m\<rparr>"
    have q2: "(q, c) \<in> live (sbase ?s2) bs'" using q1 by simp
    note f = segregate_free_spec[OF pl(1) q2]
    have b2: "sbase ?s2 = sbase s" using s1(8) by simp
    have lv: "live (sbase s) (afree (sbase s) q bs') = insert (p, c') (?L - {(q, c)})"
      using f(3) b2 s1(4,6) q by auto
    have k1: "keeps (mem s1) m ?L" by (rule keeps_subset[OF pl(2)]) (use s1(4,6,8) in auto)
    have k2: "keeps m (mem (segregate_mm_free q ?s2)) (insert (p, c') (?L - {(q, c)}))"
    proof (rule keeps_subset)
      show "keeps m (mem (segregate_mm_free q ?s2)) (live (sbase s) bs' - {(q, c)})" using f(2) s1(8) by simp
      have "(p, c') \<noteq> (q, c)" using s1(6) q by auto
      then show "insert (p, c') (?L - {(q, c)}) \<subseteq> live (sbase s) bs' - {(q, c)}" using s1(4) by auto
    qed
    have "keeps (mem s) (mem (segregate_mm_free q ?s2)) (?L - {(q, c)})"
    proof (rule keeps_trans)
      show "keeps (mem s) m (?L - {(q, c)})"
        by (rule keeps_trans[OF keeps_subset[OF s1(3)] keeps_subset[OF k1]]) auto
      show "keeps m (mem (segregate_mm_free q ?s2)) (?L - {(q, c)})"
        by (rule keeps_subset[OF k2]) auto
    qed
    moreover have "moved (mem s) (mem (segregate_mm_free q ?s2)) q p (min c ?k)"
    proof -
      have "same_on {q..<q + c} (mem s) (mem s1)" by (rule keepsD[OF s1(3) q]) simp
      moreover have "same_on {p..<p + c} m (mem (segregate_mm_free q ?s2))"
        by (rule keepsD[OF k2, of p c']) (use c s1(5) in auto)
      ultimately show ?thesis using mc by (auto simp: moved_def same_on_def)
    qed
    moreover have "(p, d) \<notin> ?L - {(q, c)}" for d using s1(6) by simp
    ultimately have "srealloc_post s bs q c ?k p (segregate_mm_free q ?s2) (afree (sbase s) q bs') (afree_lists (sbase s) q bs' fl')"
      using f(1,4,5,6) b2 lv s1(5,7,8,9,10) unfolding srealloc_post_def Let_def by auto
    then show ?thesis using x s1(1,7) m av(1) by auto
  qed
qed


lemma segregate_realloc_spec:
  assumes inv: "seg_inv s bs fl" and q: "(q, c) \<in> live (sbase s) bs" and r: "segregate_req n"
  shows "case srealloc (mem_max_addr s) (sbase s) (uint n) q (bs, fl) of
      None \<Rightarrow> segregate_mm_realloc q n s = None
    | Some (p, bs', fl') \<Rightarrow> \<exists>s'. segregate_mm_realloc q n s = Some (p, s')
        \<and> srealloc_post s bs q c (align8 (uint n)) p s' bs' fl'"
proof -
  note rq = segregate_reqD[OF r] and a = live_BLK_AVAL_SIZE[OF inv q]
  note h = sheapD[OF seg_invD(4)[OF inv]]
  let ?k = "align8 (uint n)" and ?av = "ucast (BLK_AVAL_SIZE (mem s) q) :: size_t"
  obtain xs ys where x: "bs = xs @ (c + 8, True) # ys" "q = sbase s + total xs" using q by (rule live_split)
  have sp: "split_at (sbase s) q bs = (xs, (c + 8, True) # ys)"
    using split_at_append[OF _ x(2)] h(2) x(1) by simp
  have n0: "n \<noteq> 0" using rq(1) by auto
  have c8: "8 dvd c" using a(4) by (simp add: sz_ok_def)
  show ?thesis
  proof (cases "c < ?k")
    case True
    have big: "ALIGN n > ?av" using True by (simp add: word_less_def a(2) rq(8))
    have sr: "srealloc (mem_max_addr s) (sbase s) (uint n) q (bs, fl) =
      (case smalloc (mem_max_addr s) (sbase s) ?k (bs, fl) of None \<Rightarrow> None
       | Some (p, bs', fl') \<Rightarrow> Some (p, afree (sbase s) q bs', afree_lists (sbase s) q bs' fl'))"
      using sp True by (simp add: srealloc_def Let_def)
    have re: "segregate_mm_realloc q n s = do {
        (np, s) \<leftarrow> segregate_mm_malloc (ALIGN n) s;
        m \<leftarrow> (if np = NULL then None else memcpy (mem s) np q (uint (BLK_AVAL_SIZE (mem s) q)));
        Some (np, segregate_mm_free q (s\<lparr>mem := m\<rparr>))}"
      using n0 a(5) big by (simp add: segregate_mm_realloc_def Let_def)
    show ?thesis
      using srealloc_move[OF inv q r True refl] unfolding sr re
      by (auto split: option.splits)
  next
    case False
    have nle: "\<not> ALIGN n > ?av" using False by (simp add: word_less_def a(2) rq(8))
    have ud: "uint (?av - ALIGN n) = c - ?k"
      unfolding uint_word_ariths(2) a(2) rq(8) using False rq(3) a(3,4) by (simp add: sz_ok_def)
    have cut: "ALIGN n < ?av \<and> ?av - ALIGN n \<ge> BLK_MIN_SIZE \<longleftrightarrow> 16 \<le> c + 8 - (?k + 8)"
      using False by (auto simp: word_less_def word_le_def a(2) rq(8) ud c_const)
    show ?thesis
    proof (cases "16 \<le> c + 8 - (?k + 8)")
      case True
      have u: "uint (ALIGN n + BLK_HDR_SIZE + BLK_FTR_SIZE) = ?k + 8" by (rule rq(7))
      have k: "16 \<le> ?k + 8" "8 dvd ?k + 8" using rq(3,5) by simp_all
      have ur: "uint (?av - ALIGN n) = c + 8 - (?k + 8)" using ud by simp
      have nx: "NEXT_BLKP (SET_BLK (mem s) q (ALIGN n + BLK_HDR_SIZE + BLK_FTR_SIZE) BLK_ALLOC) q = q + (?k + 8)"
      proof -
        have ok: "sz_ok (?k + 8)" using rq(3,5,6) by (simp add: sz_ok_def)
        have "SET_BLK (mem s) q (ALIGN n + BLK_HDR_SIZE + BLK_FTR_SIZE) BLK_ALLOC = put (mem s) q (?k + 8) True"
          by (rule SET_BLK_put[OF u]) (use ok rq(3) in \<open>simp_all add: c_const\<close>)
        then show ?thesis using NEXT_BLKP_hdr[OF blkD(1)[OF put_blk[OF ok]]] rq(3) by simp
      qed
      have "segregate_mm_realloc q n s = Some (q, segregate_mm_free
          (NEXT_BLKP (SET_BLK (SET_BLK (mem s) q (ALIGN n + BLK_HDR_SIZE + BLK_FTR_SIZE) BLK_ALLOC) (q + (?k + 8)) (?av - ALIGN n) BLK_FREE) q)
          (s\<lparr>mem := SET_BLK (SET_BLK (mem s) q (ALIGN n + BLK_HDR_SIZE + BLK_FTR_SIZE) BLK_ALLOC) (q + (?k + 8)) (?av - ALIGN n) BLK_FREE\<rparr>))"
        using n0 a(5) nle cut True nx by (simp add: segregate_mm_realloc_def Let_def)
      then show ?thesis
        using srealloc_shrink[OF inv x u k True ur] sp True False by (auto simp: srealloc_def Let_def)
    next
      case no: False
      have "segregate_mm_realloc q n s = Some (q, s)"
        using n0 a(5) nle cut no by (auto simp: segregate_mm_realloc_def Let_def)
      moreover have "srealloc_post s bs q c ?k q s bs fl"
      proof -
        have "(q, d) \<notin> live (sbase s) bs - {(q, c)}" for d
          using live_unique[OF h(1) q, of d] by auto
        moreover have "live (sbase s) bs = insert (q, c) (live (sbase s) bs - {(q, c)})" using q by auto
        moreover have "?k \<le> c" using False by simp
        ultimately have "\<exists>c'. ?k \<le> c' \<and> (\<forall>d. (q, d) \<notin> live (sbase s) bs - {(q, c)})
            \<and> live (sbase s) bs = insert (q, c') (live (sbase s) bs - {(q, c)})" by blast
        then show ?thesis
          using inv a(5) rq(3) unfolding srealloc_post_def Let_def by (simp add: moved_def)
      qed
      ultimately show ?thesis using sp no False by (simp add: srealloc_def Let_def)
    qed
  qed
qed

end
