(* ===== verification/Segregate_Api.thy ===== *)
theory Segregate_Api
  imports Driver_Valid Segregate_Realloc
begin

text \<open>
  The segregated allocator keeps the contract of theory \<open>Allocator\<close>, with a realloc that cannot
  fail while there is room. Requests are 9 to \<open>2 ^ 31 - 16\<close> bytes: the smallest blocks are never
  unlinked from their list, so smaller requests break the contract. Initialisation takes 104
  bytes.
\<close>

definition segregate_wf :: "mstate \<Rightarrow> (addr \<times> int) set \<Rightarrow> bool" where
  "segregate_wf s L \<longleftrightarrow> (\<exists>bs fl. seg_inv s bs fl \<and> L = live (sbase s) bs)"

lemma segregate_wf_payloads: "payloads segregate_wf"
proof (unfold_locales)
  fix s L assume "segregate_wf s L"
  then obtain bs fl where b: "seg_inv s bs fl" "L = live (sbase s) bs" by (auto simp: segregate_wf_def)
  note I = seg_invD[OF b(1)]
  note h = sheapD[OF I(4)]
  show "mem_wf s" by (rule I(1))
  have "L \<subseteq> (\<lambda>(q, t, a). (q, t - 8)) ` set (lay (sbase s) bs)"
    unfolding b(2) by (force simp: live_def)
  then show "finite L" by (rule finite_subset) simp
  { fix p c assume p: "(p, c) \<in> L"
    then have p': "(p, c) \<in> live (sbase s) bs" using b(2) by simp
    note lb = live_bounds[OF h(1) p']
    have "8 dvd mem_start_brk s" using I(1) by (simp add: mem_wf_def)
    then have "8 dvd (p - sbase s) + sbase s" using lb by (intro dvd_add) auto
    then show "8 dvd p \<and> mem_start_brk s \<le> p \<and> 0 \<le> c \<and> p + c < mem_brk s"
      using lb I(3) by auto
    show "(p, c) = (q, d) \<or> p + c + 8 \<le> q \<or> q + d + 8 \<le> p" if "(q, d) \<in> L" for q d
      using live_disjoint[OF h(1) p'] that b(2) by simp
    show "segregate_wf (s\<lparr>mem := m\<rparr>) L" if m: "same_on (- {p..<p + c}) (mem s) m" for m
      using seg_inv_payload(1)[OF b(1) p' m] b(2) by (auto simp: segregate_wf_def) }
qed

lemma segregate_init_clean:
  assumes "mem_wf s" "mem_brk s = mem_start_brk s"
  shows "\<exists>s'. segregate_mm_init s = (0, s') \<and> segregate_wf s' {} \<and> same_arena s s'
    \<and> mem_brk s' = mem_start_brk s + 104"
proof -
  from segregate_init_spec[OF assms] obtain m' where i: "segregate_mm_init s = (0, s\<lparr>mem_brk := mem_start_brk s + 104, mem := m',
      freelist_table := mem_start_brk s, heap_listp := mem_start_brk s + 96\<rparr>)"
    "seg_inv (s\<lparr>mem_brk := mem_start_brk s + 104, mem := m',
        freelist_table := mem_start_brk s, heap_listp := mem_start_brk s + 96\<rparr>) [] (\<lambda>_. [])" by blast
  let ?s = "s\<lparr>mem_brk := mem_start_brk s + 104, mem := m', freelist_table := mem_start_brk s, heap_listp := mem_start_brk s + 96\<rparr>"
  have "segregate_wf ?s {}" using i(2) unfolding segregate_wf_def by (intro exI[of _ "[]"] exI) auto
  then show ?thesis using i(1) by (intro exI[of _ ?s]) (simp add: same_arena_def)
qed

lemma segregate_init_ok:
  "pristine s \<Longrightarrow> \<exists>s'. segregate_mm_init s = (0, s') \<and> segregate_wf s' {} \<and> same_arena s s'
    \<and> mem_brk s' = mem_start_brk s + 104"
  by (rule segregate_init_clean) (simp_all add: pristine_def)

lemma smalloc_fails: "smalloc mx base v (bs, fl) = None \<Longrightarrow> mx < base + total bs + (align8 v + 8)"
  by (auto simp: smalloc_def Let_def split: option.splits if_splits)

lemma segregate_malloc_ok:
  assumes w: "segregate_wf s L" and r: "segregate_req n"
  shows "\<exists>p s'. segregate_mm_malloc n s = Some (p, s') \<and>
    (if p = NULL then \<not> room (cost n) s
     else \<exists>c. uint n \<le> c \<and> (\<forall>d. (p, d) \<notin> L) \<and> segregate_wf s' (insert (p, c) L)
       \<and> keeps (mem s) (mem s') L \<and> same_arena s s' \<and> mem_brk s' \<le> mem_brk s + cost n)"
proof -
  obtain bs fl where b: "seg_inv s bs fl" "L = live (sbase s) bs" using w by (auto simp: segregate_wf_def)
  note sp = segregate_malloc_spec[OF b(1) r] and rq = segregate_reqD[OF r] and I = seg_invD[OF b(1)]
  show ?thesis
  proof (cases "smalloc (mem_max_addr s) (sbase s) (uint n) (bs, fl)")
    case None
    then show ?thesis using sp smalloc_fails[OF None] I(3) by (auto simp: room_def cost_def)
  next
    case (Some x)
    obtain p bs' fl' where "x = (p, bs', fl')" by (cases x) auto
    with sp Some obtain s' c where s': "segregate_mm_malloc n s = Some (p, s')" "seg_inv s' bs' fl'"
      "keeps (mem s) (mem s') L" "live (sbase s) bs' = insert (p, c) L" "align8 (uint n) \<le> c"
      "\<forall>d. (p, d) \<notin> L" "p \<noteq> NULL" "mem_start_brk s' = mem_start_brk s" "mem_max_addr s' = mem_max_addr s"
      "mem_brk s' \<le> mem_brk s + (align8 (uint n) + 8)" using b(2) by auto
    have "segregate_wf s' (insert (p, c) L)"
      unfolding segregate_wf_def using s'(2,4,8) by (metis (no_types))
    then show ?thesis
      using s' rq(4) by (auto simp: cost_def same_arena_def intro!: exI[of _ c])
  qed
qed

lemma segregate_free_ok:
  assumes w: "segregate_wf s L" and p: "(p, c) \<in> L"
  defines "s' \<equiv> segregate_mm_free p s"
  shows "segregate_wf s' (L - {(p, c)}) \<and> keeps (mem s) (mem s') (L - {(p, c)})
    \<and> same_arena s s' \<and> mem_brk s' = mem_brk s"
proof -
  obtain bs fl where b: "seg_inv s bs fl" "L = live (sbase s) bs" using w by (auto simp: segregate_wf_def)
  note f = segregate_free_spec[OF b(1), of p c, folded b(2), OF p, folded s'_def]
  have "segregate_wf s' (L - {(p, c)})"
    unfolding segregate_wf_def using f(1,3,5) by (metis (no_types))
  then show ?thesis using f(2,4,5,6) by (simp add: same_arena_def)
qed

lemma segregate_realloc_ok:
  assumes w: "segregate_wf s L" and p: "(p, c) \<in> L" and r: "segregate_req n"
    and ok: "segregate_mm_realloc p n s = Some (q, s')"
  shows "\<exists>c'. uint n \<le> c' \<and> (\<forall>d. (q, d) \<notin> L - {(p, c)}) \<and> segregate_wf s' (insert (q, c') (L - {(p, c)}))
    \<and> keeps (mem s) (mem s') (L - {(p, c)}) \<and> moved (mem s) (mem s') p q (min c (uint n))
    \<and> same_arena s s' \<and> mem_brk s' \<le> mem_brk s + cost n"
proof -
  obtain bs fl where b: "seg_inv s bs fl" "L = live (sbase s) bs" using w by (auto simp: segregate_wf_def)
  note rq = segregate_reqD[OF r]
  have p': "(p, c) \<in> live (sbase s) bs" using p b(2) by simp
  obtain bs' fl' where "srealloc_post s bs p c (align8 (uint n)) q s' bs' fl'"
    using segregate_realloc_spec[OF b(1) p' r] ok by (auto split: option.splits)
  then obtain c' where c': "seg_inv s' bs' fl'" "keeps (mem s) (mem s') (L - {(p, c)})" "align8 (uint n) \<le> c'"
    "\<forall>d. (q, d) \<notin> L - {(p, c)}" "live (sbase s) bs' = insert (q, c') (L - {(p, c)})"
    "moved (mem s) (mem s') p q (min c (align8 (uint n)))" "mem_start_brk s' = mem_start_brk s"
    "mem_max_addr s' = mem_max_addr s" "mem_brk s' \<le> mem_brk s + (align8 (uint n) + 8)"
    using b(2) unfolding srealloc_post_def Let_def by auto
  have "segregate_wf s' (insert (q, c') (L - {(p, c)}))"
    unfolding segregate_wf_def using c'(1,5,7) by (metis (no_types))
  moreover have "moved (mem s) (mem s') p q (min c (uint n))"
    using c'(6) rq(4) by (auto simp: moved_def)
  ultimately show ?thesis
    using c'(2,3,4,7,8,9) rq(4) by (intro exI[of _ c']) (auto simp: same_arena_def cost_def)
qed

lemma segregate_realloc_total:
  assumes w: "segregate_wf s L" and p: "(p, c) \<in> L" and r: "segregate_req n" and rm: "room (cost n) s"
  shows "\<exists>q s'. segregate_mm_realloc p n s = Some (q, s') \<and> q \<noteq> NULL"
proof -
  obtain bs fl where b: "seg_inv s bs fl" "L = live (sbase s) bs" using w by (auto simp: segregate_wf_def)
  note rq = segregate_reqD[OF r]
  note sp = segregate_realloc_spec[OF b(1) p[unfolded b(2)] r]
  have aa: "align8 (align8 (uint n)) = align8 (uint n)" by (rule align8_facts(6)[OF rq(5)])
  have "smalloc (mem_max_addr s) (sbase s) (align8 (uint n)) (bs, fl) \<noteq> None"
  proof
    assume "smalloc (mem_max_addr s) (sbase s) (align8 (uint n)) (bs, fl) = None"
    from smalloc_fails[OF this] show False
      using rm seg_invD(3)[OF b(1)] aa by (simp add: room_def cost_def)
  qed
  moreover obtain xs t ys where "split_at (sbase s) p bs = (xs, (t, True) # ys)"
  proof -
    obtain xs ys where x: "bs = xs @ (c + 8, True) # ys" "p = sbase s + total xs" using p[unfolded b(2)] by (rule live_split)
    show thesis
      using that split_at_append[OF _ x(2)] sheapD(2)[OF seg_invD(4)[OF b(1)]] x(1) by simp
  qed
  ultimately have "srealloc (mem_max_addr s) (sbase s) (uint n) p (bs, fl) \<noteq> None"
    by (auto simp: srealloc_def Let_def split: option.splits)
  then show ?thesis using sp by (auto simp: srealloc_post_def Let_def split: option.splits)
qed

interpretation segregate: reliable_allocator segregate_wf "mm_package USE_SEGREGATE_FIT" segregate_req 104
proof (rule reliable_allocator.intro)
  show "allocator segregate_wf (mm_package USE_SEGREGATE_FIT) segregate_req 104"
  proof (rule allocator.intro[OF segregate_wf_payloads], rule allocator_axioms.intro,
      unfold mm_package_simps mm_init.simps mm_malloc.simps mm_free.simps mm_realloc.simps)
  qed (rule segregate_init_ok segregate_malloc_ok segregate_free_ok segregate_realloc_ok; assumption)+
  show "reliable_allocator_axioms segregate_wf (mm_package USE_SEGREGATE_FIT) segregate_req"
    by (rule reliable_allocator_axioms.intro, unfold mm_package_simps mm_realloc.simps)
      (rule segregate_realloc_total)
qed

end
