(* ===== verification/Segregate_Faults.thy ===== *)
theory Segregate_Faults
  imports Segregate_Api Implicit_Client
begin

text \<open>
  Requests of at most 8 bytes: the blocks of 16 bytes they use are never unlinked from slot 0,
  so a freed one is handed out again and again. And two facts on larger requests: coalescing
  leaves no adjacent free blocks, and realloc copies to NULL when malloc fails.
\<close>

section \<open>Blocks of the smallest size\<close>

lemma small_alloc:
  assumes nx: "NEXT_FREE_BLKP (mem s) (freelist_table s) = q" and h: "hdr_at (mem s) q 16 a"
    and q: "0 \<le> freelist_table s" "freelist_table s + 104 \<le> q"
  shows "\<exists>m. segregate_mm_malloc 8 s = Some (q, s\<lparr>mem := m\<rparr>)
    \<and> NEXT_FREE_BLKP m (freelist_table s) = q \<and> hdr_at m q 16 True"
proof -
  let ?m = "put (mem s) q 16 True"
  have ix: "flt_index 8 = 0" using flt_index_slots(2)[of 8 0] by simp
  have al: "ALIGN 8 = 8" by (simp add: ALIGN_def c_const)
  have q0: "q \<noteq> NULL" using q by (simp add: NULL_def)
  have bs: "BLK_SIZE (mem s) q = 16" using BLK_SIZE_hdr[OF h] by (simp add: word_uint_eq_iff)
  have set: "SET_BLK (mem s) q (16 :: u32) BLK_ALLOC = put (mem s) q 16 True"
    by (rule SET_BLK_put) (simp_all add: c_const sz_ok_def)
  have tk: "freelist_take q (ALIGN 8 + BLK_HDR_SIZE + BLK_FTR_SIZE) s = s\<lparr>mem := ?m\<rparr>"
    using bs set by (simp add: freelist_take_def FREELIST_DEL_BLK_def Let_def c_const al)
  have "freelist_alloc (freelist_slot s 0) 8 s = Some (q, s\<lparr>mem := ?m\<rparr>)"
    using nx q0 bs tk by (simp add: freelist_alloc_def freelist_slot_def freelist_alloc_loop.simps[of _ s q] al c_const)
  then have "segregate_mm_malloc 8 s = Some (q, s\<lparr>mem := ?m\<rparr>)"
    using q0 by (simp add: segregate_mm_malloc_def ix freelist_search.simps[of 8 0] c_const)
  moreover have "NEXT_FREE_BLKP ?m (freelist_table s) = q"
    using nx q by (simp add: NEXT_FREE_BLKP_def put_def)
  moreover have "hdr_at ?m q 16 True" using put_blk[of 16 "mem s" q True] by (auto dest: blkD simp: sz_ok_def)
  ultimately show ?thesis by blast
qed

lemma free_small:
  assumes inv: "seg_inv s (xs @ (16, True) # ys) fl" and q: "q = sbase s + total xs"
    and nb: "lft xs = []" "rgt ys = []"
  shows "seg_inv (segregate_mm_free q s) (xs @ (16, False) # ys) fl"
    "NEXT_FREE_BLKP (mem (segregate_mm_free q s)) (freelist_table s) = q"
    "mem_start_brk (segregate_mm_free q s) = mem_start_brk s"
proof -
  let ?bs = "xs @ (16, True) # ys"
  note i = seg_invD[OF inv]
  have l: "(q, 8) \<in> live (sbase s) ?bs" using q by simp
  note f = segregate_free_spec[OF inv l]
  have ok: "blks_ok xs" using sheapD(2)[OF i(4)] by simp
  have sp: "split_at (sbase s) q ?bs = (xs, (16, True) # ys)" by (rule split_at_append[OF ok q])
  have af: "afree (sbase s) q ?bs = xs @ (16, False) # ys"
    unfolding afree_def sp using nb by (simp add: merge_free_def joined_def)
  have afl: "afree_lists (sbase s) q ?bs fl = fl"
    unfolding afree_lists_def sp using nb by (simp add: ainsert_def ains_def drop_left_def drop_right_def joined_def)
  show "seg_inv (segregate_mm_free q s) (xs @ (16, False) # ys) fl" using f(1) af afl by simp
  show "mem_start_brk (segregate_mm_free q s) = mem_start_brk s" by (rule f(5))
  have ar: "around (mem s) (freelist_table s) q xs 16 True ys" using i(2,4) q by (simp add: around_def)
  have ls: "lists_ok (mem s) (freelist_table s) fl (frees (freelist_table s + 104) xs \<union> frees (q + 16) ys)"
    using i(2,5) q by (simp add: algebra_simps)
  obtain m' where "freelist_insert q s = s\<lparr>mem := m'\<rparr>"
    "total (joined xs 16 ys) = 16 \<longrightarrow> NEXT_FREE_BLKP m' (freelist_table s) = q - total (lft xs)"
    using freelist_insert_spec[OF ar ls] by blast
  then show "NEXT_FREE_BLKP (mem (segregate_mm_free q s)) (freelist_table s) = q"
    using nb by (simp add: segregate_mm_free_def joined_def)
qed

lemma small_block_twice:
  assumes inv: "seg_inv s (xs @ (16, True) # ys) fl" and q: "q = sbase s + total xs"
    and nb: "lft xs = []" "rgt ys = []"
  shows "\<exists>s1 s2. segregate_mm_malloc 8 (segregate_mm_free q s) = Some (q, s1)
    \<and> segregate_mm_malloc 8 s1 = Some (q, s2)"
proof -
  let ?s = "segregate_mm_free q s"
  note f = free_small[OF assms]
  note i = seg_invD[OF inv] and i' = seg_invD[OF f(1)]
  note h = sheapD[OF i'(4)]
  have ft: "freelist_table ?s = mem_start_brk s" "freelist_table s = mem_start_brk s" using i(2) i'(2) f(3) by simp_all
  have "blk (mem ?s) q 16 False" "0 \<le> total xs" using h(1) q f(3) by (auto dest: seg_total_nonneg)
  then have q': "hdr_at (mem ?s) q 16 False" "0 \<le> freelist_table ?s" "freelist_table ?s + 104 \<le> q"
    using ft h(4) q f(3) by (auto dest: blkD(1))
  have nx: "NEXT_FREE_BLKP (mem ?s) (freelist_table ?s) = q" using f(2) ft by simp
  obtain m where m: "segregate_mm_malloc 8 ?s = Some (q, ?s\<lparr>mem := m\<rparr>)"
    "NEXT_FREE_BLKP m (freelist_table ?s) = q" "hdr_at m q 16 True"
    using small_alloc[OF nx q'] by blast
  let ?s1 = "?s\<lparr>mem := m\<rparr>"
  obtain m2 where "segregate_mm_malloc 8 ?s1 = Some (q, ?s1\<lparr>mem := m2\<rparr>)"
    using small_alloc[of ?s1 q True] m(2,3) q'(2,3) by auto
  then show ?thesis using m(1) by blast
qed

text \<open>On an empty heap malloc of 8 bytes extends the heap.\<close>

lemma small_fresh:
  assumes inv: "seg_inv s [] (\<lambda>_. [])" and nx: "NEXT_FREE_BLKP (mem s) (mem_start_brk s) = NULL"
    and room: "mem_brk s + 16 \<le> mem_max_addr s"
  shows "\<exists>s'. segregate_mm_malloc 8 s = Some (sbase s, s') \<and> seg_inv s' [(16, True)] (\<lambda>_. [])
    \<and> mem_start_brk s' = mem_start_brk s"
proof -
  note i = seg_invD[OF inv]
  have ix: "flt_index (ucast (8 :: size_t)) = 0" using flt_index_slots(2)[of 8 0] by simp
  have al: "ALIGN 8 = 8" by (simp add: ALIGN_def c_const)
  have n: "uint (ALIGN 8 + BLK_HDR_SIZE + BLK_FTR_SIZE) = 16" by (simp add: al c_const)
  have nl: "concat (map (\<lambda>_. []) xs) = ([] :: addr list)" for xs :: "nat list" by (induction xs) auto
  have "asearch (sbase s) 16 1 [] (\<lambda>_. []) = None" by (simp only: asearch_def nl find.simps)
  then have "freelist_search 8 1 s = Some (NULL, s)"
    using freelist_search_eq[OF inv refl n, of 1] by simp
  moreover have "freelist_alloc (freelist_slot s 0) 8 s = Some (NULL, s)"
    using nx i(2) by (simp add: freelist_alloc_def freelist_slot_def)
  ultimately have sr: "freelist_search 8 (flt_index (ucast (8 :: size_t))) s = Some (NULL, s)"
    unfolding ix by (simp add: freelist_search.simps[of 8 0] c_const)
  have "sz_ok 16" "(16::int) \<le> 16" by (simp_all add: sz_ok_def)
  from malloc_extend[OF inv sr n this] room i(3) show ?thesis by (auto)
qed

section \<open>Adjacent free blocks\<close>

lemma no_adj_swap:
  assumes "no_adj (xs @ (t, False) # ys)"
  shows "no_adj (xs @ (u, True) # ys)"
  using assms no_adj_append[of "[(t, False)]" ys] by (auto simp: no_adj_append no_adj_Cons_alloc)

lemma no_adj_atake:
  assumes na: "no_adj bs" and b: "bs = xs @ (t, False) # ys" "p = base + total xs" "blks_ok xs"
    and res: "atake base n p (bs, fl) = (bs', fl')"
  shows "no_adj bs'"
proof -
  have sp: "split_at base p bs = (xs, (t, False) # ys)" using split_at_append[OF b(3,2)] b(1) by simp
  have "no_adj (xs @ (n, True) # (t - n, True) # ys)"
    using no_adj_swap[of xs t ys] na b(1) by (auto simp: no_adj_append no_adj_Cons_alloc)
  then have "no_adj (merge_free (xs @ [(n, True)]) (t - n) ys)"
    by (intro no_adj_merge[of "xs @ [(n, True)]" "t - n"]) simp
  then show ?thesis
    using res sp no_adj_swap[of xs t ys t] na b(1) by (auto simp: atake_def split: if_splits)
qed

lemma no_adj_smalloc:
  assumes na: "no_adj bs" and inv: "seg_inv s bs fl" and v: "1 \<le> slot (v + 8)"
    and sm: "smalloc mx (sbase s) v (bs, fl) = Some (p, bs', fl')"
  shows "no_adj bs'"
proof (cases "asearch (sbase s) (align8 v + 8) (slot (v + 8)) bs fl")
  case None
  then show ?thesis using sm na by (auto simp: smalloc_def Let_def no_adj_append split: if_splits)
next
  case (Some r)
  then have at: "atake (sbase s) (align8 v + 8) r (bs, fl) = (bs', fl')" using sm by (auto simp: smalloc_def Let_def)
  obtain t xs ys where x: "bs = xs @ (t, False) # ys" "r = sbase s + total xs"
    using asearch_Some[OF inv v Some] by blast
  have "blks_ok xs" using sheapD(2)[OF seg_invD(4)[OF inv]] x(1) by simp
  from no_adj_atake[OF na x this at] show ?thesis .
qed

lemma req_slot:
  assumes "segregate_req v"
  shows "1 \<le> slot (uint v + 8)"
proof -
  note rq = segregate_reqD[OF assms]
  have u: "uint (word_of_int (uint v) :: c_int) = uint v"
    unfolding uint_word_of_int by (rule mod_pos_pos_trivial) (use rq(2) in simp_all)
  have "\<not> slot (uint v + 8) \<le> 0"
    using flt_index_slots(2)[of "word_of_int (uint v)" 0] rq(1,2) u by (simp add: slot_def)
  then show ?thesis by simp
qed

lemma no_adj_afree_seg:
  assumes na: "no_adj bs" and inv: "seg_inv s bs fl" and q: "(q, c) \<in> live (sbase s) bs"
  shows "no_adj (afree (sbase s) q bs)"
proof -
  obtain xs ys where x: "bs = xs @ (c + 8, True) # ys" "q = sbase s + total xs" using q by (rule live_split)
  have "blks_ok xs" using sheapD(2)[OF seg_invD(4)[OF inv]] x(1) by simp
  then have "split_at (sbase s) q bs = (xs, (c + 8, True) # ys)" using split_at_append[OF _ x(2)] x(1) by simp
  then show ?thesis
    using no_adj_merge[of xs "c + 8" ys "c + 8"] na x(1) by (simp add: afree_def)
qed

end
