(* ===== verification/Implicit_Api.thy ===== *)
theory Implicit_Api
  imports Driver_Valid Implicit_Faults
begin

text \<open>
  The implicit allocator keeps the contract of theory \<open>Allocator\<close> with each fit strategy.
  Requests are 1 to \<open>2 ^ 31 - 16\<close> bytes; initialisation takes 16.
\<close>

definition implicit_wf :: "fit \<Rightarrow> mstate \<Rightarrow> (addr \<times> int) set \<Rightarrow> bool" where
  "implicit_wf fit s L \<longleftrightarrow> (\<exists>bs. imp_inv fit s bs \<and> L = live (heap_listp s + 8) bs \<and> (\<forall>(q, c)\<in>L. 8 \<le> c))"

definition implicit_req :: "size_t \<Rightarrow> bool" where
  "implicit_req n \<longleftrightarrow> n \<noteq> 0 \<and> uint n + 15 < 2 ^ 31"

lemma implicit_reqD:
  assumes "implicit_req n"
  shows "n \<noteq> 0" "align8 (uint n) + 8 < 2 ^ 31" "8 \<le> align8 (uint n)" "uint n \<le> align8 (uint n)"
    "8 dvd align8 (uint n)" "uint n + 15 < 2 ^ 31" "cost n = align8 (uint n) + 8"
proof -
  have "0 < uint n" using assms by (simp add: implicit_req_def order_less_le) (metis uint_0_iff)
  then show "n \<noteq> 0" "align8 (uint n) + 8 < 2 ^ 31" "8 \<le> align8 (uint n)" "uint n \<le> align8 (uint n)"
    "8 dvd align8 (uint n)" "uint n + 15 < 2 ^ 31" "cost n = align8 (uint n) + 8"
    using assms align8_facts[of "uint n"] by (auto simp: implicit_req_def cost_def)
qed

section \<open>Totals\<close>

lemma heap_inv_base:
  assumes "heap_inv s bs"
  shows "seg (mem s) (heap_listp s + 8) bs" "mem_brk s = heap_listp s + 8 + total bs"
    "heap_listp s = mem_start_brk s + 8"
proof -
  show "seg (mem s) (heap_listp s + 8) bs" using heap_invD(3)[OF assms] by (simp add: prologue_def)
  show "mem_brk s = heap_listp s + 8 + total bs" by (rule heap_invD(5)[OF assms])
  show "heap_listp s = mem_start_brk s + 8" using assms by (simp add: heap_inv_def)
qed

lemma agrow_total:
  assumes "agrow mx base k bs = Some (p, bs')" "blks_ok bs"
  shows "total bs' \<le> total bs + (k + 8)"
proof -
  have "bs' = (if tail_free bs then butlast bs else bs) @ [(k + 8, True)]"
    using assms(1) by (auto simp: agrow_def Let_def split: if_splits)
  moreover have "total (butlast bs) \<le> total bs"
  proof (cases bs rule: rev_cases)
    case (snoc ys y)
    then show ?thesis using assms(2) by (cases y) auto
  qed simp
  ultimately show ?thesis by auto
qed

lemma total_cut [simp]: "total (cut t n) = t"
  by (auto simp: cut_def)

lemma total_afree:
  assumes "blks_ok xs" "bs = xs @ (t, True) # ys" "q = base + total xs"
  shows "total (afree base q bs) = total bs"
proof -
  have "afree base q bs = merge_free xs t ys"
    using split_at_append[OF assms(1,3)] assms(2) by (simp add: afree_def)
  then show ?thesis
    using arg_cong[OF joined_split[of xs t ys], of total] assms(2) by (simp add: merge_free_def)
qed

lemma amalloc_facts:
  assumes inv: "heap_inv s bs" and k: "0 \<le> k"
    and am: "amalloc fit mx (heap_listp s) cur k bs = Some (q, bs')"
  shows "total bs' \<le> total bs + (k + 8)" "(q, d) \<notin> live (heap_listp s + 8) bs"
proof -
  note hb = heap_inv_base[OF inv]
  have "total bs' \<le> total bs + (k + 8) \<and> (q, d) \<notin> live (heap_listp s + 8) bs"
  proof (cases "pick fit cur k (lay (heap_listp s) (prologue # bs))")
    case None
    then have ag: "agrow mx (heap_listp s + 8) k bs = Some (q, bs')"
      using am by (simp add: amalloc_def)
    then show ?thesis
      using agrow_total[OF ag seg_blks_ok[OF hb(1)]] agrow_new[OF ag _ hb(1), of q d]
        live_bounds[OF hb(1), of q d] by auto
  next
    case (Some r)
    then obtain r' t a where r: "pick fit cur k (lay (heap_listp s) (prologue # bs)) = Some (r', t, a)"
      by (cases r) auto
    obtain xs ys where x: "bs = xs @ (t, False) # ys" "r' = heap_listp s + 8 + total xs"
      "split_at (heap_listp s + 8) r' bs = (xs, (t, False) # ys)" "blk (mem s) r' t False"
      using pick_split[OF inv r k] by metis
    then have e: "q = r'" "bs' = xs @ cut t (k + 8) @ ys" using am r by (auto simp: amalloc_def)
    have sg: "seg (mem s) (heap_listp s + 8) xs" "seg (mem s) (r' + t) ys"
      using hb(1) x(1,2) by (simp_all add: algebra_simps)
    have "(q, d) \<notin> live (heap_listp s + 8) xs \<union> live (r' + t) ys"
      using live_bounds[OF sg(1), of q d] live_bounds[OF sg(2), of q d] blkD(3)[OF x(4)] x(2) e(1) by auto
    then show ?thesis using x(1,2) e(2) k by (simp add: algebra_simps)
  qed
  then show "total bs' \<le> total bs + (k + 8)" "(q, d) \<notin> live (heap_listp s + 8) bs" by auto
qed

lemma amalloc_None:
  assumes inv: "heap_inv s bs" and am: "amalloc fit (mem_max_addr s) (heap_listp s) cur k bs = None"
    and k: "0 \<le> k"
  shows "mem_max_addr s < mem_brk s + (k + 8)"
proof (rule ccontr)
  assume room: "\<not> mem_max_addr s < mem_brk s + (k + 8)"
  note hb = heap_inv_base[OF inv] and h = heap_invD[OF inv]
  have pk: "pick fit cur k (lay (heap_listp s) (prologue # bs)) = None"
  proof (rule ccontr)
    assume "pick fit cur k (lay (heap_listp s) (prologue # bs)) \<noteq> None"
    then obtain q t a where r: "pick fit cur k (lay (heap_listp s) (prologue # bs)) = Some (q, t, a)" by auto
    obtain xs ys where "split_at (heap_listp s + 8) q bs = (xs, (t, False) # ys)"
      using pick_split[OF inv r k] by metis
    then show False using am r by (simp add: amalloc_def)
  qed
  then have ag: "agrow (mem_max_addr s) (heap_listp s + 8) k bs = None"
    using am by (simp add: amalloc_def)
  show False
  proof (cases "tail_free bs")
    case False
    then show False using ag room hb(2) k by (simp add: agrow_def Let_def)
  next
    case True
    then obtain t where t: "bs = butlast bs @ [(t, False)]"
      by (metis append_butlast_last_id prod.collapse tail_free_def)
    have tot: "total bs = total (butlast bs) + t" using arg_cong[OF t, of total] by simp
    have bl: "0 \<le> total (butlast bs)"
      using hb(1) t seg_total_nonneg by (metis seg_append)
    have "(heap_listp s + 8 + total (butlast bs), t, False) \<in> set (lay (heap_listp s) (prologue # bs))"
      by (subst t) (simp add: prologue_def)
    moreover have "t - 8 < MAX_HEAP" using tot bl h(9) by (simp add: c_const)
    ultimately have "t - 8 < k" using pick_None[OF pk] by (fastforce simp: fits_def)
    moreover have "8 \<le> t" using seg_blks_ok[OF hb(1)] by (subst (asm) t) simp
    ultimately show False using ag room hb(2) tot True k by (simp add: agrow_def Let_def split: if_splits)
  qed
qed

lemma arealloc_total:
  assumes b: "block_in s bs q xs t ys" and k: "0 \<le> k"
    and ar: "arealloc mx (heap_listp s + 8) k q bs = Done r bs'"
  shows "total bs' \<le> total bs + (k + 8)"
proof -
  note d = block_inD[OF b]
  have r: "ys = rgt ys @ drop (length (rgt ys)) ys" "xs = take (length xs - length (lft xs)) xs @ lft xs"
    by (rule rgt_split lft_split)+
  have e: "total ys = total (rgt ys) + total (drop (length (rgt ys)) ys)"
    "total xs = total (take (length xs - length (lft xs)) xs) + total (lft xs)"
    using arg_cong[OF r(1), of total] arg_cong[OF r(2), of total] by simp_all
  have ok: "blks_ok bs" "blks_ok xs" using seg_blks_ok[OF heap_inv_base(1)[OF d(1)]] d(2) by simp_all
  show ?thesis
  proof (cases "\<exists>bs1. agrow mx (heap_listp s + 8) k bs = Some (r, bs1) \<and> bs' = afree (heap_listp s + 8) q bs1")
    case False
    have "total bs = total xs + t + total ys" using d(2) by simp
    then show ?thesis
      using ar e d(10) k False unfolding arealloc_def d(6) Let_def prod.case list.case
      by (auto split: if_splits option.splits)
  next
    case True
    then obtain bs1 where b1: "agrow mx (heap_listp s + 8) k bs = Some (r, bs1)"
      "bs' = afree (heap_listp s + 8) q bs1" by auto
    let ?f = "if tail_free bs then butlast bs else bs"
    have f: "bs1 = ?f @ [(k + 8, True)]"
      using b1(1) by (auto simp: agrow_def Let_def split: if_splits)
    have "\<exists>zs. ?f = xs @ (t, True) # zs"
      using d(2) by (cases ys rule: rev_cases) (auto simp: tail_free_def butlast_append)
    then obtain zs where "bs1 = xs @ (t, True) # zs" using f by auto
    then have "total bs' = total bs1"
      using total_afree[OF ok(2) _ d(3)] b1(2) by simp
    then show ?thesis using agrow_total[OF b1(1) ok(1)] by simp
  qed
qed

section \<open>The contract\<close>

lemma implicit_wf_intro:
  "imp_inv fit s bs \<Longrightarrow> L = live (heap_listp s + 8) bs \<Longrightarrow> (\<And>q c. (q, c) \<in> L \<Longrightarrow> 8 \<le> c) \<Longrightarrow> implicit_wf fit s L"
  by (auto simp: implicit_wf_def)

lemma implicit_wf_payloads: "payloads (implicit_wf fit)"
proof (unfold_locales)
  fix s L assume "implicit_wf fit s L"
  then obtain bs where b: "imp_inv fit s bs" "heap_inv s bs" "L = live (heap_listp s + 8) bs"
      "\<forall>(q, c)\<in>L. 8 \<le> c"
    by (auto simp: implicit_wf_def imp_inv_def)
  note h = heap_invD[OF b(2)] and hb = heap_inv_base[OF b(2)]
  show "mem_wf s" by (rule h(1))
  have "L \<subseteq> (\<lambda>(q, t, a). (q, t - 8)) ` set (lay (heap_listp s + 8) bs)"
    unfolding b(3) by (force simp: live_def)
  then show "finite L" by (rule finite_subset) simp
  { fix p c assume p: "(p, c) \<in> L"
    then have p': "(p, c) \<in> live (heap_listp s + 8) bs" using b(3) by simp
    note lb = live_bounds[OF hb(1) p']
    have "8 dvd (p - (heap_listp s + 8)) + (heap_listp s + 8)" by (rule dvd_add) (use lb h(6) in auto)
    then show "8 dvd p \<and> mem_start_brk s \<le> p \<and> 0 \<le> c \<and> p + c < mem_brk s"
      using lb hb by simp
    show "(p, c) = (q, d) \<or> p + c + 8 \<le> q \<or> q + d + 8 \<le> p" if "(q, d) \<in> L" for q d
      using live_disjoint[OF hb(1) p'] that b(3) by simp
    show "implicit_wf fit (s\<lparr>mem := m\<rparr>) L" if m: "same_on (- {p..<p + c}) (mem s) m" for m
      using heap_inv_payload(1)[OF b(2) p' m] b
      by (intro implicit_wf_intro[where bs = bs]) (auto simp: imp_inv_def curp_ok_def) }
qed

lemma implicit_wf_front: "implicit_wf fit s L \<Longrightarrow> empty_front s"
  by (auto simp: implicit_wf_def imp_inv_def heap_inv_def)

lemma implicit_init_ok:
  assumes "pristine s"
  shows "\<exists>s'. implicit_mm_init fit s = (0, s') \<and> implicit_wf fit s' {} \<and> same_arena s s'
    \<and> mem_brk s' = mem_start_brk s + 16"
proof -
  obtain a where "hdr_at (mem s) (mem_brk s) 0 a" using assms by (auto simp: pristine_def empty_front_def)
  note i = implicit_init_inv[OF _ this, of fit]
  have "mem_wf s" "mem_brk s = mem_start_brk s" "fresh s" using assms by (auto simp: pristine_def)
  note i = i[OF this]
  have "implicit_wf fit (snd (implicit_mm_init fit s)) {}"
    by (rule implicit_wf_intro[OF i(2)]) auto
  then show ?thesis
    using i(1,3-5) by (intro exI[of _ "snd (implicit_mm_init fit s)"]) (auto simp: same_arena_def prod_eq_iff)
qed

lemma implicit_malloc_ok:
  assumes w: "implicit_wf fit s L" and r: "implicit_req n"
  shows "\<exists>p s'. implicit_mm_malloc fit n s = Some (p, s') \<and>
    (if p = NULL then \<not> room (cost n) s
     else \<exists>c. uint n \<le> c \<and> (\<forall>d. (p, d) \<notin> L) \<and> implicit_wf fit s' (insert (p, c) L)
       \<and> keeps (mem s) (mem s') L \<and> same_arena s s' \<and> mem_brk s' \<le> mem_brk s + cost n)"
proof -
  obtain bs where b: "imp_inv fit s bs" "L = live (heap_listp s + 8) bs" "\<forall>(q, c)\<in>L. 8 \<le> c"
    using w by (auto simp: implicit_wf_def)
  have hinv: "heap_inv s bs" using b(1) by (simp add: imp_inv_def)
  note rq = implicit_reqD[OF r] and hb = heap_inv_base[OF hinv]
  have k0: "0 \<le> align8 (uint n)" using rq(3) by simp
  note sp = implicit_malloc_spec[OF b(1) rq(1) refl rq(2)]
  show ?thesis
  proof (cases "amalloc fit (mem_max_addr s) (heap_listp s) (heap_curp s) (align8 (uint n)) bs")
    case None
    then show ?thesis
      using sp amalloc_None[OF hinv None k0] rq(7) by (auto simp: room_def)
  next
    case (Some x)
    then obtain q bs' where x: "amalloc fit (mem_max_addr s) (heap_listp s) (heap_curp s)
        (align8 (uint n)) bs = Some (q, bs')" by (cases x) auto
    with sp obtain s' c where s': "implicit_mm_malloc fit n s = Some (q, s')" "imp_inv fit s' bs'"
      "keeps (mem s) (mem s') L" "live (heap_listp s + 8) bs' = insert (q, c) L"
      "align8 (uint n) \<le> c" "q \<noteq> NULL" "heap_listp s' = heap_listp s" "mem_max_addr s' = mem_max_addr s"
      using b(2) by auto
    have h': "heap_inv s' bs'" using s'(2) by (simp add: imp_inv_def)
    note hb' = heap_inv_base[OF h'] and am = amalloc_facts[OF hinv k0 x]
    have "implicit_wf fit s' (insert (q, c) L)"
      by (rule implicit_wf_intro[OF s'(2)]) (use s'(4,5,7) rq(3) b(3) in auto)
    moreover have "mem_brk s' \<le> mem_brk s + cost n" using am(1) hb hb' s'(7) rq(7) by simp
    moreover have "same_arena s s'" using hb(3) hb'(3) s'(7,8) by (simp add: same_arena_def)
    ultimately show ?thesis
      using s'(1,3,5,6) am(2) rq(4) b(2) by (intro exI[of _ q] exI[of _ s']) (auto intro!: exI[of _ c])
  qed
qed

lemma implicit_free_ok:
  assumes w: "implicit_wf fit s L" and p: "(p, c) \<in> L"
  defines "s' \<equiv> implicit_mm_free fit p s"
  shows "implicit_wf fit s' (L - {(p, c)}) \<and> keeps (mem s) (mem s') (L - {(p, c)})
    \<and> same_arena s s' \<and> mem_brk s' = mem_brk s"
proof -
  obtain bs where b: "imp_inv fit s bs" "L = live (heap_listp s + 8) bs" "\<forall>(q, c)\<in>L. 8 \<le> c"
    using w by (auto simp: implicit_wf_def)
  note f = implicit_free_spec[OF b(1), of p c, folded b(2), OF p, folded s'_def]
  have "heap_inv s bs" "heap_inv s' (afree (heap_listp s + 8) p bs)"
    using b(1) f(1) by (simp_all add: imp_inv_def)
  note hb = heap_inv_base[OF this(1)] and hb' = heap_inv_base[OF this(2)]
  have "implicit_wf fit s' (L - {(p, c)})"
    by (rule implicit_wf_intro[OF f(1)]) (use f(3,4) b(3) in auto)
  then show ?thesis
    using f(2,4,5,6) hb(3) hb'(3) by (simp add: same_arena_def)
qed

lemma implicit_realloc_ok:
  assumes w: "implicit_wf fit s L" and p: "(p, c) \<in> L" and r: "implicit_req n" and rm: "room (cost n) s"
    and ok: "implicit_mm_realloc fit p n s = Some (q, s')" "q \<noteq> NULL"
  shows "\<exists>c'. uint n \<le> c' \<and> (\<forall>d. (q, d) \<notin> L - {(p, c)}) \<and> implicit_wf fit s' (insert (q, c') (L - {(p, c)}))
    \<and> keeps (mem s) (mem s') (L - {(p, c)}) \<and> moved (mem s) (mem s') p q (min c (uint n))
    \<and> same_arena s s' \<and> mem_brk s' \<le> mem_brk s + cost n"
proof -
  obtain bs where b: "imp_inv fit s bs" "L = live (heap_listp s + 8) bs" "\<forall>(q, c)\<in>L. 8 \<le> c"
    using w by (auto simp: implicit_wf_def)
  have hinv: "heap_inv s bs" using b(1) by (simp add: imp_inv_def)
  note rq = implicit_reqD[OF r] and hb = heap_inv_base[OF hinv]
  have k0: "0 \<le> align8 (uint n)" using rq(3) by simp
  have p': "(p, c) \<in> live (heap_listp s + 8) bs" "8 \<le> c" using p b(2,3) by auto
  obtain xs ys where x: "bs = xs @ (c + 8, True) # ys" "p = heap_listp s + 8 + total xs"
    using p'(1) by (rule live_split)
  have bi: "block_in s bs p xs (c + 8) ys" using hinv x by (simp add: block_in_def)
  note sp = implicit_realloc_spec[OF b(1) p' rq(1,6)]
  let ?r = "arealloc (mem_max_addr s) (heap_listp s + 8) (align8 (uint n)) p bs"
  have nov: "?r \<noteq> Overrun"
    using rm rq(7) hb(2) p'(2) unfolding arealloc_def block_inD(6)[OF bi] Let_def prod.case list.case
    by (auto simp: room_def split: option.splits)
  obtain bs' where d: "?r = Done q bs'" and po: "realloc_post fit s bs p c (align8 (uint n)) q s' bs'"
    using sp ok nov by (cases ?r) auto
  then obtain c' where c': "align8 (uint n) \<le> c'" "(q, c') \<notin> L - {(p, c)}"
    "live (heap_listp s + 8) bs' = insert (q, c') (L - {(p, c)})"
    and f: "imp_inv fit s' bs'" "heap_listp s' = heap_listp s" "mem_max_addr s' = mem_max_addr s"
    "keeps (mem s) (mem s') (L - {(p, c)})" "moved (mem s) (mem s') p q (min c (align8 (uint n)))"
    using b(2) unfolding realloc_post_def Let_def by auto
  have h': "heap_inv s' bs'" using f(1) by (simp add: imp_inv_def)
  note hb' = heap_inv_base[OF h']
  have "(q, d) \<notin> L - {(p, c)}" for d
    using live_unique[OF hb'(1), of q c' d] c'(2,3) f(2) by auto
  moreover have "implicit_wf fit s' (insert (q, c') (L - {(p, c)}))"
    by (rule implicit_wf_intro[OF f(1)]) (use c' f(2) rq(3) b(3) in auto)
  moreover have "mem_brk s' \<le> mem_brk s + cost n"
    using arealloc_total[OF bi k0 d] hb hb' f(2) rq(7) by simp
  moreover have "same_arena s s'" using hb(3) hb'(3) f(2,3) by (simp add: same_arena_def)
  moreover have "moved (mem s) (mem s') p q (min c (uint n))"
    using f(5) rq(4) by (auto simp: moved_def)
  ultimately show ?thesis using f(4) c'(1) rq(4) by (intro exI[of _ c']) auto
qed

interpretation implicit: allocator "implicit_wf fit" "mm_package (USE_IMPLICIT fit)" implicit_req 16 for fit
proof (rule allocator.intro[OF implicit_wf_payloads], rule allocator_axioms.intro,
    unfold mm_package_simps mm_init.simps mm_malloc.simps mm_free.simps mm_realloc.simps)
qed (rule implicit_init_ok implicit_malloc_ok implicit_free_ok implicit_realloc_ok; assumption)+

end
