(* ===== verification/Growing.thy ===== *)
theory Growing
  imports Implicit_Api Segregate_Api
begin

text \<open>
  No call of a package moves the break back: the only operation that moves it is \<open>mem_sbrk\<close>.
  These facts hold in every state, whatever the heap contains. \<open>growing_allocator\<close> adds them
  to the contract; the bound on the space utilisation needs them. \<open>restartable_allocator\<close> adds
  what the driver needs to replay one trace after another.
\<close>

named_theorems brk_keep

section \<open>The implicit allocator\<close>

lemma mem_sbrk_break: "mem_brk s \<le> mem_brk (snd (mem_sbrk n s))"
  by (simp add: mem_sbrk_cases)

lemma extend_heap_break: "extend_heap n s = (p, s') \<Longrightarrow> mem_brk s \<le> mem_brk s'"
  using mem_sbrk_break[of s n] by (auto simp: extend_heap_def split: if_splits prod.splits)

lemma place_break [brk_keep]: "place s bp sz = (p, s') \<Longrightarrow> mem_brk s' = mem_brk s"
  by (auto simp: place_def Let_def split: if_splits)

lemma set_curp_break [simp]: "mem_brk (set_curp fit p s) = mem_brk s"
  by (simp add: set_curp_def)

lemma coalesce_break [simp]: "mem_brk (snd (coalesce fit bp s)) = mem_brk s"
  by (simp add: coalesce_def Let_def split: prod.splits)

lemma implicit_free_break [simp]: "mem_brk (implicit_mm_free fit p s) = mem_brk s"
  by (simp add: implicit_mm_free_def Let_def)

lemma do_malloc_break: "do_malloc fit sz s = (p, s') \<Longrightarrow> mem_brk s \<le> mem_brk s'"
  by (auto simp: do_malloc_def Let_def dest!: extend_heap_break split: if_splits prod.splits)

lemma first_fit_loop_break [brk_keep]:
  assumes "first_fit_loop s sz q = Some r"
  shows "mem_brk (snd r) = mem_brk s"
  using assms
proof (rule first_fit_loop.raw_induct[rotated], goal_cases)
  case (1 loop s sz q r)
  then show ?case by (cases r) (fastforce simp: place_break split: if_splits)
qed

lemma next_fit_loop_break [brk_keep]:
  assumes "next_fit_loop s sz oldp q = Some r"
  shows "mem_brk (snd r) = mem_brk s"
  using assms
proof (rule next_fit_loop.raw_induct[rotated], goal_cases)
  case (1 loop s sz oldp q r)
  then show ?case by (cases r) (fastforce simp: place_break Let_def split: if_splits)
qed

lemma find_fit_break: "find_fit fit s sz = Some (p, s') \<Longrightarrow> mem_brk s' = mem_brk s"
  by (cases fit) (auto simp: first_fit_def next_fit_def best_fit_def Let_def dest: brk_keep
      split: bind_splits if_splits)

lemma implicit_malloc_break: "implicit_mm_malloc fit n s = Some (p, s') \<Longrightarrow> mem_brk s \<le> mem_brk s'"
  by (auto simp: implicit_mm_malloc_def Let_def dest!: find_fit_break do_malloc_break
      split: if_splits bind_splits prod.splits)

lemma realloc_larger_break:
  assumes "realloc_larger fit ptr sz nsize bsize s = Some (p, s')"
  shows "mem_brk s \<le> mem_brk s'"
  using assms
  by (auto simp: realloc_larger_def Let_def realloc_exit_def dest!: extend_heap_break do_malloc_break
      split: if_splits bind_splits prod.splits)

lemma implicit_realloc_break: "implicit_mm_realloc fit p n s = Some (q, s') \<Longrightarrow> mem_brk s \<le> mem_brk s'"
  by (auto simp: implicit_mm_realloc_def Let_def realloc_exit_def
      dest!: implicit_malloc_break realloc_larger_break split: if_splits)

section \<open>The segregated allocator\<close>

lemma segregate_extend_break: "segregate_extend_heap n s = (p, s') \<Longrightarrow> mem_brk s \<le> mem_brk s'"
  using mem_sbrk_break[of s n]
  by (auto simp: segregate_extend_heap_def mem_sbrk_cases split: if_splits prod.splits)

lemma freelist_insert_break [simp]: "mem_brk (freelist_insert bp s) = mem_brk s"
  by (simp add: freelist_insert_def Let_def split: prod.splits)

lemma freelist_take_break [simp]: "mem_brk (freelist_take p n s) = mem_brk s"
  by (simp add: freelist_take_def Let_def)

lemma freelist_alloc_loop_break [brk_keep]:
  assumes "freelist_alloc_loop n s q = Some r"
  shows "mem_brk (snd r) = mem_brk s"
  using assms
proof (rule freelist_alloc_loop.raw_induct[rotated], goal_cases)
  case (1 loop n s q r)
  then show ?case by (cases r) (fastforce split: if_splits)
qed

lemma freelist_alloc_break: "freelist_alloc l sz s = Some (p, s') \<Longrightarrow> mem_brk s' = mem_brk s"
  by (auto simp: freelist_alloc_def Let_def dest: brk_keep split: if_splits)

lemma freelist_search_break: "freelist_search sz i s = Some (p, s') \<Longrightarrow> mem_brk s' = mem_brk s"
proof (induction sz i s rule: freelist_search.induct)
  case (1 sz i s)
  then show ?case
    unfolding freelist_search.simps[of sz i s]
    by (fastforce dest!: freelist_alloc_break split: if_splits bind_splits)
qed

lemma segregate_malloc_break: "segregate_mm_malloc n s = Some (p, s') \<Longrightarrow> mem_brk s \<le> mem_brk s'"
  by (auto simp: segregate_mm_malloc_def Let_def dest!: freelist_search_break segregate_extend_break
      split: if_splits bind_splits prod.splits)

lemma segregate_realloc_break: "segregate_mm_realloc p n s = Some (q, s') \<Longrightarrow> mem_brk s \<le> mem_brk s'"
  by (auto simp: segregate_mm_realloc_def Let_def segregate_mm_free_def dest!: segregate_malloc_break
      split: if_splits bind_splits)

section \<open>The contract with a break that only grows\<close>

locale growing_allocator = allocator wf P req ovh
  for wf :: "mstate \<Rightarrow> (addr \<times> int) set \<Rightarrow> bool" and P :: mm_pkg and req :: "size_t \<Rightarrow> bool" and ovh :: int +
  assumes ovh_pos: "0 < ovh"
    and malloc_grows: "pkg_malloc P n s = Some (p, s') \<Longrightarrow> mem_brk s \<le> mem_brk s'"
    and realloc_grows: "pkg_realloc P p n s = Some (q, s') \<Longrightarrow> mem_brk s \<le> mem_brk s'"

text \<open>
  A package that can be started again and again: \<open>startable\<close> says which empty heaps
  initialisation accepts, and clearing the arena after any use leads back to such a heap. The
  implicit allocator needs zeroed memory; the segregated one starts whatever the arena holds.
  \<open>resizes\<close> says whether realloc cannot fail while there is room.
\<close>

locale restartable_allocator = growing_allocator wf P req ovh
  for wf :: "mstate \<Rightarrow> (addr \<times> int) set \<Rightarrow> bool" and P :: mm_pkg and req :: "size_t \<Rightarrow> bool" and ovh :: int +
  fixes startable :: "mstate \<Rightarrow> bool" and resizes :: bool
  assumes startable_empty: "startable s \<Longrightarrow> mem_wf s \<and> mem_brk s = mem_start_brk s"
    and restart: "startable s \<Longrightarrow> \<exists>s'. pkg_init P s = (0, s') \<and> wf s' {}
      \<and> same_arena s s' \<and> mem_brk s' = mem_start_brk s + ovh"
    and cleared: "wf s L \<Longrightarrow> startable (mem_clear s)"
    and resize_total: "resizes \<Longrightarrow> wf s L \<Longrightarrow> (p, c) \<in> L \<Longrightarrow> req n \<Longrightarrow> room (cost n) s \<Longrightarrow>
      \<exists>q s'. pkg_realloc P p n s = Some (q, s') \<and> q \<noteq> NULL"

interpretation implicit_grows: growing_allocator "implicit_wf fit" "mm_package (USE_IMPLICIT fit)" implicit_req 16 for fit
  by unfold_locales (simp_all add: implicit_malloc_break implicit_realloc_break)

lemma mem_clear_empty: "mem_wf s \<Longrightarrow> mem_wf (mem_clear s) \<and> mem_brk (mem_clear s) = mem_start_brk (mem_clear s)"
  by (simp add: mem_clear_def mem_reset_brk_def mem_wf_def)

lemma implicit_cleared:
  assumes "implicit_wf fit s L"
  shows "pristine (mem_clear s)"
proof -
  have w: "mem_wf s" using implicit_wf_payloads assms by (rule payloads.wf_mem)
  have "empty_front (s\<lparr>mem := memset (mem s) (mem_start_brk s) 0 MAX_HEAP\<rparr>)"
    by (rule empty_front_upd[OF implicit_wf_front[OF assms]]) (auto intro!: same_on_memset)
  moreover have "fresh (mem_clear s)"
    using w by (auto simp: fresh_def mem_clear_def mem_reset_brk_def memset_def mem_wf_def)
  ultimately show ?thesis using mem_clear_empty[OF w] by (simp add: pristine_def) (simp add: mem_clear_def mem_reset_brk_def)
qed

interpretation implicit_restarts:
  restartable_allocator "implicit_wf fit" "mm_package (USE_IMPLICIT fit)" implicit_req 16 pristine False for fit
  by unfold_locales (auto simp: pristine_def implicit_init_ok[unfolded pristine_def] dest: implicit_cleared[unfolded pristine_def])

interpretation segregate_restarts: restartable_allocator segregate_wf "mm_package USE_SEGREGATE_FIT" segregate_req 104
    "\<lambda>s. mem_wf s \<and> mem_brk s = mem_start_brk s" True
  by (unfold_locales; ((rule segregate.realloc_total; assumption)
    | auto simp: segregate_malloc_break segregate_realloc_break
      intro: segregate_init_clean dest: segregate.wf_mem mem_clear_empty))

end
