(* ===== verification/Driver_Util.thy ===== *)
theory Driver_Util
  imports Growing
begin

text \<open>
  \<open>eval_mm_util\<close> and \<open>eval_mm_speed\<close> on a package that keeps the contract. The specification of
  the space utilisation is \<open>peak\<close>: the largest total, over all prefixes of the trace, of the
  sizes a client holds. The quotient is between 0 and 1 because the payloads of a heap are
  disjoint and the break never moves back.
\<close>

section \<open>The demand of a trace\<close>

definition demand :: "(int \<rightharpoonup> int) \<Rightarrow> int" where
  "demand B = (\<Sum>i\<in>dom B. the (B i))"

definition demand_step :: "traceop_t \<Rightarrow> (int \<rightharpoonup> int) \<Rightarrow> (int \<rightharpoonup> int)" where
  "demand_step r B =
     (if op_type r = FREE then B(sint (op_index r) := None)
      else B(sint (op_index r) \<mapsto> sint (op_size r)))"

fun peak :: "(int \<rightharpoonup> int) \<Rightarrow> traceop_t list \<Rightarrow> int" where
  "peak B [] = demand B"
| "peak B (r # os) = max (demand B) (peak (demand_step r B) os)"

lemma demand_le_peak: "demand B \<le> peak B os"
  by (cases os) auto

lemma demand_empty [simp]: "demand Map.empty = 0"
  by (simp add: demand_def)

lemma demand_remove:
  assumes "finite (dom B)"
  shows "demand (B(i := None)) = demand B - (case B i of None \<Rightarrow> 0 | Some n \<Rightarrow> n)"
proof (cases "B i")
  case None
  then have "B(i := None) = B" by (simp add: fun_upd_idem)
  then show ?thesis using None by simp
next
  case (Some n)
  then have "demand B = n + (\<Sum>j\<in>dom B - {i}. the (B j))"
    unfolding demand_def by (subst sum.remove[OF assms, of i]) auto
  moreover have "demand (B(i := None)) = (\<Sum>j\<in>dom B - {i}. the (B j))"
    unfolding demand_def by (rule sum.cong) auto
  ultimately show ?thesis using Some by simp
qed

lemma demand_update:
  assumes "finite (dom B)"
  shows "demand (B(i \<mapsto> n)) = demand B - (case B i of None \<Rightarrow> 0 | Some n \<Rightarrow> n) + n"
proof -
  have "demand (B(i \<mapsto> n)) = demand (B(i := None)) + n"
    using demand_remove[of "B(i \<mapsto> n)" i] assms by simp
  then show ?thesis using demand_remove[OF assms] by simp
qed

section \<open>The book-keeping of the loop\<close>

definition sizes :: "driver \<Rightarrow> book \<Rightarrow> (int \<rightharpoonup> int)" where
  "sizes d A = (\<lambda>i. map_option (\<lambda>_. block_size d i) (A i))"

lemma sizes_dom [simp]: "dom (sizes d A) = dom A"
  by (auto simp: sizes_def)

lemma sizes_at [simp]: "A i = None \<Longrightarrow> sizes d A i = None" "A i = Some x \<Longrightarrow> sizes d A i = Some (block_size d i)"
  by (simp_all add: sizes_def)

lemma sizes_cong: "trace d' = trace d \<Longrightarrow> sizes d' A = sizes d A"
  by (simp add: sizes_def block_size_def)

lemma sizes_del: "sizes d (A(i := None)) = (sizes d A)(i := None)"
  by (auto simp: sizes_def)

lemma arrays_finite: "arrays d A \<Longrightarrow> finite (dom A)"
  by (rule finite_subset[of _ "{0..<int (length (blocks (trace d)))}"]) (auto dest: arraysD(2))

text \<open>Recording a payload in the two arrays.\<close>

definition enter :: "c_int \<Rightarrow> c_int \<Rightarrow> addr \<Rightarrow> mstate \<Rightarrow> driver \<Rightarrow> driver" where
  "enter w sz p s d = set_block_size w sz (set_block w p (d\<lparr>heap := s\<rparr>))"

lemma enter_fields [simp]:
  "heap (enter w sz p s d) = s" "errors (enter w sz p s d) = errors d"
  "libc_ok (enter w sz p s d) = libc_ok d" "length (blocks (trace (enter w sz p s d))) = length (blocks (trace d))"
  "ops (trace (enter w sz p s d)) = ops (trace d)" "num_ops (trace (enter w sz p s d)) = num_ops (trace d)"
  by (simp_all add: enter_def set_block_size_def set_block_def)

lemma enter_stamp: "trace (enter w sz p s d) = trace (stamp w sz p d)"
  by (simp add: enter_def stamp_fields) (simp add: set_block_size_def set_block_def)

lemma enter_arrays:
  assumes a: "arrays d A" and i: "i = sint w" "0 \<le> i" "i < int (length (blocks (trace d)))" "A i = None"
    and z: "0 < sint sz" "sint sz \<le> c" and n: "\<And>e. (p, e) \<notin> ran A"
  shows "arrays (enter w sz p s d) (A(i \<mapsto> (p, c)))"
    "sizes (enter w sz p s d) (A(i \<mapsto> (p, c))) = (sizes d A)(i \<mapsto> sint sz)"
proof -
  note sa = stamp_arrays[OF a i z n] and t = enter_stamp[of w sz p s d]
  show "arrays (enter w sz p s d) (A(i \<mapsto> (p, c)))" using sa(1) arrays_cong[OF t] by simp
  have "block_size (stamp w sz p d) j = block_size d j" if "A j \<noteq> None" for j using sa(2) that by auto
  then have "sizes (stamp w sz p d) (A(i \<mapsto> (p, c))) = (sizes d A)(i \<mapsto> sint sz)"
    using sa(3) i(4) by (auto simp: sizes_def fun_eq_iff map_option_case split: option.splits)
  then show "sizes (enter w sz p s d) (A(i \<mapsto> (p, c))) = (sizes d A)(i \<mapsto> sint sz)"
    using sizes_cong[OF t] by simp
qed

lemma sint_add:
  assumes "- (2 ^ 31) \<le> sint (a :: c_int) + sint b" "sint a + sint b < 2 ^ 31"
  shows "sint (a + b) = sint a + sint b"
  using assms by (simp add: sint_word_ariths signed_take_bit_int_eq_self)

lemma sint_diff:
  assumes "- (2 ^ 31) \<le> sint (a :: c_int) - sint b" "sint a - sint b < 2 ^ 31"
  shows "sint (a - b) = sint a - sint b"
  using assms by (simp add: sint_word_ariths signed_take_bit_int_eq_self)

lemma add_total_ok:
  assumes "sint (total_size u) + sint n = t" "0 \<le> t" "t < 2 ^ 31"
  shows "sint (total_size (add_total n u)) = t" "drv (add_total n u) = drv u"
    "sint (max_total_size (add_total n u)) = max (sint (max_total_size u)) t"
  using assms sint_add[of "total_size u" n] by (simp_all add: add_total_def Let_def)

context payloads
begin

lemma demand_fits:
  assumes w: "wf (heap d) (ran A)" and a: "arrays d A"
  shows "0 \<le> demand (sizes d A)" "demand (sizes d A) \<le> mem_brk (heap d) - mem_start_brk (heap d)"
    "mem_brk (heap d) - mem_start_brk (heap d) < 2 ^ 31"
proof -
  note aD = arraysD[OF a]
  have le: "0 \<le> the (sizes d A i)" "the (sizes d A i) \<le> snd (the (A i))" if "i \<in> dom A" for i
    using that aD(3) by (force simp: sizes_def)+
  have inj: "inj_on (the \<circ> A) (dom A)"
    using aD(4) by (fastforce intro: inj_onI)
  have ran: "(the \<circ> A) ` dom A = ran A" by (force simp: ran_def)
  show "0 \<le> demand (sizes d A)" unfolding demand_def sizes_dom by (rule sum_nonneg) (rule le)
  have "demand (sizes d A) \<le> (\<Sum>i\<in>dom A. snd ((the \<circ> A) i))"
    unfolding demand_def sizes_dom o_def by (rule sum_mono) (rule le)
  also have "\<dots> = (\<Sum>(p, c)\<in>ran A. c)"
    unfolding ran[symmetric] sum.reindex[OF inj] by (simp add: o_def case_prod_beta)
  also have "\<dots> \<le> mem_brk (heap d) - mem_start_brk (heap d)" by (rule wf_total[OF w])
  finally show "demand (sizes d A) \<le> mem_brk (heap d) - mem_start_brk (heap d)" .
  show "mem_brk (heap d) - mem_start_brk (heap d) < 2 ^ 31"
    using wf_mem[OF w] by (simp add: mem_wf_def c_const)
qed

end

text \<open>The loop after some requests: \<open>A\<close> is the book and \<open>M\<close> the peak so far.\<close>

definition util_inv :: "(mstate \<Rightarrow> (addr \<times> int) set \<Rightarrow> bool) \<Rightarrow> util \<Rightarrow> book \<Rightarrow> int \<Rightarrow> bool" where
  "util_inv W u A M \<longleftrightarrow> W (heap (drv u)) (ran A) \<and> arrays (drv u) A
     \<and> sint (total_size u) = demand (sizes (drv u) A) \<and> sint (max_total_size u) = M
     \<and> demand (sizes (drv u) A) \<le> M \<and> M \<le> mem_brk (heap (drv u)) - mem_start_brk (heap (drv u))
     \<and> mem_start_brk (heap (drv u)) < mem_brk (heap (drv u))"

context growing_allocator
begin

lemma util_inv_next:
  assumes inv: "util_inv wf u A M" and d: "drv u' = d'" and w: "wf (heap d') (ran A')" "arrays d' A'"
    and t: "sint (total_size u') = demand (sizes d' A')"
      "sint (max_total_size u') = max (sint (max_total_size u)) (demand (sizes d' A'))"
    and f: "same_arena (heap (drv u)) (heap d')" "mem_brk (heap (drv u)) \<le> mem_brk (heap d')"
  shows "util_inv wf u' A' (max M (demand (sizes d' A')))"
  using assms demand_fits[OF w] by (auto simp: util_inv_def same_arena_def)

lemma util_alloc_ok:
  assumes inv: "util_inv wf u A M" and r: "op_type r = ALLOC" "i = sint (op_index r)" "sz = op_size r"
    and rm: "room (cost (scast sz)) (heap (drv u))"
    and i: "0 \<le> i" "i < int (length (blocks (trace (drv u))))" "A i = None"
    and z: "0 < sint sz" "req (scast sz)"
  shows "\<exists>u' A'. util_op P r u = Ret None u' \<and> sizes (drv u') A' = demand_step r (sizes (drv u) A)
    \<and> util_inv wf u' A' (max M (demand (sizes (drv u') A'))) \<and> drv_frame (drv u) (drv u')
    \<and> mem_brk (heap (drv u')) \<le> mem_brk (heap (drv u)) + cost (scast sz)"
proof -
  let ?d = "drv u" and ?w = "op_index r"
  have v: "wf (heap ?d) (ran A)" "arrays ?d A" "sint (total_size u) = demand (sizes ?d A)"
    using inv by (auto simp: util_inv_def)
  obtain p s' where p: "pkg_malloc P (scast sz) (heap ?d) = Some (p, s')" "p \<noteq> NULL"
    using malloc_ok[OF v(1) z(2)] rm by (metis (full_types))
  then obtain c where c: "sint sz \<le> c" "\<And>e. (p, e) \<notin> ran A" "wf s' (insert (p, c) (ran A))"
    "same_arena (heap ?d) s'" "mem_brk s' \<le> mem_brk (heap ?d) + cost (scast sz)"
    using malloc_ok[OF v(1) z(2)] by (auto simp: uint_scast_pos[OF z(1)])
  let ?A = "A(i \<mapsto> (p, c))" and ?d' = "enter ?w sz p s' ?d"
  let ?u = "add_total sz (u\<lparr>drv := ?d'\<rparr>)"
  note e = enter_arrays[OF v(2) r(2) i z(1) c(1,2), of s']
  have w': "wf (heap ?d') (ran ?A)" using c(3) i(3) by (simp add: ran_map_upd)
  have dm: "demand (sizes ?d' ?A) = demand (sizes ?d A) + sint sz"
    unfolding e(2) using demand_update[of "sizes ?d A"] arrays_finite[OF v(2)] i(3) by simp
  have t: "sint (total_size (u\<lparr>drv := ?d'\<rparr>)) + sint sz = demand (sizes ?d' ?A)"
    "0 \<le> demand (sizes ?d' ?A)" "demand (sizes ?d' ?A) < 2 ^ 31"
    using dm v(3) demand_fits[OF w' e(1)] by simp_all
  note a = add_total_ok[OF t]
  have "mem_brk (heap ?d) \<le> mem_brk s'" by (rule malloc_grows[OF p(1)])
  then have "util_inv wf ?u ?A (max M (demand (sizes ?d' ?A)))"
    using util_inv_next[OF inv _ w' e(1), of ?u] a c(4) by simp
  moreover have "util_op P r u = Ret None ?u"
    using p r i(1,2) arraysD(1)[OF v(2)]
    by (simp add: util_op_def index_ok_def in_array_def Let_def enter_def)
  moreover have "drv_frame ?d ?d'" using c(4) by (simp add: drv_frame_def)
  ultimately show ?thesis
    using a(2) e(2) r c(5) by (intro exI[of _ ?u] exI[of _ ?A]) (simp add: demand_step_def)
qed

lemma util_free_ok:
  assumes inv: "util_inv wf u A M" and r: "op_type r = FREE" "i = sint (op_index r)" "i \<in> dom A"
  shows "\<exists>u' A'. util_op P r u = Ret None u' \<and> sizes (drv u') A' = demand_step r (sizes (drv u) A)
    \<and> util_inv wf u' A' (max M (demand (sizes (drv u') A'))) \<and> drv_frame (drv u) (drv u')
    \<and> mem_brk (heap (drv u')) = mem_brk (heap (drv u)) \<and> dom A' = dom A - {i}"
proof -
  let ?d = "drv u" and ?w = "op_index r"
  have v: "wf (heap ?d) (ran A)" "arrays ?d A" "sint (total_size u) = demand (sizes ?d A)"
    "sint (max_total_size u) = M" "demand (sizes ?d A) \<le> M"
    using inv by (auto simp: util_inv_def)
  obtain p c where p: "A i = Some (p, c)" using r(3) by auto
  then have "(p, c) \<in> ran A" by (auto simp: ran_def)
  note f = free_ok[OF v(1) this] and g = arr_get_block[OF v(2) p r(2)] and aD = arraysD(3)[OF v(2) p]
  let ?A = "A(i := None)" and ?d' = "?d\<lparr>heap := pkg_free P p (heap ?d)\<rparr>"
  let ?n = "ucast (arr_get (block_sizes (trace ?d)) ?w) :: c_int"
  let ?u = "u\<lparr>drv := ?d', total_size := total_size u - ?n\<rparr>"
  have n: "sint ?n = block_size ?d i" using sint_ucast_small g(2) aD by simp
  have sz: "sizes ?d' ?A = (sizes ?d A)(i := None)" using sizes_del sizes_cong[of ?d' ?d] by simp
  have dm: "demand (sizes ?d' ?A) = demand (sizes ?d A) - block_size ?d i"
    unfolding sz using demand_remove[of "sizes ?d A"] arrays_finite[OF v(2)] p by simp
  have w': "wf (heap ?d') (ran ?A)" using f ran_del(1)[OF v(2) p] by simp
  have a': "arrays ?d' ?A" using arrays_del[OF v(2)] arrays_cong[of ?d' ?d] by simp
  note ft = demand_fits[OF w' a'] and ft0 = demand_fits[OF v(1,2)]
  have t: "sint (total_size ?u) = demand (sizes ?d' ?A)"
    using sint_diff[of "total_size u" ?n] v(3) n dm ft by simp
  have "demand (sizes ?d' ?A) \<le> M" using dm v(5) aD by simp
  then have "util_inv wf ?u ?A (max M (demand (sizes ?d' ?A)))"
    using util_inv_next[OF inv _ w' a', of ?u] t f v(4) by simp
  moreover have "util_op P r u = Ret None ?u" using r(1) g by (simp add: util_op_def Let_def)
  moreover have "drv_frame ?d ?d'" using f by (simp add: drv_frame_def)
  ultimately show ?thesis
    using sz r f by (intro exI[of _ ?u] exI[of _ ?A]) (auto simp: demand_step_def)
qed

lemma util_realloc_ok:
  assumes inv: "util_inv wf u A M" and r: "op_type r = REALLOC" "i = sint (op_index r)" "sz = op_size r"
    and rm: "room (cost (scast sz)) (heap (drv u))" and i: "i \<in> dom A"
    and z: "0 < sint sz" "req (scast sz)"
    and tot: "\<forall>p c. (p, c) \<in> ran A \<longrightarrow> (\<exists>q s'. pkg_realloc P p (scast sz) (heap (drv u)) = Some (q, s') \<and> q \<noteq> NULL)"
  shows "\<exists>u' A'. util_op P r u = Ret None u' \<and> sizes (drv u') A' = demand_step r (sizes (drv u) A)
    \<and> util_inv wf u' A' (max M (demand (sizes (drv u') A'))) \<and> drv_frame (drv u) (drv u')
    \<and> mem_brk (heap (drv u')) \<le> mem_brk (heap (drv u)) + cost (scast sz)"
proof -
  let ?d = "drv u" and ?w = "op_index r"
  have v: "wf (heap ?d) (ran A)" "arrays ?d A" "sint (total_size u) = demand (sizes ?d A)"
    using inv by (auto simp: util_inv_def)
  obtain p c where p: "A i = Some (p, c)" using i by auto
  then have pr: "(p, c) \<in> ran A" by (auto simp: ran_def)
  obtain q s' where q: "pkg_realloc P p (scast sz) (heap ?d) = Some (q, s')" "q \<noteq> NULL"
    using tot pr by blast
  note rD = ran_del[OF v(2) p] and g = arr_get_block[OF v(2) p r(2)] and aD = arraysD[OF v(2)]
  let ?B = "A(i := None)"
  obtain c' where c': "sint sz \<le> c'" "\<And>e. (q, e) \<notin> ran ?B" "wf s' (insert (q, c') (ran ?B))"
    "same_arena (heap ?d) s'" "mem_brk s' \<le> mem_brk (heap ?d) + cost (scast sz)"
    using realloc_ok[OF v(1) pr z(2) rm q] unfolding rD(1) uint_scast_pos[OF z(1)] by blast
  let ?A = "?B(i \<mapsto> (q, c'))" and ?d' = "enter ?w sz q s' ?d"
  let ?n = "ucast (arr_get (block_sizes (trace ?d)) ?w) :: c_int"
  let ?u = "add_total (sz - ?n) (u\<lparr>drv := ?d'\<rparr>)"
  have ix: "0 \<le> i" "i < int (length (blocks (trace ?d)))" "?B i = None" using aD(2)[OF p] by auto
  note e = enter_arrays[OF arrays_del[OF v(2)] r(2) ix z(1) c'(1,2), of s']
  have w': "wf (heap ?d') (ran ?A)" using c'(3) ran_map_upd[of ?B i "(q, c')"] by simp
  note bs = aD(3)[OF p] and fin = arrays_finite[OF v(2)]
  have n: "sint ?n = block_size ?d i" using sint_ucast_small g(2) bs by simp
  have sz: "sizes ?d' ?A = (sizes ?d A)(i \<mapsto> sint sz)" using e(2) by (simp add: sizes_del)
  have dm: "demand (sizes ?d' ?A) = demand (sizes ?d A) + (sint sz - sint ?n)"
    unfolding sz n using demand_update[of "sizes ?d A"] fin p by simp
  have df: "sint (sz - ?n) = sint sz - sint ?n"
    by (rule sint_diff) (use z(1) n bs sint_lt[of sz] in simp_all)
  have t: "sint (total_size (u\<lparr>drv := ?d'\<rparr>)) + sint (sz - ?n) = demand (sizes ?d' ?A)"
    "0 \<le> demand (sizes ?d' ?A)" "demand (sizes ?d' ?A) < 2 ^ 31"
    using dm df v(3) demand_fits[OF w' e(1)] by simp_all
  note a = add_total_ok[OF t]
  have "mem_brk (heap ?d) \<le> mem_brk s'" by (rule realloc_grows[OF q(1)])
  then have "util_inv wf ?u ?A (max M (demand (sizes ?d' ?A)))"
    using util_inv_next[OF inv _ w' e(1), of ?u] a c'(4) by simp
  moreover have "util_op P r u = Ret None ?u"
    using q r g by (simp add: util_op_def Let_def enter_def)
  moreover have "drv_frame ?d ?d'" using c'(4) by (simp add: drv_frame_def)
  ultimately show ?thesis
    using a(2) sz r c'(5) by (intro exI[of _ ?u] exI[of _ ?A]) (simp add: demand_step_def)
qed

lemma util_run:
  assumes "good_ops req (int (length (blocks (trace (drv u))))) re ids os" "util_inv wf u A M" "dom A = set ids"
    and "room (ops_cost os) (heap (drv u))" "re \<longrightarrow> realloc_succeeds wf P req"
  shows "\<exists>u' A'. for_ops (util_op P) (length os) os u = Ret None u'
    \<and> util_inv wf u' A' (max M (peak (sizes (drv u) A) os)) \<and> drv_frame (drv u) (drv u')"
  using assms
proof (induction os arbitrary: ids u A M)
  case Nil
  then have "max M (peak (sizes (drv u) A) []) = M" by (simp add: util_inv_def)
  then show ?case using Nil.prems(2) by (auto simp: drv_frame_refl)
next
  case (Cons r os)
  let ?d = "drv u" and ?i = "sint (op_index r)" and ?z = "op_size r"
  have v: "wf (heap ?d) (ran A)" "demand (sizes ?d A) \<le> M" using Cons.prems(2) by (auto simp: util_inv_def)
  have next_step: ?case
    if st: "util_op P r u = Ret None u1" "sizes (drv u1) A1 = demand_step r (sizes ?d A)"
      "util_inv wf u1 A1 (max M (demand (sizes (drv u1) A1)))" "drv_frame ?d (drv u1)"
      "mem_brk (heap (drv u1)) \<le> mem_brk (heap ?d) + (ops_cost (r # os) - ops_cost os)"
      "dom A1 = set ids1" "good_ops req (int (length (blocks (trace ?d)))) re ids1 os" for u1 A1 ids1
  proof -
    have fr: "length (blocks (trace (drv u1))) = length (blocks (trace ?d))" "same_arena (heap ?d) (heap (drv u1))"
      using st(4) by (auto simp: drv_frame_def)
    have "room (ops_cost os) (heap (drv u1))"
      by (rule room_step[OF _ fr(2) st(5)]) (use Cons.prems(4) in simp)
    then obtain u' A' where u': "for_ops (util_op P) (length os) os u1 = Ret None u'"
      "util_inv wf u' A' (max (max M (demand (sizes (drv u1) A1))) (peak (sizes (drv u1) A1) os))" "drv_frame (drv u1) (drv u')"
      using Cons.IH[OF _ st(3,6) _ Cons.prems(5)] st(7) fr(1) by metis
    have "max (max M (demand (sizes (drv u1) A1))) (peak (sizes (drv u1) A1) os)
        = max M (peak (sizes ?d A) (r # os))"
      using demand_le_peak[of "sizes (drv u1) A1" os] v(2) st(2) by simp
    then have "util_inv wf u' A' (max M (peak (sizes ?d A) (r # os)))" using u'(2) by (simp only:)
    moreover have "for_ops (util_op P) (length (r # os)) (r # os) u = Ret None u'" using st(1) u'(1) by simp
    ultimately show ?thesis using drv_frame_trans[OF st(4) u'(3)] by blast
  qed
  have rm: "op_type r \<noteq> FREE \<Longrightarrow> room (cost (scast ?z)) (heap ?d)"
    using Cons.prems(4) ops_cost_nonneg[of os] by (auto intro: room_mono)
  have dm: "dom (demand_step r (sizes ?d A)) = (if op_type r = FREE then set (removeAll ?i ids) else set (?i # ids))"
    using Cons.prems(3) by (simp add: demand_step_def)
  show ?case
  proof (cases "op_type r")
    case ALLOC
    then have g: "0 \<le> ?i" "?i < int (length (blocks (trace ?d)))" "?i \<notin> set ids" "0 < sint ?z" "req (scast ?z)"
      "good_ops req (int (length (blocks (trace ?d)))) re (?i # ids) os"
      using Cons.prems(1) by (auto simp: Let_def)
    have none: "A ?i = None" using g(3) Cons.prems(3) by auto
    from util_alloc_ok[OF Cons.prems(2) ALLOC refl refl rm g(1,2) none g(4,5)] ALLOC
    obtain u1 A1 where "util_op P r u = Ret None u1" "sizes (drv u1) A1 = demand_step r (sizes ?d A)"
      "util_inv wf u1 A1 (max M (demand (sizes (drv u1) A1)))" "drv_frame ?d (drv u1)"
      "mem_brk (heap (drv u1)) \<le> mem_brk (heap ?d) + cost (scast ?z)" by auto
    then show ?thesis
      using next_step[of u1 A1 "?i # ids"] ALLOC g(6) dm sizes_dom[of "drv u1" A1] by simp
  next
    case FREE
    then have g: "?i \<in> set ids" "good_ops req (int (length (blocks (trace ?d)))) re (removeAll ?i ids) os"
      using Cons.prems(1) by (auto simp: Let_def)
    have "?i \<in> dom A" using g(1) Cons.prems(3) by simp
    from util_free_ok[OF Cons.prems(2) FREE refl this]
    obtain u1 A1 where "util_op P r u = Ret None u1" "sizes (drv u1) A1 = demand_step r (sizes ?d A)"
      "util_inv wf u1 A1 (max M (demand (sizes (drv u1) A1)))" "drv_frame ?d (drv u1)"
      "mem_brk (heap (drv u1)) = mem_brk (heap ?d)" by blast
    then show ?thesis
      using next_step[of u1 A1 "removeAll ?i ids"] FREE g(2) dm sizes_dom[of "drv u1" A1] by simp
  next
    case REALLOC
    then have g: "re" "?i \<in> set ids" "0 < sint ?z" "req (scast ?z)"
      "good_ops req (int (length (blocks (trace ?d)))) re ids os"
      using Cons.prems(1) by (auto simp: Let_def)
    have dom: "?i \<in> dom A" using g(2) Cons.prems(3) by simp
    have rm': "room (cost (scast ?z)) (heap ?d)" using rm REALLOC by simp
    have tot: "\<forall>p c. (p, c) \<in> ran A \<longrightarrow>
        (\<exists>q s'. pkg_realloc P p (scast ?z) (heap ?d) = Some (q, s') \<and> q \<noteq> NULL)"
      using Cons.prems(5)[unfolded realloc_succeeds_def] g(1,4) v(1) rm' by blast
    from util_realloc_ok[OF Cons.prems(2) REALLOC refl refl rm' dom g(3,4) tot]
    obtain u1 A1 where "util_op P r u = Ret None u1" "sizes (drv u1) A1 = demand_step r (sizes ?d A)"
      "util_inv wf u1 A1 (max M (demand (sizes (drv u1) A1)))" "drv_frame ?d (drv u1)"
      "mem_brk (heap (drv u1)) \<le> mem_brk (heap ?d) + cost (scast ?z)" by auto
    then show ?thesis
      using next_step[of u1 A1 ids] REALLOC g(2,5) dm sizes_dom[of "drv u1" A1] by (auto simp: insert_absorb)
  qed
qed

text \<open>The result is the peak demand over the size of the heap, at most 1.\<close>

lemma eval_mm_util_ok:
  assumes t: "trace_ok req re ovh d" and re: "re \<longrightarrow> realloc_succeeds wf P req"
    and s': "pkg_init P (heap d) = (0, s')" "wf s' {}" "mem_brk s' = mem_start_brk s' + ovh"
  shows "\<exists>u. eval_mm_util P d = Ret (real_of_int (peak Map.empty (ops (trace d)))
        / real_of_int (mem_brk (heap (drv u)) - mem_start_brk (heap (drv u)))) u
    \<and> 0 \<le> peak Map.empty (ops (trace d))
    \<and> peak Map.empty (ops (trace d)) \<le> mem_brk (heap (drv u)) - mem_start_brk (heap (drv u))
    \<and> mem_start_brk (heap (drv u)) < mem_brk (heap (drv u))
    \<and> drv_frame (d\<lparr>heap := s'\<rparr>) (drv u) \<and> (\<exists>L. wf (heap (drv u)) L)
    \<and> length (block_sizes (trace (drv u))) = length (blocks (trace (drv u)))"
proof -
  let ?u = "\<lparr>drv = d\<lparr>heap := s'\<rparr>, total_size = 0, max_total_size = 0\<rparr>"
  note tr = t[unfolded trace_ok_def]
  have mx: "mem_max_addr s' = mem_start_brk s' + MAX_HEAP" "mem_start_brk s' \<le> mem_brk s'"
    using wf_mem[OF s'(2)] by (simp_all add: mem_wf_def)
  then have "room (ops_cost (ops (trace d))) (heap (drv ?u))" using tr s'(3) by (simp add: room_def)
  moreover have "sizes (drv ?u) Map.empty = Map.empty" by (simp add: sizes_def)
  then have "util_inv wf ?u Map.empty 0" using s'(2,3) tr mx(2) ovh_pos by (simp add: util_inv_def arrays_def)
  ultimately obtain u' A' where u': "for_ops (util_op P) (length (ops (trace d))) (ops (trace d)) ?u = Ret None u'"
    "util_inv wf u' A' (max 0 (peak (sizes (drv ?u) Map.empty) (ops (trace d))))" "drv_frame (drv ?u) (drv u')"
    using util_run[of ?u re "[]" "ops (trace d)" Map.empty 0] tr re by auto
  have pk: "max 0 (peak (sizes (drv ?u) Map.empty) (ops (trace d))) = peak Map.empty (ops (trace d))"
    using demand_le_peak[of Map.empty "ops (trace d)"] \<open>sizes (drv ?u) Map.empty = Map.empty\<close> by simp
  note i = u'(2)[unfolded pk util_inv_def]
  have wf': "mem_wf (heap (drv u'))" using i wf_mem by blast
  then have hs: "uint (mem_heapsize (heap (drv u'))) = mem_brk (heap (drv u')) - mem_start_brk (heap (drv u'))"
    unfolding mem_heapsize_def uint_word_of_int
    by (intro mod_pos_pos_trivial) (simp_all add: mem_wf_def c_const)
  then have "mem_heapsize (heap (drv u')) \<noteq> 0" using i by auto
  moreover note hs
  moreover have "nat (sint (num_ops (trace d))) = length (ops (trace d))" using tr by simp
  ultimately have "eval_mm_util P d = Ret (real_of_int (peak Map.empty (ops (trace d)))
        / real_of_int (mem_brk (heap (drv u')) - mem_start_brk (heap (drv u')))) u'"
    using u'(1) s'(1) i by (simp add: eval_mm_util_def del: of_int_sint of_int_uint)
  then show ?thesis
    using i u'(3) exI[of "wf (heap (drv u'))" "ran A'"] demand_le_peak[of Map.empty "ops (trace d)"] arraysD(1)[of "drv u'" A']
    by (intro exI[of _ u']) simp
qed

end

section \<open>eval_mm_speed repeats the calls of eval_mm_util\<close>

definition follows :: "driver \<Rightarrow> driver \<Rightarrow> driver" where
  "follows d e = d\<lparr>heap := heap e, trace := (trace d)\<lparr>blocks := blocks (trace e)\<rparr>\<rparr>"

lemma follows_fields [simp]:
  "heap (follows d e) = heap e" "blocks (trace (follows d e)) = blocks (trace e)"
  "errors (follows d e) = errors d" "libc_ok (follows d e) = libc_ok d"
  "ops (trace (follows d e)) = ops (trace d)" "num_ops (trace (follows d e)) = num_ops (trace d)"
  "block_sizes (trace (follows d e)) = block_sizes (trace d)"
  "follows (follows d e) e' = follows d e'"
  by (simp_all add: follows_def)

lemma speed_op_follows:
  assumes "util_op P r u = Ret v u'"
  shows "v = None \<and> speed_op P r (follows d (drv u)) = Ret None (follows d (drv u'))"
proof (cases "op_type r")
  case ALLOC
  then show ?thesis using assms
    by (auto simp: util_op_def speed_op_def Let_def app_error_def index_ok_def set_block_def set_block_size_def
        follows_def add_total_def split: option.splits prod.splits if_splits)
next
  case FREE
  then show ?thesis using assms
    by (auto simp: util_op_def speed_op_def Let_def index_ok_def follows_def split: if_splits)
next
  case REALLOC
  then show ?thesis using assms
    by (auto simp: util_op_def speed_op_def Let_def realloc_error_def index_ok_def set_block_def set_block_size_def
        follows_def add_total_def split: option.splits prod.splits if_splits)
qed

lemma speed_run_follows:
  assumes "for_ops (util_op P) n os u = Ret v u'"
  shows "for_ops (speed_op P) n os (follows d (drv u)) = Ret None (follows d (drv u'))"
  using assms
proof (induction "util_op P" n os u rule: for_ops.induct)
  case (3 n r os u)
  then obtain w u1 where u1: "util_op P r u = Ret w u1"
    "(if w = None then for_ops (util_op P) n os u1 else Ret w u1) = Ret v u'"
    by (auto simp: and_then_Ret_iff)
  with speed_op_follows[OF u1(1), of d] show ?case using 3(1)[of w u1] by simp
qed simp_all

lemma eval_mm_speed_follows:
  assumes "eval_mm_util P d = Ret x u"
  shows "eval_mm_speed P d = Ret () (follows d (drv u))"
proof -
  obtain r s where i: "pkg_init P (heap d) = (r, s)" "\<not> sint r < 0"
    using assms by (cases "pkg_init P (heap d)") (auto simp: eval_mm_util_def app_error_def split: if_splits)
  let ?d = "d\<lparr>heap := s\<rparr>"
  let ?u = "\<lparr>drv = ?d, total_size = 0, max_total_size = 0\<rparr>"
  obtain v where "for_ops (util_op P) (nat (sint (num_ops (trace d)))) (ops (trace d)) ?u = Ret v u"
    using assms i by (auto simp: eval_mm_util_def and_then_Ret_iff split: if_splits)
  from speed_run_follows[OF this, of ?d] have
    "for_ops (speed_op P) (nat (sint (num_ops (trace d)))) (ops (trace d)) ?d = Ret None (follows d (drv u))"
    by (simp add: follows_def)
  then show ?thesis using i by (simp add: eval_mm_speed_def)
qed

end
