(* ===== verification/Clock.thy ===== *)
theory Clock
  imports Outcome
begin

text \<open>
  \<^verbatim>\<open>clock.c\<close>: cycle counters for the two processors the file supports, and counters that
  compensate for timer interrupts. The hardware counter and the user time \<open>times\<close> reports are
  parameters: \<open>tsc k\<close> is the value of the \<open>k\<close>-th reading, \<open>utime k\<close> the one of the \<open>k\<close>-th call.
  A \<open>double\<close> is taken as the real number it rounds; a division by zero has no defined result.
\<close>

unbundle bit_operations_syntax

datatype platform = I386 | ALPHA | OTHER_CPU

record clock =
  tsc :: "nat \<Rightarrow> 64 word"
  tsc_reads :: nat
  utime :: "nat \<Rightarrow> int"
  times_calls :: nat
  cyc_hi :: "32 word"
  cyc_lo :: "32 word"
  cyc_per_tick :: real
  start_tick :: int

section \<open>Cycle counters\<close>

definition access_counter :: "clock \<Rightarrow> (32 word \<times> 32 word) \<times> clock" where
  "access_counter c =
     (let v = tsc c (tsc_reads c)
      in ((ucast (drop_bit 32 v), ucast v), c\<lparr>tsc_reads := tsc_reads c + 1\<rparr>))"

text \<open>The routine of the Alpha returns the low half.\<close>

definition counter :: "clock \<Rightarrow> 32 word \<times> clock" where
  "counter c = (let ((_, lo), c) = access_counter c in (lo, c))"

definition alpha_start_counter :: "clock \<Rightarrow> (unit, clock) outcome" where
  [simp]: "alpha_start_counter c =
     (let c = c\<lparr>cyc_hi := 0\<rparr>; (l, c) = counter c in Ret () (c\<lparr>cyc_lo := l\<rparr>))"

text \<open>The version of all other processors prints an error and leaves the program.\<close>

definition missing_start_counter :: "clock \<Rightarrow> (unit, clock) outcome" where
  [simp]: "missing_start_counter c = Exit 1"

definition start_counter :: "platform \<Rightarrow> clock \<Rightarrow> (unit, clock) outcome" where
  "start_counter pf c =
     (case pf of
        I386 \<Rightarrow> (let ((h, l), c) = access_counter c in Ret () (c\<lparr>cyc_hi := h, cyc_lo := l\<rparr>))
      | ALPHA \<Rightarrow> alpha_start_counter c
      | OTHER_CPU \<Rightarrow> missing_start_counter c)"

text \<open>The double precision subtraction both versions of \<open>get_counter\<close> share.\<close>

definition elapsed :: "32 word \<Rightarrow> 32 word \<Rightarrow> clock \<Rightarrow> real" where
  "elapsed ncyc_hi ncyc_lo c =
     (let lo = ncyc_lo - cyc_lo c;
          borrow = of_bool (lo > ncyc_lo);
          hi = ncyc_hi - cyc_hi c - borrow
      in real_of_int (uint hi) * real_of_int (2 ^ 30) * 4 + real_of_int (uint lo))"

definition alpha_get_counter :: "clock \<Rightarrow> (real, clock) outcome" where
  [simp]: "alpha_get_counter c = (let (ncyc_lo, c) = counter c in Ret (elapsed 0 ncyc_lo c) c)"

definition missing_get_counter :: "clock \<Rightarrow> (real, clock) outcome" where
  [simp]: "missing_get_counter c = Exit 1"

definition get_counter :: "platform \<Rightarrow> clock \<Rightarrow> (real, clock) outcome" where
  "get_counter pf c =
     (case pf of
        I386 \<Rightarrow> (let ((ncyc_hi, ncyc_lo), c) = access_counter c in Ret (elapsed ncyc_hi ncyc_lo c) c)
      | ALPHA \<Rightarrow> alpha_get_counter c
      | OTHER_CPU \<Rightarrow> missing_get_counter c)"

text \<open>\<open>for (i = 0; i < 2; i++)\<close>, unrolled.\<close>

definition ovhd :: "platform \<Rightarrow> clock \<Rightarrow> (real, clock) outcome" where
  "ovhd pf c =
     and_then (start_counter pf c) (\<lambda>_ c.
     and_then (get_counter pf c) (\<lambda>_ c.
     and_then (start_counter pf c) (\<lambda>_ c. get_counter pf c)))"

definition mhz_full :: "platform \<Rightarrow> 32 word \<Rightarrow> clock \<Rightarrow> (real, clock) outcome" where
  "mhz_full pf sleeptime c =
     and_then (start_counter pf c) (\<lambda>_ c.
     and_then (get_counter pf c) (\<lambda>r c.
       if sleeptime = 0 then Undef else Ret (r / (1000000 * real_of_int (sint sleeptime))) c))"

definition mhz :: "platform \<Rightarrow> clock \<Rightarrow> (real, clock) outcome" where
  "mhz pf c = mhz_full pf 2 c"

section \<open>Compensated counters\<close>

definition NEVENT :: nat where "NEVENT = 100"
definition THRESHOLD :: real where "THRESHOLD = 1000"
definition RECORDTHRESH :: real where "RECORDTHRESH = 3000"

definition utime_now :: "clock \<Rightarrow> int \<times> clock" where
  "utime_now c = (utime c (times_calls c), c\<lparr>times_calls := times_calls c + 1\<rparr>)"

text \<open>One event: \<open>cpt\<close> cycles per tick are recorded if they are the fewest so far.\<close>

definition record_event :: "real \<Rightarrow> clock \<Rightarrow> clock" where
  "record_event cpt c =
     (if (cyc_per_tick c = 0 \<or> cyc_per_tick c > cpt) \<and> cpt > RECORDTHRESH
      then c\<lparr>cyc_per_tick := cpt\<rparr> else c)"

partial_function (option) callibrate_loop ::
  "platform \<Rightarrow> nat \<Rightarrow> real \<Rightarrow> int \<Rightarrow> clock \<Rightarrow> (unit, clock) outcome option" where
  "callibrate_loop pf e oldt oldc c =
     (if e < NEVENT
      then case get_counter pf c of
             Ret newt c \<Rightarrow>
               if newt - oldt \<ge> THRESHOLD
               then let (newc, c) = utime_now c
                    in if newc > oldc
                       then callibrate_loop pf (e + 1) newt newc
                              (record_event ((newt - oldt) / real_of_int (newc - oldc)) c)
                       else callibrate_loop pf e newt oldc c
               else callibrate_loop pf e oldt oldc c
           | Exit n \<Rightarrow> Some (Exit n)
           | Abort \<Rightarrow> Some Abort | Undef \<Rightarrow> Some Undef | Hang \<Rightarrow> None
      else Some (Ret () c))"

declare callibrate_loop.simps [code]

definition callibrate :: "platform \<Rightarrow> clock \<Rightarrow> (unit, clock) outcome" where
  "callibrate pf c =
     (let (oldc, c) = utime_now c
      in and_then (start_counter pf c) (\<lambda>_ c.
         and_then (get_counter pf c) (\<lambda>oldt c. loop_outcome (callibrate_loop pf 0 oldt oldc c))))"

definition start_comp_counter :: "platform \<Rightarrow> clock \<Rightarrow> (unit, clock) outcome" where
  "start_comp_counter pf c =
     and_then (if cyc_per_tick c = 0 then callibrate pf c else Ret () c) (\<lambda>_ c.
       let (t, c) = utime_now c in start_counter pf (c\<lparr>start_tick := t\<rparr>))"

definition get_comp_counter :: "platform \<Rightarrow> clock \<Rightarrow> (real, clock) outcome" where
  "get_comp_counter pf c =
     and_then (get_counter pf c) (\<lambda>time c.
       let (t, c) = utime_now c; ticks = t - start_tick c
       in Ret (time - real_of_int ticks * cyc_per_tick c) c)"

section \<open>The subtraction\<close>

lemma split64: "uint (v :: 64 word) = uint (ucast (drop_bit 32 v) :: 32 word) * 2 ^ 32 + uint (ucast v :: 32 word)"
proof -
  have "uint v < 2 ^ 64" using uint_lt2p[of v] by simp
  then have "uint v div 2 ^ 32 < 2 ^ 32" by simp
  moreover have "uint (drop_bit 32 v) = uint v div 2 ^ 32" by (simp add: drop_bit_eq_div uint_div_distrib)
  ultimately have "uint (ucast (drop_bit 32 v) :: 32 word) = uint v div 2 ^ 32"
    by (simp only: unsigned_ucast_eq take_bit_eq_mod) (simp add: mod_pos_pos_trivial pos_imp_zdiv_nonneg_iff)
  moreover have "uint (ucast v :: 32 word) = uint v mod 2 ^ 32"
    by (simp add: unsigned_ucast_eq take_bit_eq_mod)
  ultimately show ?thesis by simp
qed

lemma uint_minus: "uint ((a :: 'a::len word) - b) = (if uint b \<le> uint a then uint a - uint b else uint a - uint b + 2 ^ LENGTH('a))"
  by (rule uint_sub_if')

text \<open>Two halves with a borrow make a subtraction of 64 bits.\<close>

lemma borrow_sub:
  fixes hn ho ln lo' :: int and b :: int
  assumes "0 \<le> hn" "hn < 2 ^ 32" "0 \<le> ho" "ho < 2 ^ 32" "0 \<le> ln" "ln < 2 ^ 32" "0 \<le> lo'" "lo' < 2 ^ 32"
    "b = (if ln < lo' then 1 else 0)"
  shows "(hn - ho - b) mod 2 ^ 32 * 2 ^ 32 + (ln - lo') mod 2 ^ 32
    = (hn * 2 ^ 32 + ln - (ho * 2 ^ 32 + lo')) mod 2 ^ 64"
proof -
  have l: "(ln - lo') mod 2 ^ 32 = ln - lo' + b * 2 ^ 32"
  proof (cases "ln < lo'")
    case True
    have "(ln - lo') mod 2 ^ 32 = (ln - lo' + 2 ^ 32) mod 2 ^ 32" by simp
    also have "\<dots> = ln - lo' + 2 ^ 32" by (rule mod_pos_pos_trivial) (use True assms in auto)
    finally show ?thesis using True assms by simp
  qed (use assms in \<open>simp add: mod_pos_pos_trivial\<close>)
  define h where "h = hn - ho - b"
  have "(hn * 2 ^ 32 + ln - (ho * 2 ^ 32 + lo')) mod 2 ^ 64
      = (h * 2 ^ 32 + (ln - lo' + b * 2 ^ 32)) mod (2 ^ 32 * 2 ^ 32)"
    by (simp add: h_def algebra_simps)
  also have "\<dots> = (h mod 2 ^ 32) * 2 ^ 32 + (ln - lo' + b * 2 ^ 32)"
    unfolding l[symmetric] by (subst zmod_zmult2_eq) simp_all
  finally show ?thesis unfolding l h_def[symmetric] by (rule sym)
qed

lemma elapsed_sub:
  fixes n o' :: "64 word"
  assumes "cyc_hi c = ucast (drop_bit 32 o')" "cyc_lo c = ucast o'"
  shows "elapsed (ucast (drop_bit 32 n)) (ucast n) c = real_of_int (uint (n - o'))"
proof -
  let ?h = "\<lambda>v :: 64 word. ucast (drop_bit 32 v) :: 32 word" and ?l = "\<lambda>v :: 64 word. ucast v :: 32 word"
  let ?lo = "?l n - ?l o'" and ?b = "of_bool (?l n - ?l o' > ?l n) :: 32 word"
  let ?hi = "?h n - ?h o' - ?b"
  have b: "uint (?l n) < 2 ^ 32" "uint (?l o') < 2 ^ 32" "uint (?h n) < 2 ^ 32" "uint (?h o') < 2 ^ 32"
    using uint_lt2p[of "?l n"] uint_lt2p[of "?l o'"] uint_lt2p[of "?h n"] uint_lt2p[of "?h o'"] by simp_all
  have lo: "uint ?lo = (uint (?l n) - uint (?l o')) mod 2 ^ 32" by (simp add: uint_word_ariths)
  have "?lo > ?l n \<longleftrightarrow> uint (?l n) < uint (?l o')"
    unfolding word_less_def uint_minus using b uint_ge_0[of "?l o'"] by auto
  then have ub: "uint ?b = (if uint (?l n) < uint (?l o') then 1 else 0)" by simp
  have "uint ?hi = (uint (?h n) - uint (?h o') - uint ?b) mod 2 ^ 32"
    by (simp only: uint_word_ariths mod_diff_left_eq) simp
  then have "uint ?hi * 2 ^ 32 + uint ?lo = (uint n - uint o') mod 2 ^ 64"
    unfolding lo split64[of n] split64[of o']
    by (simp only:) (rule borrow_sub[OF uint_ge_0 b(3) uint_ge_0 b(4) uint_ge_0 b(1) uint_ge_0 b(2) ub])
  also have "\<dots> = uint (n - o')" by (simp add: uint_word_ariths)
  finally have "uint ?hi * 2 ^ 32 + uint ?lo = uint (n - o')" .
  then have "real_of_int (uint (n - o')) = real_of_int (uint ?hi) * 2 ^ 32 + real_of_int (uint ?lo)"
    by (simp only: of_int_add of_int_mult of_int_power of_int_numeral flip: \<open>uint ?hi * 2 ^ 32 + uint ?lo = uint (n - o')\<close>)
  then show ?thesis by (simp add: elapsed_def assms Let_def)
qed

text \<open>\<open>started v c\<close>: the statics hold the reading \<open>v\<close>.\<close>

definition started :: "64 word \<Rightarrow> clock \<Rightarrow> bool" where
  "started v c \<longleftrightarrow> cyc_hi c = ucast (drop_bit 32 v) \<and> cyc_lo c = ucast v"

lemma start_counter_I386:
  "start_counter I386 c = Ret () (c\<lparr>tsc_reads := tsc_reads c + 1,
     cyc_hi := ucast (drop_bit 32 (tsc c (tsc_reads c))), cyc_lo := ucast (tsc c (tsc_reads c))\<rparr>)"
  by (simp add: start_counter_def access_counter_def Let_def)

lemma get_counter_I386:
  assumes "started v c"
  shows "get_counter I386 c = Ret (real_of_int (uint (tsc c (tsc_reads c) - v))) (c\<lparr>tsc_reads := tsc_reads c + 1\<rparr>)"
  using assms elapsed_sub[of "c\<lparr>tsc_reads := tsc_reads c + 1\<rparr>" v "tsc c (tsc_reads c)"]
  by (simp add: get_counter_def access_counter_def started_def Let_def)

text \<open>On the Alpha only the low halves are compared, as numbers of 64 bits.\<close>

lemma start_counter_ALPHA:
  "start_counter ALPHA c = Ret () (c\<lparr>tsc_reads := tsc_reads c + 1, cyc_hi := 0, cyc_lo := ucast (tsc c (tsc_reads c))\<rparr>)"
  by (simp add: start_counter_def counter_def access_counter_def Let_def)

lemma high_half_0: "ucast (drop_bit 32 (ucast (x :: 32 word) :: 64 word)) = (0 :: 32 word)"
proof -
  have "uint (ucast x :: 64 word) = uint x"
    using uint_lt2p[of x] by (simp add: unsigned_ucast_eq take_bit_int_eq_self)
  then have "uint (drop_bit 32 (ucast x :: 64 word)) = uint x div 2 ^ 32"
    by (simp add: drop_bit_eq_div uint_div_distrib)
  also have "\<dots> = 0" using uint_lt2p[of x] by (simp add: div_pos_pos_trivial)
  finally have "drop_bit 32 (ucast x :: 64 word) = 0" by (simp only: uint_0_iff)
  then show ?thesis by simp
qed

lemma get_counter_ALPHA:
  assumes "cyc_hi c = 0"
  shows "get_counter ALPHA c =
    Ret (real_of_int (uint ((ucast (ucast (tsc c (tsc_reads c)) :: 32 word) :: 64 word) - ucast (cyc_lo c))))
      (c\<lparr>tsc_reads := tsc_reads c + 1\<rparr>)"
proof -
  have id: "ucast (ucast x :: 64 word) = x" for x :: "32 word"
    by (rule ucast_up_ucast_id) (simp add: is_up_def source_size_def target_size_def word_size)
  let ?c = "c\<lparr>tsc_reads := tsc_reads c + 1\<rparr>"
  have "elapsed 0 (ucast (tsc c (tsc_reads c))) ?c
      = real_of_int (uint ((ucast (ucast (tsc c (tsc_reads c)) :: 32 word) :: 64 word) - ucast (cyc_lo c)))"
    using elapsed_sub[of ?c "ucast (cyc_lo c)" "ucast (ucast (tsc c (tsc_reads c)) :: 32 word)"] assms
    by (simp add: high_half_0 id)
  then show ?thesis by (simp add: get_counter_def counter_def access_counter_def Let_def)
qed

text \<open>A counter that wraps between the two readings gives a huge result.\<close>

lemma alpha_counter_wraps:
  assumes "uint (ucast (tsc c j) :: 32 word) < uint (ucast (tsc c (tsc_reads c)) :: 32 word)"
  shows "\<exists>c1 r c2. start_counter ALPHA c = Ret () c1 \<and> get_counter ALPHA (c1\<lparr>tsc_reads := j\<rparr>) = Ret r c2
     \<and> 2 ^ 64 - 2 ^ 32 < r"
proof -
  let ?n = "ucast (tsc c j) :: 32 word" and ?o = "ucast (tsc c (tsc_reads c)) :: 32 word"
  define c1 where "c1 = c\<lparr>tsc_reads := tsc_reads c + 1, cyc_hi := 0, cyc_lo := ?o\<rparr>"
  have "start_counter ALPHA c = Ret () c1" by (simp add: start_counter_ALPHA c1_def)
  moreover have u: "uint (ucast x :: 64 word) = uint x" for x :: "32 word"
    using uint_lt2p[of x] by (simp add: unsigned_ucast_eq take_bit_int_eq_self)
  have "uint ((ucast ?n :: 64 word) - ucast ?o) = uint ?n - uint ?o + 2 ^ 64"
    using assms by (simp only: uint_sub_if' u) simp
  then have "2 ^ 64 - 2 ^ 32 < uint ((ucast ?n :: 64 word) - ucast ?o)"
  proof -
    have "uint ?o < 2 ^ 32" using uint_lt2p[of ?o] by simp
    moreover have "0 \<le> uint ?n" by simp
    ultimately show ?thesis unfolding \<open>uint ((ucast ?n :: 64 word) - ucast ?o) = uint ?n - uint ?o + 2 ^ 64\<close> by linarith
  qed
  then have "2 ^ 64 - 2 ^ 32 < real_of_int (uint ((ucast ?n :: 64 word) - ucast ?o))"
    by (simp only: of_int_less_iff[symmetric, where 'a = real] of_int_diff of_int_power of_int_numeral)
  moreover have "get_counter ALPHA (c1\<lparr>tsc_reads := j\<rparr>)
      = Ret (real_of_int (uint ((ucast ?n :: 64 word) - ucast ?o))) (c1\<lparr>tsc_reads := j + 1\<rparr>)"
    using get_counter_ALPHA[of "c1\<lparr>tsc_reads := j\<rparr>"] by (simp add: c1_def del: of_int_uint)
  ultimately show ?thesis by blast
qed

section \<open>The calibration\<close>

text \<open>A user clock that stands still keeps the loop running for ever.\<close>

lemma get_counter_Ret: "pf \<noteq> OTHER_CPU \<Longrightarrow> \<exists>t. get_counter pf c = Ret t (c\<lparr>tsc_reads := tsc_reads c + 1\<rparr>)"
  by (cases pf) (auto simp: get_counter_def access_counter_def counter_def Let_def)

lemma callibrate_loop_hangs:
  assumes "callibrate_loop pf e oldt oldc c = Some r"
  shows "\<not> (e < NEVENT \<and> pf \<noteq> OTHER_CPU \<and> (\<forall>k. utime c k \<le> oldc))"
  using assms
proof (rule callibrate_loop.raw_induct[rotated], goal_cases)
  case (1 loop pf e oldt oldc c r)
  show ?case
  proof
    assume a: "e < NEVENT \<and> pf \<noteq> OTHER_CPU \<and> (\<forall>k. utime c k \<le> oldc)"
    then obtain t where t: "get_counter pf c = Ret t (c\<lparr>tsc_reads := tsc_reads c + 1\<rparr>)"
      using get_counter_Ret by blast
    then obtain c' t' where "loop pf e t' oldc c' = Some r" "utime c' = utime c"
      using 1(2) a by (auto simp: utime_now_def Let_def split: if_splits dest: spec[where x = "times_calls c"])
    with 1(1) a show False by fastforce
  qed
qed

lemma callibrate_hangs:
  assumes "pf \<noteq> OTHER_CPU" "\<forall>k. utime c k \<le> utime c (times_calls c)"
  shows "callibrate pf c = Hang"
proof -
  let ?c = "c\<lparr>times_calls := times_calls c + 1\<rparr>"
  have "\<exists>c1. start_counter pf ?c = Ret () c1 \<and> utime c1 = utime c"
    using assms(1) by (cases pf) (simp_all add: start_counter_I386 start_counter_ALPHA)
  then obtain c1 where c1: "start_counter pf ?c = Ret () c1" "utime c1 = utime c" by blast
  obtain t where t: "get_counter pf c1 = Ret t (c1\<lparr>tsc_reads := tsc_reads c1 + 1\<rparr>)"
    using get_counter_Ret[OF assms(1)] by blast
  have "callibrate_loop pf 0 t (utime c (times_calls c)) (c1\<lparr>tsc_reads := tsc_reads c1 + 1\<rparr>) = None"
    using callibrate_loop_hangs[of pf 0 t "utime c (times_calls c)" "c1\<lparr>tsc_reads := tsc_reads c1 + 1\<rparr>"] assms c1(2)
    by (cases "callibrate_loop pf 0 t (utime c (times_calls c)) (c1\<lparr>tsc_reads := tsc_reads c1 + 1\<rparr>)")
      (auto simp: NEVENT_def)
  then show ?thesis using c1(1) t by (simp add: callibrate_def utime_now_def)
qed

text \<open>The fewest cycles per tick above the threshold, 0 if there are none.\<close>

definition fewest :: "real list \<Rightarrow> real" where
  "fewest rs = (let R = {r \<in> set rs. r > RECORDTHRESH} in if R = {} then 0 else Min R)"

lemma record_event_min:
  "cyc_per_tick c = M \<Longrightarrow> M \<noteq> 0 \<Longrightarrow> cyc_per_tick (record_event r c) = (if r > RECORDTHRESH then min r M else M)"
  by (auto simp: record_event_def min_def)

lemma record_event_fewest:
  assumes "cyc_per_tick c = fewest rs"
  shows "cyc_per_tick (record_event r c) = fewest (rs @ [r])"
proof -
  let ?R = "{r \<in> set rs. r > RECORDTHRESH}"
  have e: "{x \<in> set (rs @ [r]). x > RECORDTHRESH} = (if r > RECORDTHRESH then insert r ?R else ?R)" by auto
  have f: "finite ?R" by simp
  show ?thesis
  proof (cases "?R = {}")
    case True
    show ?thesis using assms unfolding record_event_def fewest_def Let_def e True by simp
  next
    case False
    then have "Min ?R \<in> ?R" using f Min_in by blast
    then have "Min ?R \<noteq> 0" by (auto simp: RECORDTHRESH_def)
    moreover have "cyc_per_tick c = Min ?R" using assms False unfolding fewest_def Let_def by (simp only: if_False)
    moreover have "fewest (rs @ [r]) = (if r > RECORDTHRESH then min r (Min ?R) else Min ?R)"
    proof (cases "r > RECORDTHRESH")
      case True
      then show ?thesis unfolding fewest_def Let_def e using Min_insert[OF f False, of r] by (simp only: if_True) simp
    next
      case F: False
      then show ?thesis unfolding fewest_def Let_def e using False by (simp only: if_False)
    qed
    ultimately show ?thesis using record_event_min[of c "Min ?R" r] by (simp only: not_False_eq_True)
  qed
qed

text \<open>
  A clock that ticks: successive readings at least \<open>THRESHOLD\<close> apart, the user time growing from
  call to call. The calibration then needs one reading per event.
\<close>

definition since :: "clock \<Rightarrow> 64 word \<Rightarrow> nat \<Rightarrow> real" where
  "since c v k = real_of_int (uint (tsc c k - v))"

definition ticks_from :: "clock \<Rightarrow> 64 word \<Rightarrow> nat \<Rightarrow> nat \<Rightarrow> nat \<Rightarrow> bool" where
  "ticks_from c v i m n \<longleftrightarrow> (\<forall>j<n. THRESHOLD \<le> since c v (i + j + 1) - since c v (i + j)
     \<and> utime c (m + j) < utime c (m + j + 1))"

definition ratios :: "clock \<Rightarrow> 64 word \<Rightarrow> nat \<Rightarrow> nat \<Rightarrow> nat \<Rightarrow> real list" where
  "ratios c v i m n = map (\<lambda>j. (since c v (i + j + 1) - since c v (i + j))
     / real_of_int (utime c (m + j + 1) - utime c (m + j))) [0..<n]"

lemma callibrate_loop_returns:
  assumes "started v c" "tsc_reads c = i + e + 1" "times_calls c = m + e + 1" "e \<le> NEVENT"
    "ticks_from c v i m NEVENT" "cyc_per_tick c = fewest (ratios c v i m e)"
  shows "\<exists>c'. callibrate_loop I386 e (since c v (i + e)) (utime c (m + e)) c = Some (Ret () c')
    \<and> cyc_per_tick c' = fewest (ratios c v i m NEVENT) \<and> tsc_reads c' = i + NEVENT + 1"
  using assms
proof (induction "NEVENT - e" arbitrary: e c)
  case 0
  then show ?case by (subst callibrate_loop.simps) auto
next
  case (Suc n)
  then have e: "e < NEVENT" by simp
  let ?r = "(since c v (i + e + 1) - since c v (i + e)) / real_of_int (utime c (m + e + 1) - utime c (m + e))"
  let ?c = "c\<lparr>tsc_reads := i + e + 2, times_calls := m + e + 2\<rparr>"
  have t: "THRESHOLD \<le> since c v (i + e + 1) - since c v (i + e)" "utime c (m + e) < utime c (m + e + 1)"
    using Suc.prems(5) e by (auto simp: ticks_from_def)
  define d where "d = record_event ?r ?c"
  have re: "tsc d = tsc c" "utime d = utime c" "started v d = started v c"
    "tsc_reads d = i + e + 2" "times_calls d = m + e + 2"
    by (simp_all add: d_def record_event_def started_def)
  have sn: "since d = since c" using re(1) by (simp add: since_def fun_eq_iff)
  have "ticks_from d v i m NEVENT" using Suc.prems(5) by (simp add: ticks_from_def sn re)
  moreover have rt: "ratios d v i m = ratios c v i m" by (simp add: ratios_def sn re fun_eq_iff)
  moreover have "cyc_per_tick d = fewest (ratios c v i m (Suc e))"
    using record_event_fewest[of ?c "ratios c v i m e" ?r] Suc.prems(6) by (simp add: ratios_def d_def)
  ultimately have "\<exists>c'. callibrate_loop I386 (Suc e) (since c v (i + Suc e)) (utime c (m + Suc e)) d
      = Some (Ret () c') \<and> cyc_per_tick c' = fewest (ratios c v i m NEVENT) \<and> tsc_reads c' = i + NEVENT + 1"
    using Suc.hyps(1)[of "Suc e" d] Suc.hyps(2) Suc.prems(1) re e sn by simp
  moreover have "callibrate_loop I386 e (since c v (i + e)) (utime c (m + e)) c
      = callibrate_loop I386 (Suc e) (since c v (i + Suc e)) (utime c (m + Suc e)) d"
    using t e Suc.prems(2,3) get_counter_I386[OF Suc.prems(1)]
    by (subst callibrate_loop.simps) (simp add: since_def utime_now_def Let_def d_def)
  ultimately show ?case by simp
qed

lemma callibrate_returns:
  assumes "cyc_per_tick c = 0"
    and t: "ticks_from c (tsc c (tsc_reads c)) (tsc_reads c + 1) (times_calls c) NEVENT"
  shows "\<exists>c'. callibrate I386 c = Ret () c' \<and> tsc_reads c' = tsc_reads c + NEVENT + 2
    \<and> cyc_per_tick c' = fewest (ratios c (tsc c (tsc_reads c)) (tsc_reads c + 1) (times_calls c) NEVENT)"
proof -
  let ?k = "tsc_reads c" and ?m = "times_calls c"
  let ?v = "tsc c ?k"
  define d where "d = c\<lparr>times_calls := ?m + 1, tsc_reads := ?k + 2, cyc_hi := ucast (drop_bit 32 ?v), cyc_lo := ucast ?v\<rparr>"
  have s: "since d = since c" "utime d = utime c" "started ?v d" by (simp_all add: since_def started_def d_def fun_eq_iff)
  have "ticks_from d ?v (?k + 1) ?m NEVENT" "ratios d ?v (?k + 1) ?m = ratios c ?v (?k + 1) ?m"
    using t s by (simp_all add: ticks_from_def ratios_def fun_eq_iff)
  then obtain c' where c': "callibrate_loop I386 0 (since c ?v (?k + 1)) (utime c ?m) d = Some (Ret () c')"
    "cyc_per_tick c' = fewest (ratios c ?v (?k + 1) ?m NEVENT)" "tsc_reads c' = ?k + 1 + NEVENT + 1"
    using callibrate_loop_returns[OF s(3), of "?k + 1" 0 ?m] assms(1) s
    by (auto simp: ratios_def fewest_def d_def)
  let ?d = "c\<lparr>times_calls := ?m + 1, tsc_reads := ?k + 1, cyc_hi := ucast (drop_bit 32 ?v), cyc_lo := ucast ?v\<rparr>"
  have "started ?v ?d" by (simp add: started_def)
  from get_counter_I386[OF this] have "get_counter I386 ?d = Ret (since c ?v (?k + 1)) d"
    by (simp add: since_def d_def)
  moreover have "start_counter I386 (c\<lparr>times_calls := ?m + 1\<rparr>) = Ret () ?d"
    by (simp add: start_counter_I386)
  ultimately have "callibrate I386 c = Ret () c'"
    using c'(1) by (simp add: callibrate_def utime_now_def Let_def del: of_int_uint)
  then show ?thesis using c' by simp
qed

end
