(* ===== verification/Fcyc.thy ===== *)
theory Fcyc
  imports Clock "HOL-Library.Multiset"
begin

text \<open>
  \<^verbatim>\<open>fcyc.c\<close>: the K-best estimate of a running time. \<open>fcyc_params\<close> holds the parameters of the package,
  the cache buffer and the clock, \<open>sampler\<close> the array of the smallest samples. libc's \<open>calloc\<close>
  and \<open>malloc\<close> are oracles (\<open>calloc_ok\<close>, \<open>malloc_ok\<close>) and \<open>cache_junk\<close> is what a fresh block holds. The
  function under test maps the state of its own world; the branches for debugging
  (\<open>KEEP_VALS\<close>, \<open>KEEP_SAMPLES\<close>) are off in the source. The sum \<open>sink\<close> wraps.
\<close>

record sampler =
  vals :: "real list option"
  samplecount :: int

record fcyc_params =
  clk :: clock
  kbest :: int
  maxsamples :: int
  epsilon :: real
  compensate :: int
  clear_cache :: int
  cache_bytes :: "32 word"
  cache_block :: "32 word"
  cache_buf :: "int option"
  sink :: "32 word"
  calloc_ok :: "int \<Rightarrow> bool"
  malloc_ok :: "64 word \<Rightarrow> bool"
  cache_junk :: "int \<Rightarrow> 32 word"

text \<open>The parameters a program starts with.\<close>

definition fcyc_start :: "clock \<Rightarrow> (int \<Rightarrow> bool) \<Rightarrow> (64 word \<Rightarrow> bool) \<Rightarrow> (int \<Rightarrow> 32 word) \<Rightarrow> fcyc_params" where
  "fcyc_start c cok mok cj =
     \<lparr>clk = c, kbest = 3, maxsamples = 20, epsilon = 1 / 100, compensate = 0, clear_cache = 0,
      cache_bytes = 2 ^ 19, cache_block = 32, cache_buf = None, sink = 0, calloc_ok = cok, malloc_ok = mok,
      cache_junk = cj\<rparr>"

section \<open>Samples\<close>

definition init_sampler :: "fcyc_params \<Rightarrow> sampler \<Rightarrow> sampler" where
  "init_sampler f p =
     \<lparr>vals = (if 0 \<le> kbest f \<and> calloc_ok f (kbest f) then Some (replicate (nat (kbest f)) 0) else None),
      samplecount = 0\<rparr>"

text \<open>The insertion sort: the value at \<open>pos\<close> sinks.\<close>

fun sift :: "nat \<Rightarrow> real list \<Rightarrow> real list" where
  "sift 0 vs = vs"
| "sift (Suc p) vs = (if vs ! p > vs ! Suc p then sift p (vs[p := vs ! Suc p, Suc p := vs ! p]) else vs)"

text \<open>\<open>None\<close> is an access through \<open>NULL\<close> or outside the array.\<close>

definition add_sample :: "real \<Rightarrow> fcyc_params \<Rightarrow> sampler \<Rightarrow> sampler option" where
  "add_sample val f p =
     (case vals p of
        None \<Rightarrow> None
      | Some vs \<Rightarrow>
          if samplecount p < kbest f
          then if 0 \<le> samplecount p \<and> samplecount p < int (length vs)
               then let pos = nat (samplecount p)
                    in Some \<lparr>vals = Some (sift pos (vs[pos := val])), samplecount = samplecount p + 1\<rparr>
               else None
          else if 0 \<le> kbest f - 1 \<and> kbest f - 1 < int (length vs)
          then let last = nat (kbest f - 1);
                   vs = (if val < vs ! last then sift last (vs[last := val]) else vs)
               in Some \<lparr>vals = Some vs, samplecount = samplecount p + 1\<rparr>
          else None)"

definition has_converged :: "fcyc_params \<Rightarrow> sampler \<Rightarrow> bool option" where
  "has_converged f p =
     (if samplecount p \<ge> kbest f
      then case vals p of
             None \<Rightarrow> None
           | Some vs \<Rightarrow> if 1 \<le> kbest f \<and> kbest f \<le> int (length vs)
                       then Some ((1 + epsilon f) * vs ! 0 \<ge> vs ! nat (kbest f - 1))
                       else None
      else Some False)"

section \<open>The cache\<close>

text \<open>
  \<open>while (cptr < cend)\<close>, with the pointers as indices of the buffer of \<open>n\<close> integers; \<open>None\<close> is the
  loop that does not end, and an index outside the buffer has no defined result.
\<close>

partial_function (option) clear_loop ::
  "(int \<Rightarrow> 32 word) \<Rightarrow> int \<Rightarrow> int \<Rightarrow> int \<Rightarrow> 32 word \<Rightarrow> (unit, 32 word) outcome option" where
  "clear_loop buf n incr cptr x =
     (if cptr < n
      then if cptr < 0 then Some Undef else clear_loop buf n incr (cptr + incr) (x + buf cptr)
      else Some (Ret () x))"

declare clear_loop.simps [code]

definition clear :: "fcyc_params \<Rightarrow> (unit, fcyc_params) outcome" where
  "clear f =
     (let x = sink f;
          incr = sint (ucast ((scast (cache_block f) :: 64 word) div 4) :: 32 word);
          n = uint ((scast (cache_bytes f) :: 64 word) div 4)
      in and_then
           (case cache_buf f of
              None \<Rightarrow> if malloc_ok f (scast (cache_bytes f)) then Ret n (f\<lparr>cache_buf := Some n\<rparr>) else Exit 1
            | Some k \<Rightarrow> Ret k f)
           (\<lambda>_ f. and_then (loop_outcome (clear_loop (cache_junk f) n incr 0 x)) (\<lambda>_ x. Ret () (f\<lparr>sink := x\<rparr>))))"

section \<open>The estimate\<close>

type_synonym 's test_funct = "'s \<Rightarrow> (unit, 's) outcome"

text \<open>The clock is a field of \<open>fcyc_params\<close>.\<close>

definition with_clock :: "(clock \<Rightarrow> ('a, clock) outcome) \<Rightarrow> fcyc_params \<Rightarrow> ('a, fcyc_params) outcome" where
  "with_clock op f = and_then (op (clk f)) (\<lambda>r c. Ret r (f\<lparr>clk := c\<rparr>))"

text \<open>One round of either loop up to \<open>add_sample\<close>.\<close>

definition measure_cyc :: "platform \<Rightarrow> 's test_funct \<Rightarrow> 's \<times> fcyc_params \<Rightarrow> (real, 's \<times> fcyc_params) outcome" where
  "measure_cyc pf g = (\<lambda>(s, f).
     and_then (if clear_cache f \<noteq> 0 then clear f else Ret () f) (\<lambda>_ f.
     and_then (with_clock (if compensate f \<noteq> 0 then start_comp_counter pf else start_counter pf) f) (\<lambda>_ f.
     and_then (g s) (\<lambda>_ s.
     and_then (with_clock (if compensate f \<noteq> 0 then get_comp_counter pf else get_counter pf) f) (\<lambda>cyc f.
       Ret cyc (s, f))))))"

lemma with_clock_settings:
  "with_clock op f = Ret r f' \<Longrightarrow> kbest f' = kbest f \<and> maxsamples f' = maxsamples f \<and> epsilon f' = epsilon f"
  by (auto simp: with_clock_def and_then_Ret_iff)

lemma clear_settings:
  "clear f = Ret r f' \<Longrightarrow> kbest f' = kbest f \<and> maxsamples f' = maxsamples f \<and> epsilon f' = epsilon f"
  by (auto simp: clear_def and_then_Ret_iff Let_def split: option.splits if_splits)

lemma measure_cyc_settings:
  assumes "measure_cyc pf g w = Ret r w'"
  shows "kbest (snd w') = kbest (snd w)" "maxsamples (snd w') = maxsamples (snd w)" "epsilon (snd w') = epsilon (snd w)"
  using assms
  by (auto simp: measure_cyc_def and_then_Ret_iff split: prod.splits if_splits
      dest!: with_clock_settings clear_settings)

lemma add_sample_count: "add_sample v f p = Some p' \<Longrightarrow> samplecount p' = samplecount p + 1"
  by (auto simp: add_sample_def Let_def split: option.splits if_splits)

text \<open>The \<open>do \<dots> while\<close> loop.\<close>

function fcyc_loop :: "platform \<Rightarrow> 's test_funct \<Rightarrow> sampler \<Rightarrow> 's \<times> fcyc_params \<Rightarrow> (unit, sampler \<times> 's \<times> fcyc_params) outcome" where
  "fcyc_loop pf g p w =
     and_then (measure_cyc pf g w) (\<lambda>cyc w.
       case add_sample cyc (snd w) p of
         None \<Rightarrow> Undef
       | Some p \<Rightarrow>
           (case has_converged (snd w) p of
              None \<Rightarrow> Undef
            | Some conv \<Rightarrow>
                if \<not> conv \<and> samplecount p < maxsamples (snd w) then fcyc_loop pf g p w
                else Ret () (p, w)))"
  by pat_completeness auto
termination
proof (relation "measure (\<lambda>(pf, g, p, w). nat (maxsamples (snd w) - samplecount p))", goal_cases)
  case (2 pf g p w r w' p' c)
  then show ?case using measure_cyc_settings(2)[OF 2(1)] add_sample_count[OF 2(2)] by simp
qed simp

declare fcyc_loop.simps [simp del]

definition fcyc :: "platform \<Rightarrow> 's test_funct \<Rightarrow> sampler \<Rightarrow> 's \<times> fcyc_params \<Rightarrow> (real, sampler \<times> 's \<times> fcyc_params) outcome" where
  "fcyc pf g p w =
     (let p = init_sampler (snd w) p
      in and_then (fcyc_loop pf g p w) (\<lambda>_ (p, w).
           case vals p of
             Some (result # _) \<Rightarrow> Ret result (p\<lparr>vals := None\<rparr>, w)
           | _ \<Rightarrow> Undef))"

section \<open>Parameters\<close>

definition set_fcyc_clear_cache :: "int \<Rightarrow> fcyc_params \<Rightarrow> fcyc_params" where
  "set_fcyc_clear_cache c f = f\<lparr>clear_cache := c\<rparr>"

definition set_fcyc_cache_size :: "32 word \<Rightarrow> fcyc_params \<Rightarrow> fcyc_params" where
  "set_fcyc_cache_size bytes f =
     (if bytes \<noteq> cache_bytes f then f\<lparr>cache_bytes := bytes, cache_buf := None\<rparr> else f)"

definition set_fcyc_cache_block :: "32 word \<Rightarrow> fcyc_params \<Rightarrow> fcyc_params" where
  "set_fcyc_cache_block bytes f = f\<lparr>cache_block := bytes\<rparr>"

definition set_fcyc_compensate :: "int \<Rightarrow> fcyc_params \<Rightarrow> fcyc_params" where
  "set_fcyc_compensate c f = f\<lparr>compensate := c\<rparr>"

definition set_fcyc_k :: "int \<Rightarrow> fcyc_params \<Rightarrow> fcyc_params" where
  "set_fcyc_k k f = f\<lparr>kbest := k\<rparr>"

definition set_fcyc_maxsamples :: "int \<Rightarrow> fcyc_params \<Rightarrow> fcyc_params" where
  "set_fcyc_maxsamples m f = f\<lparr>maxsamples := m\<rparr>"

definition set_fcyc_epsilon :: "real \<Rightarrow> fcyc_params \<Rightarrow> fcyc_params" where
  "set_fcyc_epsilon e f = f\<lparr>epsilon := e\<rparr>"

section \<open>The array holds the smallest samples\<close>

lemma insort_append_less: "v < a \<Longrightarrow> insort v (A @ a # R) = insort v A @ a # (R :: real list)"
  by (induction A) auto

lemma insort_append_ge:
  assumes "sorted (A @ R)" "\<forall>x\<in>set A. x \<le> v"
  shows "insort v (A @ R) = A @ insort v (R :: real list)"
proof -
  have "sorted (A @ insort v R)" using assms by (auto simp: sorted_append set_insort_key sorted_insort)
  then have "sort (v # (A @ R)) = A @ insort v R" by (intro properties_for_sort) simp_all
  then show ?thesis using sorted_sort_id[OF assms(1)] by simp
qed

lemma sort_snoc: "sort (ms @ [v]) = insort v (sort (ms :: real list))"
  by (rule properties_for_sort) (simp_all add: sorted_insort)

lemma sift_insort:
  assumes "p < length vs" "sorted (take p vs)"
  shows "sift p vs = insort (vs ! p) (take p vs) @ drop (Suc p) vs"
  using assms
proof (induction p arbitrary: vs)
  case 0
  then show ?case by (simp add: Cons_nth_drop_Suc)
next
  case (Suc p)
  let ?a = "vs ! p" and ?v = "vs ! Suc p"
  have tk: "take (Suc p) vs = take p vs @ [?a]" using Suc.prems(1) by (simp add: take_Suc_conv_app_nth)
  have s: "sorted (take p vs)" "\<forall>x\<in>set (take p vs). x \<le> ?a" using Suc.prems(2) unfolding tk by (auto simp: sorted_append)
  show ?case
  proof (cases "?a > ?v")
    case True
    let ?vs = "vs[p := ?v, Suc p := ?a]"
    have "take p ?vs = take p vs" "?vs ! p = ?v" "drop (Suc p) ?vs = ?a # drop (Suc (Suc p)) vs"
      using Suc.prems(1) by (simp_all add: drop_update_swap flip: Cons_nth_drop_Suc)
    then show ?thesis using Suc.IH[of ?vs] Suc.prems(1) s(1) True insort_append_less[OF True, of "take p vs" "[]"]
      by (simp add: tk)
  next
    case False
    then have i: "insort ?v (take (Suc p) vs @ []) = take (Suc p) vs @ insort ?v []"
      using Suc.prems(2) s(2) by (intro insort_append_ge) (auto simp: tk)
    have "sift (Suc p) vs = vs" using False by simp
    also have "vs = take (Suc p) vs @ ?v # drop (Suc (Suc p)) vs" by (rule id_take_nth_drop[OF Suc.prems(1)])
    also have "\<dots> = insort ?v (take (Suc p) vs) @ drop (Suc (Suc p)) vs" using i by simp
    finally show ?thesis .
  qed
qed

text \<open>\<open>smallest k ms p\<close>: the array of \<open>k\<close> values holds the \<open>k\<close> smallest of the samples \<open>ms\<close>, in order.\<close>

definition smallest :: "int \<Rightarrow> real list \<Rightarrow> sampler \<Rightarrow> bool" where
  "smallest k ms p \<longleftrightarrow> samplecount p = int (length ms) \<and> (\<exists>vs. vals p = Some vs \<and> int (length vs) = k
     \<and> take (length ms) vs = take (nat k) (sort ms))"

lemma init_sampler_smallest:
  "0 \<le> kbest f \<Longrightarrow> calloc_ok f (kbest f) \<Longrightarrow> smallest (kbest f) [] (init_sampler f p)"
  by (simp add: smallest_def init_sampler_def)

lemma add_sample_smallest:
  assumes r: "smallest (kbest f) ms p" and k: "1 \<le> kbest f"
  shows "\<exists>p'. add_sample v f p = Some p' \<and> smallest (kbest f) (ms @ [v]) p'"
proof -
  let ?k = "nat (kbest f)" and ?n = "length ms"
  obtain vs where vs: "vals p = Some vs" "length vs = ?k" "take ?n vs = take ?k (sort ms)" "samplecount p = int ?n"
    using r by (auto simp: smallest_def)
  show ?thesis
  proof (cases "?n < ?k")
    case True
    then have t: "take ?n vs = sort ms" using vs(3) by simp
    have "sift ?n (vs[?n := v]) = insort v (sort ms) @ drop (Suc ?n) vs"
      using sift_insort[of ?n "vs[?n := v]"] True vs(2) t by simp
    moreover have "int ?n < kbest f" using True by simp
    moreover have "take (Suc ?n) (insort v (sort ms) @ drop (Suc ?n) vs) = take ?k (sort (ms @ [v]))"
      using True by (simp add: sort_snoc)
    ultimately show ?thesis
      using vs True k by (simp add: add_sample_def smallest_def sort_snoc Let_def)
  next
    case False
    then have t: "vs = take ?k (sort ms)" using vs(2,3) by simp
    let ?l = "?k - 1" and ?S = "sort ms"
    have l: "nat (kbest f - 1) = ?l" "?l < length vs" "?l < length ?S" "Suc ?l = ?k" using k vs(2) False by auto
    have S: "?S = take ?l ?S @ ?S ! ?l # drop ?k ?S"
      using l(3,4) by (metis id_take_nth_drop)
    have nth: "vs ! ?l = ?S ! ?l" using t l by simp
    show ?thesis
    proof (cases "v < vs ! ?l")
      case True
      have "sift ?l (vs[?l := v]) = insort v (take ?l ?S) @ drop ?k vs"
        using sift_insort[of ?l "vs[?l := v]"] l t sorted_wrt_take[of "(\<le>)" ?S ?l] by (simp add: min_absorb1)
      also have "\<dots> = insort v (take ?l ?S)" using vs(2) by simp
      also have "\<dots> = take ?k (insort v ?S)"
        using l(3,4) insort_append_less[of v "?S ! ?l" "take ?l ?S" "drop ?k ?S"] True S unfolding nth
        by (metis append_eq_conv_conj length_insort length_take min.absorb4)
      finally have "sift ?l (vs[?l := v]) = take ?k (sort (ms @ [v]))" by (simp add: sort_snoc)
      then show ?thesis
        using True vs False k l by (auto simp: add_sample_def smallest_def Let_def)
    next
      case ge: False
      have "\<forall>x\<in>set (take ?k ?S). x \<le> v"
      proof
        fix x assume "x \<in> set (take ?k ?S)"
        then obtain j where "j < ?k" "j < length ?S" "x = ?S ! j" by (auto simp: in_set_conv_nth)
        then have "x \<le> ?S ! ?l" using l(3) by (auto intro: sorted_nth_mono)
        then show "x \<le> v" using ge nth by simp
      qed
      then have "insort v ?S = take ?k ?S @ insort v (drop ?k ?S)"
        using insort_append_ge[of "take ?k ?S" "drop ?k ?S" v] by simp
      then have "take ?k (sort (ms @ [v])) = vs" using t vs(2) by (simp add: sort_snoc)
      then show ?thesis using ge vs False k l by (auto simp: add_sample_def smallest_def Let_def)
    qed
  qed
qed

section \<open>The loop\<close>

text \<open>\<open>measures n\<close>: the next \<open>n\<close> measurements. \<open>stops\<close>: when the sampling may end.\<close>

fun measures :: "platform \<Rightarrow> 's test_funct \<Rightarrow> nat \<Rightarrow> 's \<times> fcyc_params \<Rightarrow> (real list, 's \<times> fcyc_params) outcome" where
  "measures pf g 0 w = Ret [] w"
| "measures pf g (Suc n) w =
     and_then (measure_cyc pf g w) (\<lambda>r w. and_then (measures pf g n w) (\<lambda>rs w. Ret (r # rs) w))"

definition converged :: "fcyc_params \<Rightarrow> real list \<Rightarrow> bool" where
  "converged f ms \<longleftrightarrow> kbest f \<le> int (length ms)
     \<and> sort ms ! nat (kbest f - 1) \<le> (1 + epsilon f) * Min (set ms)"

definition stops :: "fcyc_params \<Rightarrow> real list \<Rightarrow> bool" where
  "stops f ms \<longleftrightarrow> maxsamples f \<le> int (length ms) \<or> converged f ms"

lemma sort_hd_Min: "ms \<noteq> [] \<Longrightarrow> sort ms ! 0 = Min (set (ms :: real list))"
proof -
  assume "ms \<noteq> []"
  then have "sort ms \<noteq> []" by (metis set_empty set_sort)
  then obtain x xs where x: "sort ms = x # xs" by (cases "sort ms") auto
  moreover have "sorted (x # xs)" by (simp flip: x)
  ultimately have "Min (set (sort ms)) = x" by (auto intro: Min_eqI)
  moreover have "set (sort ms) = set ms" by simp
  ultimately show ?thesis using x by (simp only: nth_Cons_0)
qed

lemma has_converged_smallest:
  assumes "smallest (kbest f) ms p" "1 \<le> kbest f" "ms \<noteq> []"
  shows "has_converged f p = Some (converged f ms)"
proof (cases "kbest f \<le> int (length ms)")
  case True
  obtain vs where vs: "vals p = Some vs" "length vs = nat (kbest f)" "vs = take (nat (kbest f)) (sort ms)"
    "samplecount p = int (length ms)"
    using assms(1) True by (auto simp: smallest_def)
  have "vs ! 0 = Min (set ms)" "vs ! nat (kbest f - 1) = sort ms ! nat (kbest f - 1)"
    using vs(3) assms(2,3) sort_hd_Min by auto
  then show ?thesis using vs(1,2,4) True assms(2) by (simp add: has_converged_def converged_def)
next
  case False
  then show ?thesis using assms(1) by (auto simp: has_converged_def converged_def smallest_def)
qed

lemma stops_cong: "kbest f' = kbest f \<Longrightarrow> maxsamples f' = maxsamples f \<Longrightarrow> epsilon f' = epsilon f \<Longrightarrow> stops f' = stops f"
  by (simp add: stops_def converged_def fun_eq_iff)

lemma fcyc_loop_returns:
  assumes "\<forall>n. \<exists>rs w'. measures pf g n w = Ret rs w'" "smallest (kbest (snd w)) ms p" "1 \<le> kbest (snd w)"
  shows "\<exists>rs w' p'. fcyc_loop pf g p w = Ret () (p', w') \<and> measures pf g (length rs) w = Ret rs w' \<and> rs \<noteq> []
    \<and> smallest (kbest (snd w)) (ms @ rs) p' \<and> stops (snd w) (ms @ rs)
    \<and> (\<forall>j. 0 < j \<longrightarrow> j < length rs \<longrightarrow> \<not> stops (snd w) (ms @ take j rs))"
  using assms
proof (induction pf g p w arbitrary: ms rule: fcyc_loop.induct)
  case (1 pf g p w)
  obtain r w1 where r: "measure_cyc pf g w = Ret r w1"
    using 1(2)[rule_format, of 1] by (auto simp: and_then_Ret_iff)
  have ms1: "\<exists>rs w'. measures pf g n w1 = Ret rs w'" for n
    using 1(2)[rule_format, of "Suc n"] r by (auto simp: and_then_Ret_iff)
  note st = measure_cyc_settings[OF r]
  obtain p1 where p1: "add_sample r (snd w1) p = Some p1" "smallest (kbest (snd w)) (ms @ [r]) p1"
    using add_sample_smallest[of "snd w1" ms p r] 1(3,4) st(1) by auto
  have hc: "has_converged (snd w1) p1 = Some (converged (snd w1) (ms @ [r]))"
    using has_converged_smallest[of "snd w1" "ms @ [r]" p1] p1(2) 1(4) st(1) by simp
  have sc: "samplecount p1 = int (length (ms @ [r]))" using p1(2) by (simp add: smallest_def)
  have eq: "stops (snd w1) = stops (snd w)" by (rule stops_cong) (use st in auto)
  show ?case
  proof (cases "stops (snd w1) (ms @ [r])")
    case True
    then have "fcyc_loop pf g p w = Ret () (p1, w1)"
      using r p1(1) hc sc by (subst fcyc_loop.simps) (auto simp: stops_def)
    then show ?thesis
      using True r p1(2) eq by (intro exI[of _ "[r]"] exI[of _ w1] exI[of _ p1]) simp
  next
    case False
    then have go: "\<not> converged (snd w1) (ms @ [r]) \<and> samplecount p1 < maxsamples (snd w1)"
      using sc by (simp add: stops_def)
    obtain rs w' p' where ih: "fcyc_loop pf g p1 w1 = Ret () (p', w')" "measures pf g (length rs) w1 = Ret rs w'"
      "rs \<noteq> []" "smallest (kbest (snd w1)) ((ms @ [r]) @ rs) p'" "stops (snd w1) ((ms @ [r]) @ rs)"
      "\<forall>j. 0 < j \<longrightarrow> j < length rs \<longrightarrow> \<not> stops (snd w1) ((ms @ [r]) @ take j rs)"
      using 1(1)[OF r p1(1) hc go, of "ms @ [r]"] ms1 p1(2) 1(4) st(1) by auto
    have "\<not> stops (snd w) (ms @ take j (r # rs))" if "0 < j" "j < length (r # rs)" for j
      using that ih(6) False eq by (cases j; cases "j - 1") auto
    moreover have "fcyc_loop pf g p w = Ret () (p', w')"
      using r p1(1) hc go ih(1) by (subst fcyc_loop.simps) simp
    ultimately show ?thesis
      using r ih eq st(1) by (intro exI[of _ "r # rs"] exI[of _ w'] exI[of _ p']) simp
  qed
qed

lemma fcyc_returns:
  assumes m: "\<forall>n. \<exists>rs w'. measures pf g n w = Ret rs w'" and k: "1 \<le> kbest (snd w)" "calloc_ok (snd w) (kbest (snd w))"
  shows "\<exists>rs p' w'. fcyc pf g p w = Ret (Min (set rs)) (p', w') \<and> measures pf g (length rs) w = Ret rs w'
    \<and> 1 \<le> length rs \<and> int (length rs) \<le> max 1 (maxsamples (snd w)) \<and> stops (snd w) rs
    \<and> (\<forall>j. 0 < j \<longrightarrow> j < length rs \<longrightarrow> \<not> stops (snd w) (take j rs))"
proof -
  have "smallest (kbest (snd w)) [] (init_sampler (snd w) p)"
    by (rule init_sampler_smallest) (use k in simp_all)
  from fcyc_loop_returns[OF m this k(1)] obtain rs w' p' where
    l: "fcyc_loop pf g (init_sampler (snd w) p) w = Ret () (p', w')" "measures pf g (length rs) w = Ret rs w'"
      "rs \<noteq> []" "smallest (kbest (snd w)) rs p'" "stops (snd w) rs"
      "\<forall>j. 0 < j \<longrightarrow> j < length rs \<longrightarrow> \<not> stops (snd w) (take j rs)"
    by auto
  obtain vs where vs: "vals p' = Some vs" "int (length vs) = kbest (snd w)"
    "take (length rs) vs = take (nat (kbest (snd w))) (sort rs)"
    using l(4) by (auto simp: smallest_def)
  obtain v vs' where v: "vs = v # vs'" using vs(2) k(1) by (cases vs) auto
  have "v = sort rs ! 0"
    using vs(3) v l(3) k(1) by (cases "length rs"; cases "sort rs"; cases "nat (kbest (snd w))") auto
  then have "v = Min (set rs)" using sort_hd_Min[OF l(3)] by simp
  then have "fcyc pf g p w = Ret (Min (set rs)) (p'\<lparr>vals := None\<rparr>, w')"
    using l(1) vs(1) v by (simp add: fcyc_def Let_def)
  moreover have "int (length rs) \<le> max 1 (maxsamples (snd w))"
  proof (rule ccontr)
    assume a: "\<not> ?thesis"
    define j where "j = nat (max 1 (maxsamples (snd w)))"
    have j: "0 < j" "j < length rs" "maxsamples (snd w) \<le> int j" using a by (auto simp: j_def)
    then have "stops (snd w) (take j rs)" by (simp add: stops_def)
    then show False using l(6) j by blast
  qed
  moreover have "1 \<le> length rs" using l(3) by (cases rs) auto
  ultimately show ?thesis using l(2,5,6) by blast
qed

section \<open>Clearing the cache\<close>

lemma clear_loop_ends:
  assumes "0 < incr" "0 \<le> i"
  shows "\<exists>x'. clear_loop buf n incr i x = Some (Ret () x')"
  using assms(2)
proof (induction "nat (n - i)" arbitrary: i x rule: less_induct)
  case less
  show ?case
  proof (cases "i < n")
    case True
    then show ?thesis
      using less(1)[of "i + incr" "x + buf i"] less(2) assms(1) by (subst clear_loop.simps) auto
  next
    case False
    then show ?thesis by (subst clear_loop.simps) auto
  qed
qed

lemma clear_loop_stuck:
  assumes "clear_loop buf n incr i x = Some r"
  shows "\<not> (incr = 0 \<and> 0 \<le> i \<and> i < n)"
proof (rule clear_loop.raw_induct[where xa = "((((buf, n), incr), i), x)" and y = r
      and P = "\<lambda>buf n incr i x r. \<not> (incr = 0 \<and> 0 \<le> i \<and> i < n)", unfolded prod.case], goal_cases)
  case (1 loop buf n incr i x r)
  then show ?case by (auto split: if_splits)
qed (rule assms)

lemma scast_quarter:
  assumes "0 \<le> sint (b :: 32 word)"
  shows "uint ((scast b :: 64 word) div 4) = sint b div 4"
    "sint (ucast ((scast b :: 64 word) div 4) :: 32 word) = sint b div 4"
proof -
  have lt: "sint b < 2 ^ 31" using sint_lt[of b] by simp
  have "uint (scast b :: 64 word) = sint b"
    unfolding scast_eq uint_word_of_int_eq using assms lt by (simp add: take_bit_int_eq_self)
  then show q: "uint ((scast b :: 64 word) div 4) = sint b div 4" by (simp add: uint_div_distrib)
  have "0 \<le> sint b div 4" "sint b div 4 < 2 ^ 31" using assms lt by auto
  then have u: "uint (ucast ((scast b :: 64 word) div 4) :: 32 word) = sint b div 4"
    unfolding unsigned_ucast_eq q by (simp add: take_bit_int_eq_self)
  then show "sint (ucast ((scast b :: 64 word) div 4) :: 32 word) = sint b div 4"
    using \<open>sint b div 4 < 2 ^ 31\<close> \<open>0 \<le> sint b div 4\<close>
    unfolding sint_uint u by (simp add: signed_take_bit_int_eq_self)
qed

lemma clear_returns_iff:
  assumes "0 \<le> sint (cache_block f)" "4 \<le> sint (cache_bytes f)" "cache_buf f = None" "malloc_ok f (scast (cache_bytes f))"
  shows "if 4 \<le> sint (cache_block f) then \<exists>f'. clear f = Ret () f' else clear f = Hang"
proof -
  let ?n = "sint (cache_bytes f) div 4" and ?i = "sint (cache_block f) div 4"
  have c: "clear f = and_then (loop_outcome (clear_loop (cache_junk f) ?n ?i 0 (sink f)))
      (\<lambda>_ x. Ret () (f\<lparr>cache_buf := Some ?n, sink := x\<rparr>))"
    using assms scast_quarter[of "cache_block f"] scast_quarter[of "cache_bytes f"] by (simp add: clear_def Let_def)
  have n: "0 < ?n" using assms(2) by simp
  show ?thesis
  proof (cases "4 \<le> sint (cache_block f)")
    case True
    then have "0 < ?i" by simp
    from clear_loop_ends[OF this order_refl, of "cache_junk f" ?n "sink f"] show ?thesis using True c by auto
  next
    case False
    then have "?i = 0" using assms(1) by simp
    then have "clear_loop (cache_junk f) ?n ?i 0 (sink f) = None"
      using clear_loop_stuck[of "cache_junk f" ?n ?i 0 "sink f"] n
      by (cases "clear_loop (cache_junk f) ?n ?i 0 (sink f)") auto
    then show ?thesis using False c by simp
  qed
qed

end
