(* ===== verification/Ftimer.thy ===== *)
theory Ftimer
  imports Fcyc
begin

text \<open>
  \<^verbatim>\<open>ftimer.c\<close> and \<^verbatim>\<open>fsecs.c\<close>: function timers on top of the interval timer and of
  \<open>gettimeofday\<close>, and the wrapper that selects the timing method of \<^verbatim>\<open>config.h\<close>. The services of
  the operating system are parameters: \<open>gtod k\<close> is what the \<open>k\<close>-th call of \<open>gettimeofday\<close>
  returns, \<open>itimer k\<close> what remains of the real timer at the \<open>k\<close>-th round of \<open>getitimer\<close> calls,
  both in seconds and microseconds.
\<close>

type_synonym timeval = "int \<times> int"

record ftimer =
  gtod :: "nat \<Rightarrow> timeval"
  gtod_calls :: nat
  itimer :: "nat \<Rightarrow> timeval"
  itimer_calls :: nat
  first_u :: timeval
  first_r :: timeval
  first_p :: timeval

definition MAX_ETIME :: int where "MAX_ETIME = 86400"

section \<open>The interval timer\<close>

definition init_etime :: "ftimer \<Rightarrow> ftimer" where
  "init_etime t = t\<lparr>first_u := (MAX_ETIME, 0), first_r := (MAX_ETIME, 0), first_p := (MAX_ETIME, 0)\<rparr>"

definition get_etime :: "ftimer \<Rightarrow> real \<times> ftimer" where
  "get_etime t =
     (let r_curr = itimer t (itimer_calls t); t = t\<lparr>itimer_calls := itimer_calls t + 1\<rparr>
      in (real_of_int (fst (first_p t) - fst r_curr) + real_of_int (snd (first_p t) - snd r_curr) * (1 / 10 ^ 6), t))"

text \<open>\<open>for (i = 0; i < n; i++) f(argp);\<close>\<close>

fun repeat_call :: "nat \<Rightarrow> ('s \<Rightarrow> (unit, 's) outcome) \<Rightarrow> 's \<Rightarrow> (unit, 's) outcome" where
  "repeat_call 0 f s = Ret () s"
| "repeat_call (Suc n) f s = and_then (f s) (\<lambda>_ s. repeat_call n f s)"

definition ftimer_itimer :: "('s \<Rightarrow> (unit, 's) outcome) \<Rightarrow> 32 word \<Rightarrow> 's \<times> ftimer \<Rightarrow> (real, 's \<times> ftimer) outcome" where
  "ftimer_itimer f n = (\<lambda>(s, t).
     let t = init_etime t; (start, t) = get_etime t
     in and_then (repeat_call (nat (sint n)) f s) (\<lambda>_ s.
          let (e, t) = get_etime t; tmeas = e - start
          in if n = 0 then Undef else Ret (tmeas / real_of_int (sint n)) (s, t)))"

section \<open>gettimeofday\<close>

definition gettimeofday :: "ftimer \<Rightarrow> timeval \<times> ftimer" where
  "gettimeofday t = (gtod t (gtod_calls t), t\<lparr>gtod_calls := gtod_calls t + 1\<rparr>)"

text \<open>The loop that adds up the milliseconds of \<open>n\<close> runs.\<close>

fun gettod_loop :: "nat \<Rightarrow> ('s \<Rightarrow> (unit, 's) outcome) \<Rightarrow> ('s \<Rightarrow> (unit, 's) outcome) \<Rightarrow> real \<Rightarrow> 's \<times> ftimer
    \<Rightarrow> (real, 's \<times> ftimer) outcome" where
  "gettod_loop 0 f g diff w = Ret diff w"
| "gettod_loop (Suc n) f g diff (s, t) =
     (let (stv, t) = gettimeofday t
      in and_then (f s) (\<lambda>_ s.
           let (etv, t) = gettimeofday t;
               diff = diff + (1000 * real_of_int (fst etv - fst stv) + 1 / 1000 * real_of_int (snd etv - snd stv))
           in and_then (g s) (\<lambda>_ s. gettod_loop n f g diff (s, t))))"

definition ftimer_gettod :: "('s \<Rightarrow> (unit, 's) outcome) \<Rightarrow> ('s \<Rightarrow> (unit, 's) outcome) \<Rightarrow> 32 word \<Rightarrow> 's \<times> ftimer
    \<Rightarrow> (real, 's \<times> ftimer) outcome" where
  "ftimer_gettod f g n w =
     and_then (gettod_loop (nat (sint n)) f g 0 w) (\<lambda>diff w.
       if n = 0 then Undef else Ret (1 / 1000 * (diff / real_of_int (sint n))) w)"

section \<open>The wrapper\<close>

datatype timing_method = USE_FCYC | USE_ITIMER | USE_GETTOD

text \<open>The static data of the timing package; \<open>fcyc_pkg\<close> and \<open>ftimer_pkg\<close> are the ones below it.\<close>

record timing =
  Mhz :: real
  fcyc_pkg :: fcyc_params
  smp :: sampler
  ftimer_pkg :: ftimer

definition init_fsecs :: "platform \<Rightarrow> timing_method \<Rightarrow> timing \<Rightarrow> (unit, timing) outcome" where
  "init_fsecs pf m t =
     (let t = t\<lparr>Mhz := 0\<rparr>
      in case m of
           USE_FCYC \<Rightarrow>
             (let f = set_fcyc_maxsamples 20 (fcyc_pkg t);
                  f = set_fcyc_clear_cache 1 f;
                  f = set_fcyc_compensate 1 f;
                  f = set_fcyc_epsilon (1 / 100) f;
                  f = set_fcyc_k 3 f
              in and_then (with_clock (mhz pf) f) (\<lambda>r f. Ret () (t\<lparr>fcyc_pkg := f, Mhz := r\<rparr>)))
         | USE_ITIMER \<Rightarrow> Ret () t
         | USE_GETTOD \<Rightarrow> Ret () t)"

definition fsecs :: "platform \<Rightarrow> timing_method \<Rightarrow> ('s \<Rightarrow> (unit, 's) outcome) \<Rightarrow> ('s \<Rightarrow> (unit, 's) outcome)
    \<Rightarrow> 's \<times> timing \<Rightarrow> (real, 's \<times> timing) outcome" where
  "fsecs pf m f g = (\<lambda>(s, t).
     case m of
       USE_FCYC \<Rightarrow>
         and_then (fcyc pf f (smp t) (s, fcyc_pkg t)) (\<lambda>cycles (p, s, c).
           if Mhz t = 0 then Undef
           else Ret (cycles / (Mhz t * 10 ^ 6)) (s, t\<lparr>smp := p, fcyc_pkg := c\<rparr>))
     | USE_ITIMER \<Rightarrow> and_then (ftimer_itimer f 10 (s, ftimer_pkg t)) (\<lambda>r (s, u). Ret r (s, t\<lparr>ftimer_pkg := u\<rparr>))
     | USE_GETTOD \<Rightarrow> and_then (ftimer_gettod f g 10 (s, ftimer_pkg t)) (\<lambda>r (s, u). Ret r (s, t\<lparr>ftimer_pkg := u\<rparr>)))"

section \<open>The mean\<close>

definition tv_secs :: "timeval \<Rightarrow> real" where
  "tv_secs v = real_of_int (fst v) + real_of_int (snd v) / 10 ^ 6"

text \<open>The seconds the \<open>i\<close>-th run took, when \<open>gettimeofday\<close> has been called \<open>k\<close> times before.\<close>

definition run_secs :: "ftimer \<Rightarrow> nat \<Rightarrow> nat \<Rightarrow> real" where
  "run_secs t k i = tv_secs (gtod t (k + 2 * i + 1)) - tv_secs (gtod t (k + 2 * i))"

lemma gettod_loop_sum:
  assumes "\<And>i. i < n \<Longrightarrow> f (S i) = Ret () (S' i)" "\<And>i. i < n \<Longrightarrow> g (S' i) = Ret () (S (Suc i))"
  shows "gettod_loop n f g diff (S 0, t) =
    Ret (diff + 1000 * (\<Sum>i<n. run_secs t (gtod_calls t) i)) (S n, t\<lparr>gtod_calls := gtod_calls t + 2 * n\<rparr>)"
  using assms
proof (induction n arbitrary: diff t S S')
  case 0
  then show ?case by simp
next
  case (Suc n)
  let ?t = "t\<lparr>gtod_calls := gtod_calls t + 2\<rparr>"
  have r: "run_secs ?t (gtod_calls ?t) i = run_secs t (gtod_calls t) (Suc i)" for i
    by (simp add: run_secs_def numeral_2_eq_2)
  have s: "(\<Sum>i<Suc n. run_secs t (gtod_calls t) i)
      = run_secs t (gtod_calls t) 0 + (\<Sum>i<n. run_secs ?t (gtod_calls ?t) i)"
    unfolding r by (rule sum.lessThan_Suc_shift)
  have "gettod_loop (Suc n) f g diff (S 0, t)
      = gettod_loop n f g (diff + 1000 * run_secs t (gtod_calls t) 0) (S (Suc 0), ?t)"
    using Suc.prems(1)[of 0] Suc.prems(2)[of 0]
    by (simp add: gettimeofday_def Let_def run_secs_def tv_secs_def algebra_simps diff_divide_distrib)
  also have "\<dots> = Ret (diff + 1000 * run_secs t (gtod_calls t) 0 + 1000 * (\<Sum>i<n. run_secs ?t (gtod_calls ?t) i))
      (S (Suc n), ?t\<lparr>gtod_calls := gtod_calls ?t + 2 * n\<rparr>)"
    by (rule Suc.IH[of "\<lambda>i. S (Suc i)" "\<lambda>i. S' (Suc i)"]) (use Suc.prems in auto)
  finally show ?case unfolding s by (simp add: algebra_simps)
qed

lemma ftimer_gettod_mean:
  assumes "\<And>i. i < nat (sint n) \<Longrightarrow> f (S i) = Ret () (S' i)" "\<And>i. i < nat (sint n) \<Longrightarrow> g (S' i) = Ret () (S (Suc i))"
    and "0 < sint n"
  shows "ftimer_gettod f g n (S 0, t) =
    Ret ((\<Sum>i<nat (sint n). run_secs t (gtod_calls t) i) / real_of_int (sint n))
      (S (nat (sint n)), t\<lparr>gtod_calls := gtod_calls t + 2 * nat (sint n)\<rparr>)"
proof -
  have "n \<noteq> 0" using assms(3) by auto
  moreover have "gettod_loop (nat (sint n)) f g 0 (S 0, t) = Ret (1000 * (\<Sum>i<nat (sint n). run_secs t (gtod_calls t) i))
      (S (nat (sint n)), t\<lparr>gtod_calls := gtod_calls t + 2 * nat (sint n)\<rparr>)"
    using gettod_loop_sum[where S = S and S' = S' and f = f and g = g and n = "nat (sint n)" and diff = 0 and t = t] assms(1,2)
    by simp
  ultimately show ?thesis unfolding ftimer_gettod_def by (simp del: of_int_sint)
qed

end
