(* ===== verification/Trace_File.thy ===== *)
theory Trace_File
  imports Driver
begin

text \<open>
  \<open>read_trace\<close> of \<^verbatim>\<open>mdriver.c\<close>: a trace file is the string of its characters. The directives
  \<open>%s\<close>, \<open>%d\<close>, \<open>%u\<close> of \<open>fscanf\<close> are modelled as the C standard describes them: they skip white
  space, a failed conversion leaves its object as it was, and a number that does not fit has no
  defined result. What fresh memory holds (\<open>junk\<close>, and \<open>jsize\<close> for the local variable \<open>size\<close>) and
  which of the four allocations succeed (\<open>ok\<close>) are parameters.
\<close>

section \<open>fscanf\<close>

definition isspace :: "char \<Rightarrow> bool" where
  "isspace c \<longleftrightarrow> c \<in> {CHR '' '', CHR 0x09, CHR 0x0A, CHR 0x0B, CHR 0x0C, CHR 0x0D}"

definition isdigit :: "char \<Rightarrow> bool" where
  "isdigit c \<longleftrightarrow> 48 \<le> (of_char c :: nat) \<and> (of_char c :: nat) \<le> 57"

definition number :: "string \<Rightarrow> int" where
  "number ds = foldl (\<lambda>n c. 10 * n + (of_char c - 48)) 0 ds"

text \<open>An optional sign and digits: the value, if there is one, and the rest of the input.\<close>

definition scan_sign :: "string \<Rightarrow> bool \<times> string" where
  "scan_sign s =
     (case s of
        c # r \<Rightarrow> if c = CHR ''-'' then (True, r) else if c = CHR ''+'' then (False, r) else (False, s)
      | [] \<Rightarrow> (False, []))"

definition scan_num :: "string \<Rightarrow> int option \<times> string" where
  "scan_num s =
     (let (neg, s) = scan_sign (dropWhile isspace s); ds = takeWhile isdigit s
      in if ds = [] then (None, s)
         else (Some (if neg then - number ds else number ds), dropWhile isdigit s))"

text \<open>\<open>fscanf (tracefile, "%d", &old)\<close> and \<open>"%u"\<close>; \<open>None\<close> is undefined.\<close>

definition scan_d :: "32 word \<Rightarrow> string \<Rightarrow> (32 word \<times> string) option" where
  "scan_d old s =
     (case scan_num s of
        (None, s) \<Rightarrow> Some (old, s)
      | (Some v, s) \<Rightarrow> if - (2 ^ 31) \<le> v \<and> v < 2 ^ 31 then Some (word_of_int v, s) else None)"

definition scan_u :: "string \<Rightarrow> (32 word option \<times> string) option" where
  "scan_u s =
     (case scan_num s of
        (None, s) \<Rightarrow> Some (None, s)
      | (Some v, s) \<Rightarrow> if \<bar>v\<bar> < 2 ^ 32 then Some (Some (word_of_int v), s) else None)"

section \<open>The requests\<close>

definition MAXLINE :: nat where "MAXLINE = 1024"

record reader =
  r_ops :: "traceop_t list"
  r_index :: "32 word"
  r_size :: "32 word"
  r_max_index :: "32 word"
  r_op_index :: nat

text \<open>\<open>fscanf (tracefile, "%u %u", &index, &size)\<close>, and \<open>"%ud"\<close>: a number and the letter d.\<close>

definition scan_uu :: "reader \<Rightarrow> string \<Rightarrow> (reader \<times> string) option" where
  "scan_uu rd s =
     (case scan_u s of
        None \<Rightarrow> None
      | Some (None, s) \<Rightarrow> Some (rd, s)
      | Some (Some i, s) \<Rightarrow>
          let rd = rd\<lparr>r_index := i\<rparr>
          in (case scan_u s of
                None \<Rightarrow> None
              | Some (None, s) \<Rightarrow> Some (rd, s)
              | Some (Some n, s) \<Rightarrow> Some (rd\<lparr>r_size := n\<rparr>, s)))"

definition scan_ud :: "reader \<Rightarrow> string \<Rightarrow> (reader \<times> string) option" where
  "scan_ud rd s =
     (case scan_u s of
        None \<Rightarrow> None
      | Some (None, s) \<Rightarrow> Some (rd, s)
      | Some (Some i, s) \<Rightarrow>
          Some (rd\<lparr>r_index := i\<rparr>, case s of c # r \<Rightarrow> if c = CHR ''d'' then r else s | [] \<Rightarrow> []))"

text \<open>Storing a request in the array; the array has \<open>num_ops\<close> elements.\<close>

definition store_op :: "(traceop_t \<Rightarrow> traceop_t) \<Rightarrow> reader \<Rightarrow> string \<Rightarrow> (reader, string) outcome" where
  "store_op upd rd s =
     (if r_op_index rd < length (r_ops rd)
      then Ret (rd\<lparr>r_ops := (r_ops rd)[r_op_index rd := upd (r_ops rd ! r_op_index rd)],
                   r_op_index := r_op_index rd + 1\<rparr>) s
      else Undef)"

definition read_request :: "char \<Rightarrow> reader \<Rightarrow> string \<Rightarrow> (reader, string) outcome" where
  "read_request c rd s =
     (if c = CHR ''a'' \<or> c = CHR ''r''
      then case scan_uu rd s of
             None \<Rightarrow> Undef
           | Some (rd, s) \<Rightarrow>
               let rd = rd\<lparr>r_max_index := max (r_index rd) (r_max_index rd)\<rparr>
               in store_op (\<lambda>_. \<lparr>op_type = (if c = CHR ''a'' then ALLOC else REALLOC),
                    op_index = r_index rd, op_size = r_size rd\<rparr>) rd s
      else if c = CHR ''f''
      then case scan_ud rd s of
             None \<Rightarrow> Undef
           | Some (rd, s) \<Rightarrow> store_op (\<lambda>r. r\<lparr>op_type := FREE, op_index := r_index rd\<rparr>) rd s
      else Exit 1)"

lemma scan_num_length: "length (snd (scan_num s)) \<le> length s"
proof -
  let ?t = "dropWhile isspace s"
  let ?u = "snd (scan_sign ?t)"
  have "snd (scan_num s) = ?u \<or> snd (scan_num s) = dropWhile isdigit ?u"
    by (simp add: scan_num_def Let_def case_prod_beta)
  then have "length (snd (scan_num s)) \<le> length ?u" using length_dropWhile_le[of isdigit ?u] by auto
  also have "length ?u \<le> length ?t" by (auto simp: scan_sign_def split: list.splits)
  also have "length ?t \<le> length s" by (rule length_dropWhile_le)
  finally show ?thesis .
qed

lemma scan_u_length: "scan_u s = Some (r, s') \<Longrightarrow> length s' \<le> length s"
  using scan_num_length[of s] by (auto simp: scan_u_def split: prod.splits option.splits if_splits)

lemma read_request_length: "read_request c rd s = Ret rd' s' \<Longrightarrow> length s' \<le> length s"
  by (auto simp: read_request_def scan_uu_def scan_ud_def store_op_def Let_def
      dest!: scan_u_length split: if_splits option.splits list.splits)

function read_ops :: "reader \<Rightarrow> string \<Rightarrow> (reader, string) outcome" where
  "read_ops rd s =
     (let s = dropWhile isspace s; word = takeWhile (\<lambda>c. \<not> isspace c) s
      in if s = [] then Ret rd []
         else if MAXLINE \<le> length word then Undef
         else and_then (read_request (hd word) rd (dropWhile (\<lambda>c. \<not> isspace c) s)) (\<lambda>rd s. read_ops rd s))"
  by pat_completeness auto
termination
proof (relation "measure (\<lambda>(rd, s). length s)", goal_cases)
  case (2 rd s t u rd' s')
  obtain c r where t: "t = c # r" using 2(3) by (cases t) auto
  have "\<not> isspace c" using 2(1) t by (metis dropWhile_eq_Cons_conv)
  then have "length (dropWhile (\<lambda>c. \<not> isspace c) t) \<le> length r" using t by (simp add: length_dropWhile_le)
  moreover have "length t \<le> length s" using 2(1) length_dropWhile_le by simp
  ultimately show ?case using read_request_length[OF 2(5)] t by simp
qed simp

declare read_ops.simps [simp del]

section \<open>The file\<close>

definition read_trace :: "trace_t \<Rightarrow> 32 word \<Rightarrow> (nat \<Rightarrow> bool) \<Rightarrow> string option \<Rightarrow> (trace_t, string) outcome" where
  "read_trace junk jsize ok file =
     (if \<not> ok 0 then unix_error
      else case file of
        None \<Rightarrow> unix_error
      | Some s \<Rightarrow>
          (case scan_d (sugg_heapsize junk) s of None \<Rightarrow> Undef | Some (hs, s) \<Rightarrow>
          (case scan_d (num_ids junk) s of None \<Rightarrow> Undef | Some (ni, s) \<Rightarrow>
          (case scan_d (num_ops junk) s of None \<Rightarrow> Undef | Some (no, s) \<Rightarrow>
          (case scan_d (weight junk) s of None \<Rightarrow> Undef | Some (wt, s) \<Rightarrow>
             if sint no < 0 \<or> \<not> ok 1 then unix_error
             else if sint ni < 0 \<or> \<not> ok 2 then unix_error
             else if \<not> ok 3 then unix_error
             else
               and_then
                 (read_ops \<lparr>r_ops = replicate (nat (sint no)) \<lparr>op_type = ALLOC, op_index = 0, op_size = 0\<rparr>,
                    r_index = 0, r_size = jsize, r_max_index = 0, r_op_index = 0\<rparr> s)
                 (\<lambda>rd s.
                   if r_max_index rd \<noteq> ni - 1 then Abort
                   else if no \<noteq> of_nat (r_op_index rd) then Abort
                   else Ret \<lparr>sugg_heapsize = hs, num_ids = ni, num_ops = no, weight = wt,
                          ops = r_ops rd, blocks = replicate (nat (sint ni)) NULL,
                          block_sizes = replicate (nat (sint ni)) 0\<rparr> s))))))"

section \<open>What the assertions guarantee\<close>

definition ids_below :: "32 word \<Rightarrow> traceop_t list \<Rightarrow> bool" where
  "ids_below m os \<longleftrightarrow> (\<forall>r\<in>set os. op_type r \<noteq> FREE \<longrightarrow> op_index r \<le> m)"

lemma read_request_inv:
  assumes "read_request c rd s = Ret rd' s'" "ids_below (r_max_index rd) (take (r_op_index rd) (r_ops rd))"
  shows "ids_below (r_max_index rd') (take (r_op_index rd') (r_ops rd')) \<and> length (r_ops rd') = length (r_ops rd)
    \<and> r_op_index rd' \<le> length (r_ops rd')"
  using assms
  by (auto simp: read_request_def scan_uu_def scan_ud_def store_op_def Let_def ids_below_def take_Suc_conv_app_nth
      le_max_iff_disj split: if_splits option.splits)

lemma read_ops_inv:
  assumes "read_ops rd s = Ret rd' s'" "ids_below (r_max_index rd) (take (r_op_index rd) (r_ops rd))"
    "r_op_index rd \<le> length (r_ops rd)"
  shows "ids_below (r_max_index rd') (take (r_op_index rd') (r_ops rd')) \<and> length (r_ops rd') = length (r_ops rd)
    \<and> r_op_index rd' \<le> length (r_ops rd')"
  using assms
proof (induction rd s arbitrary: rd' s' rule: read_ops.induct)
  case (1 rd s)
  let ?s = "dropWhile isspace s"
  let ?w = "takeWhile (\<lambda>c. \<not> isspace c) ?s"
  show ?case
  proof (cases "?s = []")
    case True
    then show ?thesis using 1(2-) by (simp add: read_ops.simps Let_def)
  next
    case False
    then obtain rd1 s1 where r: "\<not> MAXLINE \<le> length ?w"
      "read_request (hd ?w) rd (dropWhile (\<lambda>c. \<not> isspace c) ?s) = Ret rd1 s1" "read_ops rd1 s1 = Ret rd' s'"
      using 1(2) by (subst (asm) read_ops.simps) (auto simp: Let_def and_then_Ret_iff split: if_splits)
    from read_request_inv[OF r(2) 1(3)] show ?thesis using 1(1)[OF refl refl False r] by simp
  qed
qed

lemma read_trace_checked:
  assumes "read_trace junk jsize ok file = Ret t s"
  shows "length (blocks t) = length (block_sizes t)" "sint (num_ops t) = int (length (ops t))"
    "sint (num_ids t) = int (length (blocks t))" "ids_below (num_ids t - 1) (ops t)"
proof -
  let ?rd = "\<lambda>no. \<lparr>r_ops = replicate (nat (sint no)) \<lparr>op_type = ALLOC, op_index = 0, op_size = 0\<rparr>,
       r_index = 0, r_size = jsize, r_max_index = 0, r_op_index = 0\<rparr>"
  obtain hs ni no wt rd s0 where r: "0 \<le> sint no" "0 \<le> sint ni" "r_max_index rd = ni - 1" "no = of_nat (r_op_index rd)"
    "read_ops (?rd no) s0 = Ret rd s"
    and t: "t = \<lparr>sugg_heapsize = hs, num_ids = ni, num_ops = no, weight = wt, ops = r_ops rd,
      blocks = replicate (nat (sint ni)) NULL, block_sizes = replicate (nat (sint ni)) 0\<rparr>"
    using assms by (auto simp: read_trace_def unix_error_def and_then_Ret_iff not_less split: if_splits option.splits)
  have i: "ids_below (r_max_index rd) (take (r_op_index rd) (r_ops rd))" "length (r_ops rd) = nat (sint no)"
    "r_op_index rd \<le> nat (sint no)"
    using read_ops_inv[OF r(5)] by (simp_all add: ids_below_def)
  have "int (r_op_index rd) \<le> sint no" using i(3) r(1) by simp
  moreover have "sint no < 2 ^ 31" using sint_lt[of no] by simp
  ultimately have lt: "int (r_op_index rd) < 2 ^ 31" by linarith
  have "sint (of_nat (r_op_index rd) :: c_int) = int (r_op_index rd)"
    using lt by (simp add: signed_of_nat signed_take_bit_int_eq_self)
  then have n: "r_op_index rd = nat (sint no)" using r(4) by simp
  show "length (blocks t) = length (block_sizes t)" "sint (num_ops t) = int (length (ops t))"
    "sint (num_ids t) = int (length (blocks t))" "ids_below (num_ids t - 1) (ops t)"
    using t i r(1-3) n by simp_all
qed

text \<open>With at least one id, the ids of allocations and reallocations are indices of the arrays.\<close>

lemma ids_below_in_array:
  assumes "ids_below (num_ids t - 1) (ops t)" "sint (num_ids t) = int (length (blocks t))" "blocks t \<noteq> []"
    and "r \<in> set (ops t)" "op_type r \<noteq> FREE"
  shows "in_array (op_index r) (blocks t)"
proof -
  have n: "0 < sint (num_ids t)" using assms(2,3) by simp
  have u: "uint (num_ids t) = sint (num_ids t)"
  proof -
    have "uint (num_ids t) = sint (num_ids t) mod 2 ^ 32" unfolding uint_sint by (simp add: take_bit_eq_mod)
    then show ?thesis using n sint_lt[of "num_ids t"] by simp
  qed
  then have "uint (num_ids t - 1) = sint (num_ids t) - 1" using n by (simp add: uint_sub_if')
  moreover have "op_index r \<le> num_ids t - 1" using assms(1,4,5) by (simp add: ids_below_def)
  ultimately have le: "uint (op_index r) \<le> sint (num_ids t) - 1" by (simp add: word_le_def)
  then have "uint (op_index r) < 2 ^ 31" using sint_lt[of "num_ids t"] by simp
  then have "sint (op_index r) = uint (op_index r)"
    using sint_small[of "op_index r"] by simp
  then show ?thesis using le assms(2) by (simp add: in_array_def)
qed

section \<open>Printing a trace\<close>

text \<open>The format of the trace files, as a reference for \<open>read_trace\<close>.\<close>

fun dec :: "nat \<Rightarrow> string" where
  "dec n = (if n < 10 then [char_of (48 + n)] else dec (n div 10) @ [char_of (48 + n mod 10)])"

declare dec.simps [simp del]

definition dec_int :: "int \<Rightarrow> string" where
  "dec_int i = (if i < 0 then CHR ''-'' # dec (nat (- i)) else dec (nat i))"

definition newline :: char where "newline = CHR 0x0A"

definition print_op :: "traceop_t \<Rightarrow> string" where
  "print_op r =
     (case op_type r of
        ALLOC \<Rightarrow> ''a '' @ dec_int (uint (op_index r)) @ '' '' @ dec_int (uint (op_size r))
      | REALLOC \<Rightarrow> ''r '' @ dec_int (uint (op_index r)) @ '' '' @ dec_int (uint (op_size r))
      | FREE \<Rightarrow> ''f '' @ dec_int (uint (op_index r))) @ [newline]"

definition print_trace :: "trace_t \<Rightarrow> string" where
  "print_trace t =
     dec_int (sint (sugg_heapsize t)) @ newline # dec_int (sint (num_ids t)) @ newline
     # dec_int (sint (num_ops t)) @ newline # dec_int (sint (weight t)) @ newline # concat (map print_op (ops t))"

fun max_id :: "32 word \<Rightarrow> traceop_t list \<Rightarrow> 32 word" where
  "max_id m [] = m"
| "max_id m (r # os) = max_id (if op_type r = FREE then m else max (op_index r) m) os"

lemma digit_char: "n < 10 \<Longrightarrow> isdigit (char_of (48 + n)) \<and> (of_char (char_of (48 + n)) :: int) = 48 + int n"
proof -
  assume n: "n < 10"
  have "(of_char (char_of (48 + n)) :: nat) = (48 + n) mod 256" by (rule of_char_of)
  then have "(of_char (char_of (48 + n)) :: nat) = 48 + n" using n by simp
  moreover have "(of_char (char_of (48 + n)) :: int) = int (of_char (char_of (48 + n)))" by (simp only: of_nat_of_char)
  ultimately show ?thesis using n by (simp add: isdigit_def)
qed

lemma dec_digits: "list_all isdigit (dec n) \<and> dec n \<noteq> [] \<and> number (dec n) = int n"
proof (induction n rule: dec.induct)
  case (1 n)
  have m: "n mod 10 < 10" by simp
  show ?case
  proof (cases "n < 10")
    case True
    then show ?thesis using digit_char[OF True] by (subst (1 2 3) dec.simps) (simp add: number_def)
  next
    case False
    have "number (dec (n div 10) @ [char_of (48 + n mod 10)]) = 10 * int (n div 10) + int (n mod 10)"
      using 1[OF False] digit_char[OF m] by (simp add: number_def)
    also have "\<dots> = int n" by presburger
    finally show ?thesis using 1[OF False] digit_char[OF m] False by (subst (1 2 3) dec.simps) simp
  qed
qed

lemma isdigit_space: "isdigit c \<Longrightarrow> \<not> isspace c \<and> c \<noteq> CHR ''-'' \<and> c \<noteq> CHR ''+''"
  by (auto simp: isdigit_def isspace_def)

lemma scan_num_dec:
  assumes "list_all isspace ws" "\<not> isdigit c"
  shows "scan_num (ws @ dec_int i @ c # s) = (Some i, c # s)"
proof -
  obtain d ds where d: "dec (nat \<bar>i\<bar>) = d # ds" "isdigit d" using dec_digits[of "nat \<bar>i\<bar>"] by (cases "dec (nat \<bar>i\<bar>)") auto
  note dd = isdigit_space[OF d(2)]
  have ws: "dropWhile isspace (ws @ r) = dropWhile isspace r" for r
    using assms(1) by (induction ws) auto
  have m: "\<not> isspace (CHR ''-'')" by (simp add: isspace_def)
  have sg: "scan_sign (dropWhile isspace (ws @ dec_int i @ c # s)) = (i < 0, dec (nat \<bar>i\<bar>) @ c # s)"
    using d dd m by (auto simp: ws dec_int_def scan_sign_def)
  have "takeWhile isdigit (dec (nat \<bar>i\<bar>) @ c # s) = dec (nat \<bar>i\<bar>)" "dropWhile isdigit (dec (nat \<bar>i\<bar>) @ c # s) = c # s"
    using dec_digits[of "nat \<bar>i\<bar>"] assms(2) by (auto simp: list_all_iff takeWhile_append dropWhile_append)
  then show ?thesis unfolding scan_num_def sg Let_def prod.case using dec_digits[of "nat \<bar>i\<bar>"] by auto
qed

lemma scan_d_dec: "list_all isspace ws \<Longrightarrow> \<not> isdigit c \<Longrightarrow>
  scan_d old (ws @ dec_int (sint (w :: 32 word)) @ c # s) = Some (w, c # s)"
  using sint_lt[of w] sint_ge[of w] by (simp add: scan_d_def scan_num_dec)

lemma scan_u_dec: "list_all isspace ws \<Longrightarrow> \<not> isdigit c \<Longrightarrow>
  scan_u (ws @ dec_int (uint (w :: 32 word)) @ c # s) = Some (Some w, c # s)"
  using uint_lt2p[of w] by (simp add: scan_u_def scan_num_dec)

lemma seps: "list_all isspace []" "list_all isspace '' ''" "list_all isspace [newline]" "\<not> isdigit (CHR '' '')" "\<not> isdigit newline"
  by (simp_all add: isspace_def isdigit_def newline_def)

definition op_clean :: "traceop_t \<Rightarrow> bool" where
  "op_clean r \<longleftrightarrow> (op_type r = FREE \<longrightarrow> op_size r = 0)"

definition after_op :: "traceop_t \<Rightarrow> reader \<Rightarrow> reader" where
  "after_op r rd = rd\<lparr>r_index := op_index r, r_size := (if op_type r = FREE then r_size rd else op_size r),
     r_max_index := (if op_type r = FREE then r_max_index rd else max (op_index r) (r_max_index rd)),
     r_ops := (r_ops rd)[r_op_index rd := r], r_op_index := r_op_index rd + 1\<rparr>"

lemma read_ops_op:
  assumes "op_clean r" "r_op_index rd < length (r_ops rd)" "op_size (r_ops rd ! r_op_index rd) = 0" "list_all isspace ws"
  shows "read_ops rd (ws @ print_op r @ s) = read_ops (after_op r rd) (newline # s)"
proof -
  have ws: "dropWhile isspace (ws @ t) = dropWhile isspace t" for t using assms(4) by (induction ws) auto
  have sp: "isspace (CHR '' '')" "\<not> isspace (CHR ''a'')" "\<not> isspace (CHR ''r'')" "\<not> isspace (CHR ''f'')"
    "\<not> newline = CHR ''d''" by (simp_all add: isspace_def newline_def)
  have ws1: "dropWhile isspace (ws @ print_op r @ s) = print_op r @ s"
    unfolding ws using sp by (cases "op_type r") (simp_all add: print_op_def)
  have u: "scan_u (CHR '' '' # dec_int (uint w) @ c # t) = Some (Some w, c # t)" if "\<not> isdigit c" for w :: c_int and c t
    using scan_u_dec[of "'' ''" c w t] seps that by simp
  have "read_request (hd (print_op r)) rd (tl (print_op r) @ s) = Ret (after_op r rd) (newline # s)"
  proof -
    obtain ty i n where r: "r = \<lparr>op_type = ty, op_index = i, op_size = n\<rparr>" by (cases r)
    have n: "(r_ops rd ! r_op_index rd)\<lparr>op_type := FREE, op_index := i\<rparr> = \<lparr>op_type = FREE, op_index = i, op_size = 0\<rparr>"
      using assms(3) by simp
    show ?thesis
      using assms(1,2) sp u seps n
      by (cases ty) (simp_all add: r print_op_def read_request_def scan_ud_def scan_uu_def store_op_def after_op_def op_clean_def Let_def)
  qed
  moreover have "takeWhile (\<lambda>c. \<not> isspace c) (print_op r @ s) = [hd (print_op r)]"
    "dropWhile (\<lambda>c. \<not> isspace c) (print_op r @ s) = tl (print_op r) @ s" "print_op r \<noteq> []"
    using sp by (cases "op_type r"; simp add: print_op_def)+
  ultimately show ?thesis
    by (subst read_ops.simps) (simp add: ws1 Let_def MAXLINE_def)
qed

lemma read_ops_print:
  assumes "list_all op_clean os" "r_op_index rd + length os \<le> length (r_ops rd)" "list_all isspace ws"
    "\<forall>j. r_op_index rd \<le> j \<longrightarrow> j < length (r_ops rd) \<longrightarrow> op_size (r_ops rd ! j) = 0"
  shows "\<exists>rd'. read_ops rd (ws @ concat (map print_op os)) = Ret rd' []
    \<and> r_ops rd' = take (r_op_index rd) (r_ops rd) @ os @ drop (r_op_index rd + length os) (r_ops rd)
    \<and> r_op_index rd' = r_op_index rd + length os \<and> r_max_index rd' = max_id (r_max_index rd) os"
  using assms
proof (induction os arbitrary: rd ws)
  case Nil
  then have "dropWhile isspace ws = []" by (simp add: list_all_iff)
  then show ?case by (subst read_ops.simps) simp
next
  case (Cons r os)
  let ?rd = "after_op r rd"
  have f: "r_op_index ?rd = r_op_index rd + 1" "r_ops ?rd = (r_ops rd)[r_op_index rd := r]"
    "r_max_index ?rd = (if op_type r = FREE then r_max_index rd else max (op_index r) (r_max_index rd))"
    by (simp_all add: after_op_def)
  have "read_ops rd (ws @ concat (map print_op (r # os))) = read_ops ?rd (newline # concat (map print_op os))"
    using read_ops_op[of r rd ws "concat (map print_op os)"] Cons.prems by simp
  moreover have "\<exists>rd'. read_ops ?rd ([newline] @ concat (map print_op os)) = Ret rd' []
    \<and> r_ops rd' = take (r_op_index ?rd) (r_ops ?rd) @ os @ drop (r_op_index ?rd + length os) (r_ops ?rd)
    \<and> r_op_index rd' = r_op_index ?rd + length os \<and> r_max_index rd' = max_id (r_max_index ?rd) os"
    by (rule Cons.IH) (use Cons.prems f seps(3) in auto)
  then obtain rd' where "read_ops ?rd (newline # concat (map print_op os)) = Ret rd' []"
    "r_ops rd' = take (r_op_index ?rd) (r_ops ?rd) @ os @ drop (r_op_index ?rd + length os) (r_ops ?rd)"
    "r_op_index rd' = r_op_index ?rd + length os" "r_max_index rd' = max_id (r_max_index ?rd) os" by auto
  moreover have "take (r_op_index ?rd) (r_ops ?rd) = take (r_op_index rd) (r_ops rd) @ [r]"
    "drop (r_op_index ?rd + length os) (r_ops ?rd) = drop (r_op_index rd + length (r # os)) (r_ops rd)"
    using Cons.prems(2) f by (simp_all add: take_Suc_conv_app_nth)
  moreover have "max_id (r_max_index ?rd) os = max_id (r_max_index rd) (r # os)" using f(3) by simp
  ultimately show ?case using f(1) by (intro exI[of _ rd'] conjI) (simp_all del: max_id.simps)
qed

text \<open>Reading what was printed.\<close>

lemma read_trace_print:
  assumes "sint (num_ids t) = int (length (blocks t))" "set (blocks t) \<subseteq> {NULL}" "block_sizes t = replicate (length (blocks t)) 0"
    and "sint (num_ops t) = int (length (ops t))" "list_all op_clean (ops t)" "max_id 0 (ops t) = num_ids t - 1"
  shows "read_trace junk jsize (\<lambda>_. True) (Some (print_trace t)) = Ret t []"
proof -
  let ?rd = "\<lparr>r_ops = replicate (nat (sint (num_ops t))) \<lparr>op_type = ALLOC, op_index = 0, op_size = 0\<rparr>,
       r_index = 0, r_size = jsize, r_max_index = 0, r_op_index = 0\<rparr>"
  have n: "nat (sint (num_ops t)) = length (ops t)" using assms(4) by simp
  obtain rd' where rd: "read_ops ?rd ([newline] @ concat (map print_op (ops t))) = Ret rd' []" "r_ops rd' = ops t"
    "r_op_index rd' = length (ops t)" "r_max_index rd' = num_ids t - 1"
    using read_ops_print[of "ops t" ?rd "[newline]"] assms(5,6) seps n by auto
  have "num_ops t = word_of_int (sint (num_ops t))" by simp
  also have "\<dots> = word_of_int (int (length (ops t)))" by (simp only: assms(4))
  finally have no: "num_ops t = of_nat (length (ops t))" by simp
  have bl: "replicate (length (blocks t)) NULL = blocks t"
    using assms(2) by (intro replicate_eqI[symmetric]) auto
  have d1: "scan_d (sugg_heapsize junk) (print_trace t) = Some (sugg_heapsize t, newline # dec_int (sint (num_ids t)) @ newline
     # dec_int (sint (num_ops t)) @ newline # dec_int (sint (weight t)) @ newline # concat (map print_op (ops t)))"
    unfolding print_trace_def using scan_d_dec[OF seps(1,5)] by simp
  have d: "scan_d old (newline # dec_int (sint w) @ newline # r) = Some (w, newline # r)" for old w r
    using scan_d_dec[OF seps(3,5)] by simp
  show ?thesis
    unfolding read_trace_def option.case d1 prod.case d
    using rd n no assms(1,3,4) bl by simp
qed

end
