(* ===== verification/Options.thy ===== *)
theory Options
  imports Trace_File
begin

text \<open>
  The start of \<open>main\<close> in \<^verbatim>\<open>mdriver.c\<close>: the options of the command line and the check of the team
  record. What \<open>getopt\<close> returns is a parameter, a list of option characters with their arguments.
  \<open>strdup\<close> is taken to succeed, as the code does.
\<close>

section \<open>Options\<close>

record options =
  autograder :: bool
  num_tracefiles :: int
  tracefiles :: "string list option"
  tracedir :: string
  team_check :: bool
  run_libc :: bool
  verbose :: int

definition TRACEDIR :: string where
  "TRACEDIR = ''/afs/cs/project/ics2/im/labs/malloclab/traces/''"

definition DEFAULT_TRACEFILES :: "string list" where
  "DEFAULT_TRACEFILES =
     [''amptjp-bal.rep'', ''cccp-bal.rep'', ''cp-decl-bal.rep'', ''expr-bal.rep'', ''coalescing-bal.rep'',
      ''random-bal.rep'', ''random2-bal.rep'', ''binary-bal.rep'', ''binary2-bal.rep'', ''realloc-bal.rep'',
      ''realloc2-bal.rep'']"

definition start_options :: options where
  "start_options = \<lparr>autograder = False, num_tracefiles = 0, tracefiles = None, tracedir = TRACEDIR,
     team_check = True, run_libc = False, verbose = 0\<rparr>"

definition set_tracedir :: "string \<Rightarrow> options \<Rightarrow> (unit, options) outcome" where
  "set_tracedir optarg opt =
     (if MAXLINE \<le> length optarg \<or> optarg = [] then Undef
      else if last optarg \<noteq> CHR ''/''
      then if MAXLINE \<le> length optarg + 1 then Undef else Ret () (opt\<lparr>tracedir := optarg @ ''/''\<rparr>)
      else Ret () (opt\<lparr>tracedir := optarg\<rparr>))"

definition parse_option :: "bool \<Rightarrow> char \<Rightarrow> string \<Rightarrow> options \<Rightarrow> (unit, options) outcome" where
  "parse_option realloc_ok c optarg opt =
     (if c = CHR ''g'' then Ret () (opt\<lparr>autograder := True\<rparr>)
      else if c = CHR ''f''
      then let opt = opt\<lparr>num_tracefiles := 1\<rparr>
           in if \<not> realloc_ok then unix_error
              else Ret () (opt\<lparr>tracedir := ''./'', tracefiles := Some [optarg]\<rparr>)
      else if c = CHR ''t''
      then if num_tracefiles opt = 1 then Ret () opt else set_tracedir optarg opt
      else if c = CHR ''a'' then Ret () (opt\<lparr>team_check := False\<rparr>)
      else if c = CHR ''l'' then Ret () (opt\<lparr>run_libc := True\<rparr>)
      else if c = CHR ''v'' then Ret () (opt\<lparr>verbose := 1\<rparr>)
      else if c = CHR ''V'' then Ret () (opt\<lparr>verbose := 2\<rparr>)
      else if c = CHR ''h'' then Exit 0
      else Exit 1)"

fun parse_options :: "bool \<Rightarrow> (char \<times> string) list \<Rightarrow> options \<Rightarrow> (unit, options) outcome" where
  "parse_options ok [] opt = Ret () opt"
| "parse_options ok ((c, arg) # cs) opt =
     and_then (parse_option ok c arg opt) (\<lambda>_ opt. parse_options ok cs opt)"

definition trace_names :: "options \<Rightarrow> string list" where
  "trace_names opt =
     (case tracefiles opt of
        None \<Rightarrow> map (\<lambda>f. tracedir opt @ f) DEFAULT_TRACEFILES
      | Some fs \<Rightarrow> map (\<lambda>f. tracedir opt @ f) fs)"

text \<open>The directory always ends in a slash, and \<open>-f\<close> takes precedence over \<open>-t\<close>.\<close>

definition options_inv :: "options \<Rightarrow> bool" where
  "options_inv opt \<longleftrightarrow> tracedir opt \<noteq> [] \<and> last (tracedir opt) = CHR ''/'' \<and> length (tracedir opt) < MAXLINE
     \<and> (case tracefiles opt of
          None \<Rightarrow> num_tracefiles opt = 0
        | Some fs \<Rightarrow> num_tracefiles opt = 1 \<and> length fs = 1 \<and> tracedir opt = ''./'')"

lemma parse_option_inv:
  assumes "options_inv opt" "parse_option ok c arg opt = Ret () opt'"
  shows "options_inv opt'"
  using assms
  by (auto simp: parse_option_def set_tracedir_def options_inv_def unix_error_def MAXLINE_def Let_def
      split: if_splits option.splits)

lemma parse_options_inv:
  "options_inv opt \<Longrightarrow> parse_options ok cs opt = Ret () opt' \<Longrightarrow> options_inv opt'"
proof (induction ok cs opt rule: parse_options.induct)
  case (2 ok c arg cs opt)
  then show ?case using parse_option_inv by (auto simp: and_then_Ret_iff)
qed simp

lemma start_options_inv: "options_inv start_options"
  by (simp add: options_inv_def start_options_def TRACEDIR_def MAXLINE_def)

section \<open>The team\<close>

record team_t =
  teamname :: string
  name1 :: string
  id1 :: string
  name2 :: string
  id2 :: string

definition team :: team_t where
  "team = \<lparr>teamname = ''fdingiit'', name1 = ''fd'', id1 = ''fdingiit@gmail.com'', name2 = '''', id2 = ''''\<rparr>"

definition check_team :: "team_t \<Rightarrow> 's \<Rightarrow> (unit, 's) outcome" where
  "check_team tm s =
     (if teamname tm = '''' then Exit 1
      else if name1 tm = '''' \<or> id1 tm = '''' then Exit 1
      else if (name2 tm \<noteq> '''' \<and> id2 tm = '''') \<or> (name2 tm = '''' \<and> id2 tm \<noteq> '''') then Exit 1
      else Ret () s)"

lemma check_team_ok: "check_team team s = Ret () s"
  by (simp add: check_team_def team_def)

end
