(* ===== verification/Driver_Main.thy ===== *)
theory Driver_Main
  imports Driver_Util Ftimer Options
begin

text \<open>
  The evaluation of libc's allocator (a parameter) and the part of \<open>main\<close> of \<^verbatim>\<open>mdriver.c\<close> that
  evaluates the package: the loop over the trace files and the performance index. What is printed
  is left out.
\<close>

section \<open>libc's allocator\<close>

record 'l libc =
  l_malloc :: "size_t \<Rightarrow> 'l \<Rightarrow> addr \<times> 'l"
  l_realloc :: "addr \<Rightarrow> size_t \<Rightarrow> 'l \<Rightarrow> addr \<times> 'l"
  l_free :: "addr \<Rightarrow> 'l \<Rightarrow> 'l"

definition libc_valid_op :: "'l libc \<Rightarrow> traceop_t \<Rightarrow> driver \<times> 'l \<Rightarrow> (c_int option, driver \<times> 'l) outcome" where
  "libc_valid_op L r = (\<lambda>(d, l).
     let i = op_index r
     in case op_type r of
          ALLOC \<Rightarrow>
            (let (p, l) = l_malloc L (scast (op_size r)) l
             in if p = NULL then let d = malloc_error d in unix_error
                else if in_array i (blocks (trace d)) then Ret None (set_block i p d, l) else Undef)
        | REALLOC \<Rightarrow>
            (if \<not> in_array i (blocks (trace d)) then Undef
             else
               let newsize = op_size r; oldp = arr_get (blocks (trace d)) i;
                   (newp, l) = l_realloc L oldp (scast newsize) l
               in if newp = NULL then let d = malloc_error d in unix_error
                  else Ret None (set_block i newp d, l))
        | FREE \<Rightarrow>
            (if in_array i (blocks (trace d)) then Ret None (d, l_free L (arr_get (blocks (trace d)) i) l)
             else Undef))"

definition eval_libc_valid :: "'l libc \<Rightarrow> driver \<times> 'l \<Rightarrow> (c_int, driver \<times> 'l) outcome" where
  "eval_libc_valid L = (\<lambda>(d, l).
     and_then (for_ops (libc_valid_op L) (nat (sint (num_ops (trace d)))) (ops (trace d)) (d, l))
       (\<lambda>_ w. Ret 1 w))"

definition libc_speed_op :: "'l libc \<Rightarrow> traceop_t \<Rightarrow> driver \<times> 'l \<Rightarrow> (unit option, driver \<times> 'l) outcome" where
  "libc_speed_op L r = (\<lambda>(d, l).
     case op_type r of
       ALLOC \<Rightarrow>
         (let index = op_index r; sz = op_size r; (p, l) = l_malloc L (scast sz) l
          in if p = NULL then unix_error
             else if in_array index (blocks (trace d)) then Ret None (set_block index p d, l) else Undef)
     | REALLOC \<Rightarrow>
         (let index = op_index r; newsize = op_size r
          in if \<not> in_array index (blocks (trace d)) then Undef
             else
               let oldp = arr_get (blocks (trace d)) index;
                   (newp, l) = l_realloc L oldp (scast newsize) l
               in if newp = NULL then unix_error else Ret None (set_block index newp d, l))
     | FREE \<Rightarrow>
         (let index = op_index r
          in if \<not> in_array index (blocks (trace d)) then Undef
             else let block = arr_get (blocks (trace d)) index in Ret None (d, l_free L block l)))"

definition eval_libc_speed :: "'l libc \<Rightarrow> driver \<times> 'l \<Rightarrow> (unit, driver \<times> 'l) outcome" where
  "eval_libc_speed L = (\<lambda>(d, l).
     and_then (for_ops (libc_speed_op L) (nat (sint (num_ops (trace d)))) (ops (trace d)) (d, l))
       (\<lambda>_ w. Ret () w))"

section \<open>One trace\<close>

record stats_t =
  st_ops :: real
  st_valid :: c_int
  st_secs :: real
  st_util :: real

text \<open>
  The bodies of the two loops over the trace files, after \<open>read_trace\<close>. \<open>clean_up\<close> clears the
  simulated memory, which has no defined result before \<open>mem_init\<close>.
\<close>

definition clean :: "driver \<Rightarrow> (unit, driver) outcome" where
  "clean d = (if mem_start_brk (heap d) = NULL then Undef else Ret () (clean_up d))"

definition libc_trace :: "platform \<Rightarrow> timing_method \<Rightarrow> 'l libc \<Rightarrow> (driver \<times> 'l) \<times> timing
    \<Rightarrow> (stats_t, (driver \<times> 'l) \<times> timing) outcome" where
  "libc_trace pf tm L = (\<lambda>((d, l), w).
     let n = real_of_int (sint (num_ops (trace d)))
     in and_then (eval_libc_valid L (d, l)) (\<lambda>v (d, l).
          if v \<noteq> 0
          then and_then (fsecs pf tm (eval_libc_speed L)
                   (\<lambda>(d, l). and_then (clean d) (\<lambda>_ d. Ret () (d, l))) ((d, l), w))
                 (\<lambda>secs w. Ret \<lparr>st_ops = n, st_valid = v, st_secs = secs, st_util = 0\<rparr> w)
          else Ret \<lparr>st_ops = n, st_valid = v, st_secs = 0, st_util = 0\<rparr> ((d, l), w)))"

definition mm_trace :: "platform \<Rightarrow> timing_method \<Rightarrow> mm_pkg \<Rightarrow> driver \<times> timing
    \<Rightarrow> (stats_t, driver \<times> timing) outcome" where
  "mm_trace pf tm P = (\<lambda>(d, w).
     let n = real_of_int (sint (num_ops (trace d)))
     in and_then (eval_mm_valid P d) (\<lambda>v d.
          if v \<noteq> 0
          then and_then (clean d) (\<lambda>_ d.
               and_then (eval_mm_util P d) (\<lambda>ut u.
               and_then (clean (drv u)) (\<lambda>_ d.
               and_then (fsecs pf tm (eval_mm_speed P) clean (d, w)) (\<lambda>secs w.
                 Ret \<lparr>st_ops = n, st_valid = v, st_secs = secs, st_util = ut\<rparr> w))))
          else Ret \<lparr>st_ops = n, st_valid = v, st_secs = 0, st_util = 0\<rparr> (d, w)))"

text \<open>\<open>read_trace\<close> makes four allocations.\<close>

definition load_trace :: "trace_t \<Rightarrow> c_int \<Rightarrow> string option \<Rightarrow> driver \<Rightarrow> (unit, driver) outcome" where
  "load_trace junk jsize file d =
     and_then (read_trace junk jsize (\<lambda>k. libc_ok d (libc_calls d + k)) file)
       (\<lambda>t _. Ret () (d\<lparr>trace := t, libc_calls := libc_calls d + 4\<rparr>))"

fun mm_traces :: "platform \<Rightarrow> timing_method \<Rightarrow> mm_pkg \<Rightarrow> trace_t \<Rightarrow> c_int \<Rightarrow> string option list
    \<Rightarrow> driver \<times> timing \<Rightarrow> (stats_t list, driver \<times> timing) outcome" where
  "mm_traces pf tm P junk jsize [] w = Ret [] w"
| "mm_traces pf tm P junk jsize (f # fs) (d, w) =
     and_then (load_trace junk jsize f d) (\<lambda>_ d.
     and_then (mm_trace pf tm P (d, w)) (\<lambda>st w.
     and_then (mm_traces pf tm P junk jsize fs w) (\<lambda>sts w. Ret (st # sts) w)))"

fun libc_traces :: "platform \<Rightarrow> timing_method \<Rightarrow> 'l libc \<Rightarrow> trace_t \<Rightarrow> c_int \<Rightarrow> string option list
    \<Rightarrow> (driver \<times> 'l) \<times> timing \<Rightarrow> (stats_t list, (driver \<times> 'l) \<times> timing) outcome" where
  "libc_traces pf tm L junk jsize [] w = Ret [] w"
| "libc_traces pf tm L junk jsize (f # fs) ((d, l), w) =
     and_then (load_trace junk jsize f d) (\<lambda>_ d.
     and_then (libc_trace pf tm L ((d, l), w)) (\<lambda>st w.
     and_then (libc_traces pf tm L junk jsize fs w) (\<lambda>sts w. Ret (st # sts) w)))"

section \<open>The performance index\<close>

definition UTIL_WEIGHT :: real where "UTIL_WEIGHT = 60 / 100"
definition AVG_LIBC_THRUPUT :: real where "AVG_LIBC_THRUPUT = 600 * 10 ^ 3"

record totals =
  t_secs :: real
  t_ops :: real
  t_util :: real
  numcorrect :: int

definition add_stats :: "totals \<Rightarrow> stats_t \<Rightarrow> totals" where
  "add_stats t st = t\<lparr>t_secs := t_secs t + st_secs st, t_ops := t_ops t + st_ops st,
     t_util := t_util t + st_util st,
     numcorrect := (if st_valid st \<noteq> 0 then numcorrect t + 1 else numcorrect t)\<rparr>"

definition perfindex :: "c_int \<Rightarrow> nat \<Rightarrow> totals \<Rightarrow> real option" where
  "perfindex errs n t =
     (if n = 0 then None
      else
        let avg_mm_util = t_util t / real n
        in if errs = 0
           then if t_secs t = 0 then None
                else
                  let avg_mm_throughput = t_ops t / t_secs t;
                      p1 = UTIL_WEIGHT * avg_mm_util;
                      p2 = (if avg_mm_throughput > AVG_LIBC_THRUPUT then 1 - UTIL_WEIGHT
                            else (1 - UTIL_WEIGHT) * (avg_mm_throughput / AVG_LIBC_THRUPUT))
                  in Some ((p1 + p2) * 100)
           else Some 0)"

section \<open>The table of results\<close>

text \<open>
  The lines \<open>printresults\<close> prints: utilisation in per cent, requests, seconds and Kops of a correct
  trace, a line of dashes for another one, and the totals, which are dashes if errors were counted.
  \<open>None\<close> is a division by zero.
\<close>

datatype row = Numbers real real real real | Dashes

definition kops :: "real \<Rightarrow> real \<Rightarrow> real option" where
  "kops n secs = (if secs = 0 then None else Some ((n / 10 ^ 3) / secs))"

fun print_rows :: "stats_t list \<Rightarrow> totals \<Rightarrow> (row list \<times> totals) option" where
  "print_rows [] t = Some ([], t)"
| "print_rows (st # sts) t =
     (if st_valid st \<noteq> 0
      then case kops (st_ops st) (st_secs st) of
             None \<Rightarrow> None
           | Some k \<Rightarrow> map_option (map_prod ((#) (Numbers (st_util st * 100) (st_ops st) (st_secs st) k)) id)
               (print_rows sts (add_stats t st))
      else map_option (map_prod ((#) Dashes) id) (print_rows sts t))"

definition printresults :: "c_int \<Rightarrow> nat \<Rightarrow> stats_t list \<Rightarrow> (row list \<times> row) option" where
  "printresults errs n sts =
     (case print_rows sts \<lparr>t_secs = 0, t_ops = 0, t_util = 0, numcorrect = 0\<rparr> of
        None \<Rightarrow> None
      | Some (rows, t) \<Rightarrow>
          if errs = 0
          then if n = 0 then None
               else map_option (\<lambda>k. (rows, Numbers (t_util t / real n * 100) (t_ops t) (t_secs t) k))
                 (kops (t_ops t) (t_secs t))
          else Some (rows, Dashes))"

text \<open>If all traces are correct, the totals of the table are the sums the performance index is computed from.\<close>

lemma print_rows_totals:
  assumes "print_rows sts t = Some (rows, t')" "\<forall>st\<in>set sts. st_valid st \<noteq> 0"
  shows "t' = foldl add_stats t sts \<and> length rows = length sts"
  using assms
proof (induction sts arbitrary: t rows)
  case (Cons st sts)
  then show ?case by (auto split: option.splits)
qed simp

lemma printresults_perfindex:
  assumes "printresults 0 n sts = Some (rows, Numbers ut nops secs k)" "\<forall>st\<in>set sts. st_valid st \<noteq> 0"
  shows "perfindex 0 n (foldl add_stats \<lparr>t_secs = 0, t_ops = 0, t_util = 0, numcorrect = 0\<rparr> sts)
    = Some (UTIL_WEIGHT * ut + (1 - UTIL_WEIGHT) * min 100 (100 * (k * 1000 / AVG_LIBC_THRUPUT)))"
proof -
  obtain t where p: "print_rows sts \<lparr>t_secs = 0, t_ops = 0, t_util = 0, numcorrect = 0\<rparr> = Some (rows, t)"
    "n \<noteq> 0" "kops (t_ops t) (t_secs t) = Some k" "ut = t_util t / real n * 100"
    using assms(1) by (auto simp: printresults_def split: option.splits if_splits)
  from print_rows_totals[OF p(1) assms(2)] p(2-) show ?thesis
    by (auto simp: perfindex_def kops_def Let_def AVG_LIBC_THRUPUT_def UTIL_WEIGHT_def min_def field_simps
        split: if_splits)
qed

section \<open>The program\<close>

text \<open>
  \<open>main\<close> after the options: with \<open>with_libc\<close> (option \<open>-l\<close>) it evaluates libc's allocator first. \<open>calloc\<close> of the
  array of results may fail. The value is the performance index and the number of correct traces, which
  \<open>main\<close> prints before it exits.
\<close>

definition calloc_stats :: "driver \<Rightarrow> (unit, driver) outcome" where
  "calloc_stats d = (if libc_ok d (libc_calls d) then Ret () (d\<lparr>libc_calls := libc_calls d + 1\<rparr>) else unix_error)"

definition main_mm :: "platform \<Rightarrow> timing_method \<Rightarrow> mm_pkg \<Rightarrow> trace_t \<Rightarrow> c_int \<Rightarrow> string option list \<Rightarrow> addr
    \<Rightarrow> driver \<times> timing \<Rightarrow> (real \<times> int, driver \<times> timing) outcome" where
  "main_mm pf tm P junk jsize files malloc_result = (\<lambda>(d, w).
     and_then (calloc_stats d) (\<lambda>_ d.
       case mem_init malloc_result (heap d) of
         None \<Rightarrow> Exit 1
       | Some s \<Rightarrow>
           and_then (mm_traces pf tm P junk jsize files (d\<lparr>heap := s\<rparr>, w)) (\<lambda>sts (d, w).
             let t = foldl add_stats \<lparr>t_secs = 0, t_ops = 0, t_util = 0, numcorrect = 0\<rparr> sts
             in case perfindex (errors d) (length files) t of
                  None \<Rightarrow> Undef
                | Some x \<Rightarrow> Ret (x, numcorrect t) (d, w))))"

definition main :: "platform \<Rightarrow> timing_method \<Rightarrow> mm_pkg \<Rightarrow> bool \<Rightarrow> 'l libc \<Rightarrow> trace_t \<Rightarrow> c_int
    \<Rightarrow> string option list \<Rightarrow> addr \<Rightarrow> (driver \<times> 'l) \<times> timing \<Rightarrow> (real \<times> int, driver \<times> timing) outcome" where
  "main pf tm P with_libc L junk jsize files malloc_result = (\<lambda>((d, l), w).
     and_then (init_fsecs pf tm w) (\<lambda>_ w.
     and_then
       (if with_libc
        then and_then (calloc_stats d) (\<lambda>_ d.
               and_then (libc_traces pf tm L junk jsize files ((d, l), w)) (\<lambda>_ ((d, l), w). Ret () (d, w)))
        else Ret () (d, w))
       (\<lambda>_ w. main_mm pf tm P junk jsize files malloc_result w)))"

text \<open>The whole program: \<open>args\<close> is what \<open>getopt\<close> returns and \<open>fs\<close> gives the contents of a file.\<close>

definition mdriver :: "platform \<Rightarrow> timing_method \<Rightarrow> mm_pkg \<Rightarrow> 'l libc \<Rightarrow> trace_t \<Rightarrow> c_int \<Rightarrow> (string \<Rightarrow> string option)
    \<Rightarrow> bool \<Rightarrow> (char \<times> string) list \<Rightarrow> addr \<Rightarrow> (driver \<times> 'l) \<times> timing \<Rightarrow> (real \<times> int, driver \<times> timing) outcome" where
  "mdriver pf tm P L junk jsize fs realloc_ok args malloc_result w =
     and_then (parse_options realloc_ok args start_options) (\<lambda>_ opt.
     and_then (if team_check opt then check_team team opt else Ret () opt) (\<lambda>_ opt.
       main pf tm P (run_libc opt) L junk jsize (map fs (trace_names opt)) malloc_result w))"

end
