(* ===== verification/Driver_Score.thy ===== *)
theory Driver_Score
  imports Driver_Main
begin

text \<open>
  The driver as a whole. A package that can be started again after the arena has been cleared
  passes every trace file that keeps to its contract, and the performance index is between 0 and
  100. Before that, what the evaluation of libc's allocator needs.
\<close>

section \<open>libc's allocator\<close>

lemma libc_valid_speed:
  "eval_libc_valid L w = and_then (eval_libc_speed L w) (\<lambda>_ w. Ret 1 w)"
proof -
  have op: "libc_speed_op L r w = (case libc_valid_op L r w of
      Ret v s \<Rightarrow> Ret (map_option (\<lambda>_. ()) v) s | Exit c \<Rightarrow> Exit c | Abort \<Rightarrow> Abort | Undef \<Rightarrow> Undef | Hang \<Rightarrow> Hang)" for r w
    by (cases w; cases "op_type r")
      (simp_all add: libc_valid_op_def libc_speed_op_def unix_error_def Let_def split: prod.split)
  have none: "libc_valid_op L r w = Ret v s \<Longrightarrow> v = None" for r w v s
    by (cases w; cases "op_type r")
      (auto simp: libc_valid_op_def unix_error_def Let_def split: prod.splits if_splits)
  have "and_then (for_ops (libc_valid_op L) n os w) (\<lambda>_ w. Ret (1 :: c_int) w)
      = and_then (for_ops (libc_speed_op L) n os w) (\<lambda>_ w. Ret 1 w)" for n os w
  proof (induction "libc_valid_op L" n os w rule: for_ops.induct)
    case (3 n r os w)
    show ?case
    proof (cases "libc_valid_op L r w")
      case (Ret v s)
      moreover from none[OF Ret] have "v = None" .
      ultimately show ?thesis using 3[of v s] by (simp add: op)
    qed (simp_all add: op)
  qed simp_all
  then show ?thesis
    by (cases w) (simp add: eval_libc_valid_def eval_libc_speed_def and_then_assoc)
qed

definition libc_frame :: "driver \<Rightarrow> driver \<Rightarrow> bool" where
  "libc_frame d d' \<longleftrightarrow> errors d' = errors d \<and> heap d' = heap d \<and> libc_ok d' = libc_ok d
     \<and> length (blocks (trace d')) = length (blocks (trace d))
     \<and> ops (trace d') = ops (trace d) \<and> num_ops (trace d') = num_ops (trace d)"

lemma libc_run_ok:
  assumes "\<And>n l. fst (l_malloc L n l) \<noteq> NULL" "\<And>p n l. fst (l_realloc L p n l) \<noteq> NULL"
    and "\<forall>r\<in>set os. in_array (op_index r) (blocks (trace d))"
  shows "\<exists>d' l'. for_ops (libc_valid_op L) (length os) os (d, l) = Ret None (d', l') \<and> libc_frame d d'"
  using assms(3)
proof (induction os arbitrary: d l)
  case Nil
  then show ?case by (simp add: libc_frame_def)
next
  case (Cons r os)
  have "\<exists>d1 l1. libc_valid_op L r (d, l) = Ret None (d1, l1) \<and> libc_frame d d1"
    using assms(1)[of "scast (op_size r)" l] Cons.prems
      assms(2)[of "arr_get (blocks (trace d)) (op_index r)" "scast (op_size r)" l]
    by (cases "op_type r") (auto simp: libc_valid_op_def libc_frame_def set_block_def Let_def split: prod.split)
  then obtain d1 l1 where d1: "libc_valid_op L r (d, l) = Ret None (d1, l1)" "libc_frame d d1" by blast
  then have "\<forall>r\<in>set os. in_array (op_index r) (blocks (trace d1))"
    using Cons.prems by (simp add: in_array_def libc_frame_def)
  then obtain d' l' where "for_ops (libc_valid_op L) (length os) os (d1, l1) = Ret None (d', l')" "libc_frame d1 d'"
    using Cons.IH[of d1 l1] by blast
  then show ?case using d1 by (auto simp: libc_frame_def)
qed

lemma libc_eval_ok:
  assumes "\<And>n l. fst (l_malloc L n l) \<noteq> NULL" "\<And>p n l. fst (l_realloc L p n l) \<noteq> NULL"
    and "\<forall>r\<in>set (ops (trace d)). in_array (op_index r) (blocks (trace d))"
    and "sint (num_ops (trace d)) = int (length (ops (trace d)))"
  shows "\<exists>d' l'. eval_libc_valid L (d, l) = Ret 1 (d', l') \<and> eval_libc_speed L (d, l) = Ret () (d', l') \<and> libc_frame d d'"
proof -
  obtain d' l' where r: "for_ops (libc_valid_op L) (length (ops (trace d))) (ops (trace d)) (d, l) = Ret None (d', l')"
    "libc_frame d d'"
    using libc_run_ok[OF assms(1-3)] by blast
  have "nat (sint (num_ops (trace d))) = length (ops (trace d))" using assms(4) by simp
  then have v: "eval_libc_valid L (d, l) = Ret 1 (d', l')" using r(1) by (simp add: eval_libc_valid_def)
  then have "eval_libc_speed L (d, l) = Ret () (d', l')"
    by (simp add: libc_valid_speed and_then_Ret_iff)
  then show ?thesis using v r(2) by blast
qed

text \<open>\<open>clean_up\<close> before \<open>mem_init\<close>: the option \<open>-l\<close> has no defined result.\<close>

lemma libc_trace_undefined:
  assumes "\<And>n l. fst (l_malloc L n l) \<noteq> NULL" "\<And>p n l. fst (l_realloc L p n l) \<noteq> NULL"
    and "\<forall>r\<in>set (ops (trace d)). in_array (op_index r) (blocks (trace d))"
    and "sint (num_ops (trace d)) = int (length (ops (trace d)))" "mem_start_brk (heap d) = NULL"
  shows "libc_trace pf USE_GETTOD L ((d, l), w) = Undef"
proof -
  obtain d1 l1 where 1: "eval_libc_valid L (d, l) = Ret 1 (d1, l1)" "libc_frame d d1"
    using libc_eval_ok[OF assms(1-4), of l] by blast
  obtain d2 l2 where "eval_libc_speed L (d1, l1) = Ret () (d2, l2)" "libc_frame d1 d2"
    using libc_eval_ok[OF assms(1,2), of d1 l1] 1(2) assms(3,4) by (auto simp: libc_frame_def in_array_def)
  then show ?thesis
    using 1 assms(5)
    by (simp add: libc_trace_def fsecs_def ftimer_gettod_def gettimeofday_def clean_def libc_frame_def numeral_eq_Suc Let_def)
qed

lemma main_libc_undefined:
  assumes "\<And>n l. fst (l_malloc L n l) \<noteq> NULL" "\<And>p n l. fst (l_realloc L p n l) \<noteq> NULL"
    and t: "read_trace junk jsize (\<lambda>_. True) f = Ret t s" "\<forall>r\<in>set (ops t). in_array (op_index r) (blocks t)"
    and d: "\<forall>n. libc_ok d n" "mem_start_brk (heap d) = NULL"
  shows "main pf USE_GETTOD P True L junk jsize (f # fs) p ((d, l), w) = Undef"
proof -
  let ?d = "d\<lparr>libc_calls := libc_calls d + 1\<rparr>"
  let ?d' = "?d\<lparr>trace := t, libc_calls := libc_calls ?d + 4\<rparr>"
  have "load_trace junk jsize f ?d = Ret () ?d'" using t(1) d(1) by (simp add: load_trace_def)
  moreover have "libc_trace pf USE_GETTOD L ((?d', l), w\<lparr>Mhz := 0\<rparr>) = Undef"
    by (rule libc_trace_undefined[OF assms(1,2)]) (use t d read_trace_checked(2)[OF t(1)] in simp_all)
  ultimately show ?thesis using d(1) by (simp add: main_def calloc_stats_def init_fsecs_def Let_def)
qed

section \<open>The state between two traces\<close>

text \<open>
  \<open>base_state\<close>: between two traces, when the break reset leaves a heap the package can start on.
  \<open>clean_state\<close>: after \<open>clean_up\<close>, with a good trace.
\<close>

definition base_state :: "(mstate \<Rightarrow> bool) \<Rightarrow> driver \<Rightarrow> bool" where
  "base_state st d \<longleftrightarrow> st (mem_reset_brk (heap d)) \<and> (\<forall>n. libc_ok d n)"

definition clean_state :: "(mstate \<Rightarrow> bool) \<Rightarrow> (size_t \<Rightarrow> bool) \<Rightarrow> bool \<Rightarrow> int \<Rightarrow> driver \<Rightarrow> bool" where
  "clean_state st req re k d \<longleftrightarrow> st (heap d) \<and> (\<forall>n. libc_ok d n) \<and> trace_ok req re k d"

lemma trace_ok_frame:
  assumes "trace_ok req re k d" "drv_frame d d'" "length (block_sizes (trace d')) = length (blocks (trace d'))"
  shows "trace_ok req re k d'"
  using assms by (simp add: trace_ok_def drv_frame_def)

text \<open>The state after a timed run of the trace; each is followed by \<open>clean_up\<close>.\<close>

definition timed :: "mm_pkg \<Rightarrow> driver \<Rightarrow> driver" where
  "timed P d = (case eval_mm_speed P d of Ret _ d' \<Rightarrow> d' | _ \<Rightarrow> d)"

definition rerun :: "mm_pkg \<Rightarrow> driver \<Rightarrow> driver" where
  "rerun P d = clean_up (timed P d)"

lemma timed_eq: "eval_mm_speed P d = Ret () d' \<Longrightarrow> timed P d = d'"
  by (simp add: timed_def)

context restartable_allocator
begin

lemma resizes_ok: "resizes \<longrightarrow> realloc_succeeds wf P req"
  using resize_total by (auto simp: realloc_succeeds_def)

lemma clean_ok:
  assumes "wf (heap d) L" "\<forall>n. libc_ok d n" "trace_ok req resizes k d"
  shows "clean d = Ret () (clean_up d)" "clean_state startable req resizes k (clean_up d)"
    "errors (clean_up d) = errors d" "ops (trace (clean_up d)) = ops (trace d)"
proof -
  show "clean d = Ret () (clean_up d)" using wf_mem[OF assms(1)] by (auto simp: clean_def mem_wf_def NULL_def)
  show "clean_state startable req resizes k (clean_up d)"
    using assms(2,3) cleared[OF assms(1)] by (simp add: clean_state_def clean_up_def trace_ok_def Let_def)
qed (simp_all add: clean_up_def Let_def)

lemma clean_base: "clean_state startable req resizes k d \<Longrightarrow> base_state startable d"
  using startable_empty[of "heap d"] by (simp add: clean_state_def base_state_def mem_reset_same)

lemma valid_step:
  assumes b: "base_state startable d" and t: "trace_ok req resizes ovh d"
  shows "\<exists>d' L. eval_mm_valid P d = Ret 1 d' \<and> wf (heap d') L \<and> (\<forall>n. libc_ok d' n) \<and> trace_ok req resizes ovh d'
    \<and> errors d' = errors d \<and> ops (trace d') = ops (trace d)"
proof -
  obtain s' where "pkg_init P (mem_reset_brk (heap d)) = (0, s')" "wf s' {}"
    "same_arena (mem_reset_brk (heap d)) s'" "mem_brk s' = mem_start_brk (mem_reset_brk (heap d)) + ovh"
    using restart[of "mem_reset_brk (heap d)"] b by (auto simp: base_state_def)
  then obtain d' L where d': "eval_mm_valid P d = Ret 1 d'" "drv_frame d d'" "wf (heap d') L"
    "length (block_sizes (trace d')) = length (blocks (trace d'))"
    using eval_mm_valid_from[OF t resizes_ok, of s'] b
    by (auto simp: base_state_def same_arena_def mem_reset_brk_def)
  have "trace_ok req resizes ovh d'" by (rule trace_ok_frame[OF t d'(2,4)])
  then show ?thesis using d' b by (auto simp: drv_frame_def base_state_def)
qed

lemma util_step:
  assumes c: "clean_state startable req resizes ovh d"
  shows "\<exists>u k h L. eval_mm_util P d = Ret (real_of_int k / real_of_int h) u \<and> k = peak Map.empty (ops (trace d))
    \<and> h = mem_brk (heap (drv u)) - mem_start_brk (heap (drv u)) \<and> 0 \<le> k \<and> k \<le> h \<and> 0 < h
    \<and> wf (heap (drv u)) L \<and> (\<forall>n. libc_ok (drv u) n)
    \<and> trace_ok req resizes ovh (drv u) \<and> errors (drv u) = errors d \<and> ops (trace (drv u)) = ops (trace d)
    \<and> length (blocks (trace (drv u))) = length (blocks (trace d))"
proof -
  note c' = c[unfolded clean_state_def]
  obtain s' where s': "pkg_init P (heap d) = (0, s')" "wf s' {}" "mem_brk s' = mem_start_brk s' + ovh"
    using restart[of "heap d"] c' by (auto simp: same_arena_def)
  let ?p = "peak Map.empty (ops (trace d))" and ?h = "\<lambda>u. mem_brk (heap (drv u)) - mem_start_brk (heap (drv u))"
  from eval_mm_util_ok[OF _ resizes_ok s'] c' obtain u L where
    u: "eval_mm_util P d = Ret (real_of_int ?p / real_of_int (?h u)) u" "0 \<le> ?p" "?p \<le> ?h u" "0 < ?h u"
      "drv_frame (d\<lparr>heap := s'\<rparr>) (drv u)" "wf (heap (drv u)) L"
      "length (block_sizes (trace (drv u))) = length (blocks (trace (drv u)))" by force
  have "trace_ok req resizes ovh (drv u)"
    by (rule trace_ok_frame[OF _ u(5,7)]) (use c' in \<open>simp add: trace_ok_def\<close>)
  then show ?thesis using u c' by (intro exI conjI) (assumption | rule refl | simp add: drv_frame_def)+
qed

lemma quotient_bounds: "0 \<le> k \<Longrightarrow> k \<le> h \<Longrightarrow> 0 \<le> real_of_int k / real_of_int h \<and> real_of_int k / real_of_int h \<le> 1"
  by (simp only: divide_nonneg_nonneg of_int_0_le_iff divide_le_eq_1) auto

lemma speed_step:
  assumes c: "clean_state startable req resizes ovh d"
  shows "\<exists>d'. eval_mm_speed P d = Ret () d' \<and> clean d' = Ret () (clean_up d')
    \<and> clean_state startable req resizes ovh (clean_up d') \<and> errors (clean_up d') = errors d"
proof -
  obtain u x L where u: "eval_mm_util P d = Ret x u" "wf (heap (drv u)) L"
    "length (blocks (trace (drv u))) = length (blocks (trace d))" using util_step[OF c] by blast
  let ?d = "follows d (drv u)"
  note c' = c[unfolded clean_state_def]
  have "trace_ok req resizes ovh ?d" using c' u(3) by (simp add: trace_ok_def)
  then have "clean ?d = Ret () (clean_up ?d)" "clean_state startable req resizes ovh (clean_up ?d)"
    "errors (clean_up ?d) = errors ?d"
    using clean_ok[of ?d L ovh] u(2) c' by simp_all
  then show ?thesis using eval_mm_speed_follows[OF u(1)] by auto
qed

lemma speed_runs:
  assumes c: "clean_state startable req resizes ovh d"
  shows "clean_state startable req resizes ovh ((rerun P ^^ i) d) \<and> errors ((rerun P ^^ i) d) = errors d"
proof (induction i)
  case (Suc i)
  let ?d = "(rerun P ^^ i) d"
  obtain d' where "eval_mm_speed P ?d = Ret () d'" "clean_state startable req resizes ovh (clean_up d')" "errors (clean_up d') = errors ?d"
    using speed_step[of ?d] Suc by blast
  then have "rerun P ?d = clean_up d'" by (simp add: timed_eq rerun_def)
  then show ?case using Suc \<open>clean_state startable req resizes ovh (clean_up d')\<close> \<open>errors (clean_up d') = errors ?d\<close> by simp
qed (use c in simp)

lemma fsecs_ok:
  assumes c: "clean_state startable req resizes ovh d"
  shows "\<exists>w'. fsecs pf USE_GETTOD (eval_mm_speed P) clean (d, w) =
      Ret ((\<Sum>i<10. run_secs (ftimer_pkg w) (gtod_calls (ftimer_pkg w)) i) / 10) ((rerun P ^^ 10) d, w')
    \<and> gtod (ftimer_pkg w') = gtod (ftimer_pkg w)"
proof -
  let ?S = "\<lambda>i. (rerun P ^^ i) d" and ?S' = "\<lambda>i. timed P ((rerun P ^^ i) d)"
  let ?u = "ftimer_pkg w"
  have "eval_mm_speed P (?S i) = Ret () (?S' i) \<and> clean (?S' i) = Ret () (?S (Suc i))" for i
  proof -
    obtain d' where "eval_mm_speed P (?S i) = Ret () d'" "clean d' = Ret () (clean_up d')"
      using speed_step[of "?S i"] speed_runs[OF c, of i] by blast
    then show ?thesis by (simp add: timed_eq rerun_def[of P "(rerun P ^^ i) d"])
  qed
  then have "ftimer_gettod (eval_mm_speed P) clean 10 (?S 0, ?u) =
    Ret ((\<Sum>i<nat (sint (10 :: 32 word)). run_secs ?u (gtod_calls ?u) i) / real_of_int (sint (10 :: 32 word)))
      (?S (nat (sint (10 :: 32 word))), ?u\<lparr>gtod_calls := gtod_calls ?u + 2 * nat (sint (10 :: 32 word))\<rparr>)"
    by (intro ftimer_gettod_mean[where S = ?S and S' = ?S']) simp_all
  then show ?thesis by (auto simp: fsecs_def simp del: funpow.simps)
qed

lemma mm_trace_ok:
  assumes b: "base_state startable d" and t: "trace_ok req resizes ovh d"
    and cl: "\<forall>k. tv_secs (gtod (ftimer_pkg w) k) < tv_secs (gtod (ftimer_pkg w) (Suc k))"
  shows "\<exists>st d' w'. mm_trace pf USE_GETTOD P (d, w) = Ret st (d', w') \<and> base_state startable d' \<and> errors d' = errors d
    \<and> gtod (ftimer_pkg w') = gtod (ftimer_pkg w) \<and> st_valid st = 1 \<and> 0 < st_secs st \<and> 0 \<le> st_ops st
    \<and> 0 \<le> st_util st \<and> st_util st \<le> 1"
proof -
  obtain d1 L where d1: "eval_mm_valid P d = Ret 1 d1" "wf (heap d1) L" "\<forall>n. libc_ok d1 n"
    "trace_ok req resizes ovh d1" "errors d1 = errors d"
    using valid_step[OF b t] by blast
  note c1 = clean_ok[OF d1(2-4)]
  obtain u k h L' where "eval_mm_util P (clean_up d1) = Ret (real_of_int k / real_of_int h) u" "0 \<le> k" "k \<le> h"
    and v: "wf (heap (drv u)) L'" "\<forall>n. libc_ok (drv u) n" "trace_ok req resizes ovh (drv u)"
      "errors (drv u) = errors (clean_up d1)"
    using util_step[OF c1(2)] by blast
  then obtain x where u: "eval_mm_util P (clean_up d1) = Ret x u" "0 \<le> x" "x \<le> 1" using quotient_bounds by blast
  note c2 = clean_ok[OF v(1-3)]
  have e2: "errors (clean_up (drv u)) = errors d" using c2(3) v(4) c1(3) d1(5) by simp
  obtain w' where f: "fsecs pf USE_GETTOD (eval_mm_speed P) clean (clean_up (drv u), w) =
      Ret ((\<Sum>i<10. run_secs (ftimer_pkg w) (gtod_calls (ftimer_pkg w)) i) / 10)
        ((rerun P ^^ 10) (clean_up (drv u)), w')"
    "gtod (ftimer_pkg w') = gtod (ftimer_pkg w)"
    using fsecs_ok[OF c2(2)] by blast
  have s: "base_state startable ((rerun P ^^ 10) (clean_up (drv u)))"
    "errors ((rerun P ^^ 10) (clean_up (drv u))) = errors d"
    using speed_runs[OF c2(2), of 10] e2 clean_base by auto
  have "0 < (\<Sum>i<10. run_secs (ftimer_pkg w) (gtod_calls (ftimer_pkg w)) i) / 10"
    using cl by (intro divide_pos_pos sum_pos) (auto simp: run_secs_def lessThan_empty_iff)
  moreover have "0 \<le> sint (num_ops (trace d))" using t by (simp add: trace_ok_def)
  moreover have "mm_trace pf USE_GETTOD P (d, w) = Ret \<lparr>st_ops = real_of_int (sint (num_ops (trace d))), st_valid = 1,
      st_secs = (\<Sum>i<10. run_secs (ftimer_pkg w) (gtod_calls (ftimer_pkg w)) i) / 10, st_util = x\<rparr>
      ((rerun P ^^ 10) (clean_up (drv u)), w')"
    using d1(1) c1(1) u(1) c2(1) f(1) by (simp add: mm_trace_def Let_def)
  ultimately show ?thesis
    using s f(2) u(2,3) by (intro exI conjI) (assumption, simp_all del: of_int_sint)
qed

end

section \<open>All traces\<close>

text \<open>A trace file that reads as a well-formed trace.\<close>

definition file_ok :: "(size_t \<Rightarrow> bool) \<Rightarrow> bool \<Rightarrow> int \<Rightarrow> trace_t \<Rightarrow> c_int \<Rightarrow> string option \<Rightarrow> bool" where
  "file_ok req re k junk jsize f \<longleftrightarrow> (\<exists>t s. read_trace junk jsize (\<lambda>_. True) f = Ret t s
     \<and> (\<forall>d. trace_ok req re k (d\<lparr>trace := t\<rparr>)))"

definition good_stats :: "stats_t \<Rightarrow> bool" where
  "good_stats st \<longleftrightarrow> st_valid st = 1 \<and> 0 < st_secs st \<and> 0 \<le> st_ops st \<and> 0 \<le> st_util st \<and> st_util st \<le> 1"

lemma add_stats_good:
  assumes "list_all good_stats sts"
  shows "let t' = foldl add_stats t sts
    in t_secs t \<le> t_secs t' \<and> (sts \<noteq> [] \<longrightarrow> t_secs t < t_secs t') \<and> t_ops t \<le> t_ops t'
      \<and> t_util t \<le> t_util t' \<and> t_util t' \<le> t_util t + real (length sts) \<and> numcorrect t' = numcorrect t + int (length sts)"
  using assms
proof (induction sts arbitrary: t)
  case (Cons st sts)
  then have g: "good_stats st" by simp
  show ?case
    using Cons.IH[of "add_stats t st"] Cons.prems g
    by (simp add: add_stats_def good_stats_def Let_def)
qed simp

lemma index_bounds:
  assumes "0 \<le> (u :: real)" "u \<le> 1" "0 \<le> th"
  shows "0 \<le> (UTIL_WEIGHT * u + (if th > AVG_LIBC_THRUPUT then 1 - UTIL_WEIGHT
      else (1 - UTIL_WEIGHT) * (th / AVG_LIBC_THRUPUT))) * 100"
    "(UTIL_WEIGHT * u + (if th > AVG_LIBC_THRUPUT then 1 - UTIL_WEIGHT
      else (1 - UTIL_WEIGHT) * (th / AVG_LIBC_THRUPUT))) * 100 \<le> 100"
  using assms by (auto simp: UTIL_WEIGHT_def AVG_LIBC_THRUPUT_def)

lemma perfindex_bounds:
  assumes "0 < n" "0 < t_secs t" "0 \<le> t_ops t" "0 \<le> t_util t" "t_util t \<le> real n"
  shows "\<exists>x. perfindex 0 n t = Some x \<and> 0 \<le> x \<and> x \<le> 100"
proof -
  let ?u = "t_util t / real n" and ?th = "t_ops t / t_secs t"
  have u: "0 \<le> ?u" "?u \<le> 1" using assms by simp_all
  have th: "0 \<le> ?th" using assms by simp
  show ?thesis using assms(1,2) index_bounds[OF u th] by (simp add: perfindex_def Let_def)
qed

context restartable_allocator
begin

lemma mm_traces_ok:
  assumes "base_state startable d" "\<forall>f\<in>set files. file_ok req resizes ovh junk jsize f"
    and "\<forall>k. tv_secs (gtod (ftimer_pkg w) k) < tv_secs (gtod (ftimer_pkg w) (Suc k))"
  shows "\<exists>sts d' w'. mm_traces pf USE_GETTOD P junk jsize files (d, w) = Ret sts (d', w') \<and> list_all good_stats sts
    \<and> length sts = length files \<and> errors d' = errors d"
  using assms
proof (induction files arbitrary: d w)
  case (Cons f files)
  obtain t s where t: "read_trace junk jsize (\<lambda>_. True) f = Ret t s" "\<forall>d. trace_ok req resizes ovh (d\<lparr>trace := t\<rparr>)"
    using Cons.prems(2) by (auto simp: file_ok_def)
  let ?d = "d\<lparr>trace := t, libc_calls := libc_calls d + 4\<rparr>"
  have ld: "load_trace junk jsize f d = Ret () ?d"
    using t(1) Cons.prems(1) by (simp add: load_trace_def base_state_def)
  have "trace_ok req resizes ovh ?d" using t(2)[rule_format, of d] by (simp add: trace_ok_def)
  moreover have "base_state startable ?d" using Cons.prems(1) by (simp add: base_state_def)
  ultimately obtain st d1 w1 where st: "mm_trace pf USE_GETTOD P (?d, w) = Ret st (d1, w1)" "base_state startable d1"
    "errors d1 = errors d" "gtod (ftimer_pkg w1) = gtod (ftimer_pkg w)" "good_stats st"
    using mm_trace_ok[OF _ _ Cons.prems(3)] by (fastforce simp: good_stats_def)
  obtain sts d' w' where "mm_traces pf USE_GETTOD P junk jsize files (d1, w1) = Ret sts (d', w')" "list_all good_stats sts"
    "length sts = length files" "errors d' = errors d1"
    using Cons.IH[OF st(2), of w1] Cons.prems(2,3) st(4) by auto
  then show ?case using ld st(1,3,5) by simp
qed simp

lemma main_mm_ok:
  assumes d: "\<forall>n. libc_ok d n" "errors d = 0" and p: "mem_init p (heap d) = Some s" "startable s"
    and f: "files \<noteq> []" "\<forall>f\<in>set files. file_ok req resizes ovh junk jsize f"
    and w: "\<forall>k. tv_secs (gtod (ftimer_pkg w) k) < tv_secs (gtod (ftimer_pkg w) (Suc k))"
  shows "\<exists>x d' w'. main_mm pf USE_GETTOD P junk jsize files p (d, w) = Ret (x, int (length files)) (d', w')
    \<and> 0 \<le> x \<and> x \<le> 100 \<and> errors d' = 0"
proof -
  let ?d = "d\<lparr>libc_calls := libc_calls d + 1, heap := s\<rparr>"
  have "base_state startable ?d" using d p startable_empty[OF p(2)] by (simp add: base_state_def mem_reset_same)
  from mm_traces_ok[where pf = pf, OF this f(2) w] obtain sts d' w' where
    m: "mm_traces pf USE_GETTOD P junk jsize files (?d, w) = Ret sts (d', w')" "list_all good_stats sts"
      "length sts = length files" "errors d' = 0"
    using d(2) by auto
  let ?t = "foldl add_stats \<lparr>t_secs = 0, t_ops = 0, t_util = 0, numcorrect = 0\<rparr> sts"
  have "sts \<noteq> []" using m(3) f(1) by auto
  with add_stats_good[OF m(2), of "\<lparr>t_secs = 0, t_ops = 0, t_util = 0, numcorrect = 0\<rparr>"]
  have t: "0 < t_secs ?t" "0 \<le> t_ops ?t" "0 \<le> t_util ?t" "t_util ?t \<le> real (length files)"
    "numcorrect ?t = int (length files)"
    using m(3) by (simp_all add: Let_def)
  obtain x where "perfindex 0 (length files) ?t = Some x" "0 \<le> x" "x \<le> 100"
    using perfindex_bounds[OF _ t(1-4)] f(1) by auto
  then have "main_mm pf USE_GETTOD P junk jsize files p (d, w) = Ret (x, int (length files)) (d', w')"
    using p(1) m(1,4) d(1) t(5) by (simp add: main_mm_def calloc_stats_def Let_def)
  then show ?thesis using m(4) \<open>0 \<le> x\<close> \<open>x \<le> 100\<close> by blast
qed

end

text \<open>Without options \<open>main\<close> runs the default traces.\<close>

lemma mdriver_default:
  "mdriver pf tm P L junk jsize fs ok [] p w =
     main pf tm P False L junk jsize (map (\<lambda>f. fs (TRACEDIR @ f)) DEFAULT_TRACEFILES) p w"
  by (simp add: mdriver_def start_options_def check_team_ok trace_names_def comp_def)

end
