(* ===== verification/Driver_Sound.thy ===== *)
theory Driver_Sound
  imports Driver_Ranges
begin

text \<open>
  What a verdict of \<open>eval_mm_valid\<close> means, for any package: it returns 1 without counting an error,
  or 0 with exactly one, and at every moment the recorded payloads are aligned and two of them
  overlap only if the newer one strictly encloses the older one.
\<close>

definition range_apart :: "range_t \<Rightarrow> range_t \<Rightarrow> bool" where
  "range_apart a b \<longleftrightarrow> hi a < lo b \<or> hi b < lo a \<or> (lo a < lo b \<and> hi b < hi a)"

definition ranges_ok :: "range_t list \<Rightarrow> bool" where
  "ranges_ok rs \<longleftrightarrow> sorted_wrt range_apart rs \<and> (\<forall>r\<in>set rs. 8 dvd lo r \<and> lo r \<le> hi r + 1)"

text \<open>The two ways a check can end.\<close>

definition verdict :: "driver \<Rightarrow> c_int \<Rightarrow> driver \<Rightarrow> bool" where
  "verdict d v d' \<longleftrightarrow> (v = 1 \<and> errors d' = errors d \<or> v = 0 \<and> errors d' = errors d + 1)"

lemma ranges_ok_remove: "ranges_ok rs \<Longrightarrow> ranges_ok (remove_range_list l rs)"
proof (induction l rs rule: remove_range_list.induct)
  case (2 l p ps)
  have "set (remove_range_list l ps) \<subseteq> set ps" by (induction ps) auto
  then show ?case using 2 by (auto simp: ranges_ok_def)
qed (simp add: ranges_ok_def)

lemma no_end_inside:
  "\<not> ((l \<ge> lo p \<and> l \<le> hi p) \<or> (h \<ge> lo p \<and> h \<le> hi p)) \<Longrightarrow> range_apart \<lparr>lo = l, hi = h\<rparr> p"
  by (auto simp: range_apart_def)

lemma add_range_sound:
  assumes "add_range l sz d = Ret v d'" "ranges_ok (ranges d)"
  shows "ranges_ok (ranges d') \<and> verdict d v d'"
proof (cases "v = 1")
  case True
  have e: "8 dvd l" "\<not> sint sz < 0" "d' = d\<lparr>libc_calls := libc_calls d + 1, ranges := \<lparr>lo = l, hi = l + sint sz - 1\<rparr> # ranges d\<rparr>"
    "\<not> (\<exists>p\<in>set (ranges d). (l \<ge> lo p \<and> l \<le> hi p) \<or> (l + sint sz - 1 \<ge> lo p \<and> l + sint sz - 1 \<le> hi p))"
    using assms(1) True by (simp_all add: add_range_def Let_def unix_error_def IS_ALIGNED_iff split: if_splits)
  then have "\<forall>p\<in>set (ranges d). range_apart \<lparr>lo = l, hi = l + sint sz - 1\<rparr> p" using no_end_inside by blast
  then show ?thesis using e(1-3) assms(2) True by (simp add: ranges_ok_def verdict_def)
next
  case False
  then show ?thesis
    using assms by (auto simp: add_range_def verdict_def malloc_error_def unix_error_def Let_def split: if_splits)
qed

text \<open>One request: it goes on without an error, or ends the check with a verdict.\<close>

lemma valid_op_sound:
  assumes "valid_op P r d = Ret w d'" "ranges_ok (ranges d)"
  shows "ranges_ok (ranges d') \<and> (case w of None \<Rightarrow> errors d' = errors d | Some v \<Rightarrow> v = 0 \<and> verdict d v d')"
proof -
  note frame = verdict_def malloc_error_def remove_range_def fill_heap_def set_block_def set_block_size_def
  show ?thesis
  proof (cases "op_type r")
    case ALLOC
    then show ?thesis using assms
      by (auto simp: valid_op_def valid_alloc_def and_then_Ret_iff Let_def frame split: option.splits if_splits prod.splits
          dest!: add_range_sound)
  next
    case FREE
    then show ?thesis using assms
      by (auto simp: valid_op_def valid_free_def Let_def frame ranges_ok_remove split: if_splits)
  next
    case REALLOC
    then show ?thesis using assms
      by (auto simp: valid_op_def valid_realloc_def and_then_Ret_iff Let_def frame ranges_ok_remove
          split: option.splits if_splits prod.splits dest!: add_range_sound)
  qed
qed

lemma valid_ops_sound:
  assumes "for_ops (valid_op P) n os d = Ret w d'" "ranges_ok (ranges d)"
  shows "ranges_ok (ranges d') \<and> (case w of None \<Rightarrow> errors d' = errors d | Some v \<Rightarrow> v = 0 \<and> verdict d v d')"
  using assms
proof (induction "valid_op P" n os d rule: for_ops.induct)
  case (3 n r os d)
  obtain x d1 where x: "valid_op P r d = Ret x d1" "(if x = None then for_ops (valid_op P) n os d1 else Ret x d1) = Ret w d'"
    using 3(2) by (auto simp: and_then_Ret_iff)
  note s = valid_op_sound[OF x(1) 3(3)]
  show ?case
  proof (cases x)
    case None
    then show ?thesis using 3(1)[OF x(1) None] x(2) s by (auto simp: verdict_def split: option.splits)
  qed (use x(2) s in auto)
qed simp_all

lemma eval_mm_valid_sound:
  assumes "eval_mm_valid P d = Ret v d'"
  shows "verdict d v d' \<and> ranges_ok (ranges d')"
proof -
  let ?d = "clear_ranges (d\<lparr>heap := mem_reset_brk (heap d)\<rparr>)"
  obtain r s where i: "pkg_init P (heap ?d) = (r, s)" by force
  have c: "ranges ?d = []" "errors ?d = errors d" by (simp_all add: clear_ranges_def)
  show ?thesis
  proof (cases "sint r < 0")
    case True
    then show ?thesis using assms i c by (auto simp: eval_mm_valid_def verdict_def malloc_error_def ranges_ok_def Let_def)
  next
    case False
    then obtain w where w: "for_ops (valid_op P) (nat (sint (num_ops (trace d)))) (ops (trace d)) (?d\<lparr>heap := s\<rparr>) = Ret w d'"
      "v = (case w of Some r \<Rightarrow> r | None \<Rightarrow> 1)"
      using assms i by (auto simp: eval_mm_valid_def Let_def and_then_Ret_iff clear_ranges_def)
    have "ranges_ok (ranges (?d\<lparr>heap := s\<rparr>))" using c by (simp add: ranges_ok_def)
    from valid_ops_sound[OF w(1) this] show ?thesis using w(2) c by (cases w) (auto simp: verdict_def)
  qed
qed

end
