(* ===== verification/Store.thy ===== *)
theory Store
  imports Implicit_Api Segregate_Api
begin

text \<open>
  What a malloc package is for: an abstract store of buffers, each a list of bytes that are
  either known or not yet written, and the sessions of a client that allocates, frees, resizes,
  writes and reads. Every session with a package that keeps the contract of theory \<open>Allocator\<close> is
  one the store allows: new buffers are aligned and disjoint from the others, and every byte that
  is read is the one that was last written, through all calls in between.
\<close>

section \<open>The store\<close>

type_synonym store = "addr \<rightharpoonup> byte option list"

datatype event = Malloc size_t addr | Free addr | Realloc addr size_t addr | Write addr int byte | Read addr int byte

definition in_buffer :: "store \<Rightarrow> addr \<Rightarrow> int \<Rightarrow> bool" where
  "in_buffer B p i \<longleftrightarrow> (case B p of None \<Rightarrow> False | Some b \<Rightarrow> 0 \<le> i \<and> i < int (length b))"

text \<open>What the client owes: it names buffers it holds, and stays inside them.\<close>

fun client_may :: "(size_t \<Rightarrow> bool) \<Rightarrow> store \<Rightarrow> event \<Rightarrow> bool" where
  "client_may req B (Malloc n p) \<longleftrightarrow> req n"
| "client_may req B (Free p) \<longleftrightarrow> p \<in> dom B"
| "client_may req B (Realloc p n q) \<longleftrightarrow> p \<in> dom B \<and> req n"
| "client_may req B (Write p i v) \<longleftrightarrow> in_buffer B p i"
| "client_may req B (Read p i v) \<longleftrightarrow> in_buffer B p i"

text \<open>What the package owes.\<close>

definition placeable :: "store \<Rightarrow> addr \<Rightarrow> size_t \<Rightarrow> bool" where
  "placeable B p n \<longleftrightarrow> 8 dvd p \<and> p \<noteq> NULL \<and> p \<notin> dom B
     \<and> (\<forall>q b. B q = Some b \<longrightarrow> p + uint n \<le> q \<or> q + int (length b) \<le> p)"

fun promised :: "store \<Rightarrow> event \<Rightarrow> bool" where
  "promised B (Malloc n p) \<longleftrightarrow> placeable B p n"
| "promised B (Realloc p n q) \<longleftrightarrow> placeable (B(p := None)) q n"
| "promised B (Read p i v) \<longleftrightarrow> (case B p of None \<Rightarrow> False | Some b \<Rightarrow> b ! nat i = None \<or> b ! nat i = Some v)"
| "promised B (Free p) \<longleftrightarrow> True"
| "promised B (Write p i v) \<longleftrightarrow> True"

text \<open>Resizing keeps the common prefix. Reading an unknown byte makes it known.\<close>

definition resize :: "nat \<Rightarrow> byte option list \<Rightarrow> byte option list" where
  "resize n b = take n b @ replicate (n - length b) None"

fun store_after :: "store \<Rightarrow> event \<Rightarrow> store" where
  "store_after B (Malloc n p) = B(p \<mapsto> replicate (unat n) None)"
| "store_after B (Free p) = B(p := None)"
| "store_after B (Realloc p n q) = (case B p of None \<Rightarrow> B | Some b \<Rightarrow> (B(p := None))(q \<mapsto> resize (unat n) b))"
| "store_after B (Write p i v) = (case B p of None \<Rightarrow> B | Some b \<Rightarrow> B(p \<mapsto> b[nat i := Some v]))"
| "store_after B (Read p i v) = (case B p of None \<Rightarrow> B | Some b \<Rightarrow> B(p \<mapsto> b[nat i := Some v]))"

definition store_of :: "event list \<Rightarrow> store" where
  "store_of es = foldl store_after Map.empty es"

fun store_allows :: "store \<Rightarrow> event list \<Rightarrow> bool" where
  "store_allows B [] \<longleftrightarrow> True"
| "store_allows B (e # es) \<longleftrightarrow> promised B e \<and> store_allows (store_after B e) es"

lemma store_of_snoc [simp]: "store_of [] = Map.empty" "store_of (es @ [e]) = store_after (store_of es) e"
  by (simp_all add: store_of_def)

lemma store_allows_append:
  "store_allows B (es @ fs) \<longleftrightarrow> store_allows B es \<and> store_allows (foldl store_after B es) fs"
  by (induction es arbitrary: B) auto

section \<open>Sessions with a package\<close>

text \<open>Calls that return a buffer; realloc only with room for a new block, as in \<open>client_step\<close>.\<close>

inductive mm_event :: "mm_pkg \<Rightarrow> mstate \<Rightarrow> event \<Rightarrow> mstate \<Rightarrow> bool" for P where
  ev_malloc: "pkg_malloc P n s = Some (p, s') \<Longrightarrow> p \<noteq> NULL \<Longrightarrow> mm_event P s (Malloc n p) s'"
| ev_free: "mm_event P s (Free p) (pkg_free P p s)"
| ev_realloc: "room (cost n) s \<Longrightarrow> pkg_realloc P p n s = Some (q, s') \<Longrightarrow> q \<noteq> NULL \<Longrightarrow> mm_event P s (Realloc p n q) s'"
| ev_write: "mm_event P s (Write p i v) (s\<lparr>mem := (mem s)(p + i := v)\<rparr>)"
| ev_read: "mem s (p + i) = v \<Longrightarrow> mm_event P s (Read p i v) s"

inductive_cases mm_eventE:
  "mm_event P s (Malloc n p) s'" "mm_event P s (Free p) s'" "mm_event P s (Realloc p n q) s'"
  "mm_event P s (Write p i v) s'" "mm_event P s (Read p i v) s'"

inductive session :: "mm_pkg \<Rightarrow> (size_t \<Rightarrow> bool) \<Rightarrow> mstate \<Rightarrow> event list \<Rightarrow> mstate \<Rightarrow> bool" for P req s0 where
  session_init: "pkg_init P s0 = (0, s) \<Longrightarrow> session P req s0 [] s"
| session_step: "session P req s0 es s \<Longrightarrow> client_may req (store_of es) e \<Longrightarrow> mm_event P s e s' \<Longrightarrow>
    session P req s0 (es @ [e]) s'"

text \<open>Where a session can begin: initialisation succeeds and leaves an empty heap.\<close>

definition boots :: "(mstate \<Rightarrow> (addr \<times> int) set \<Rightarrow> bool) \<Rightarrow> mm_pkg \<Rightarrow> int \<Rightarrow> mstate \<Rightarrow> bool" where
  "boots W P k s0 \<longleftrightarrow> (\<exists>s. pkg_init P s0 = (0, s) \<and> W s {} \<and> same_arena s0 s \<and> mem_brk s = mem_start_brk s0 + k)"

section \<open>The simulation\<close>

definition held :: "store \<Rightarrow> (addr \<times> int) set" where
  "held B = {(p, int (length b)) | p b. B p = Some b}"

definition stored :: "memory \<Rightarrow> store \<Rightarrow> bool" where
  "stored m B \<longleftrightarrow> (\<forall>p b i v. B p = Some b \<longrightarrow> i < length b \<longrightarrow> b ! i = Some v \<longrightarrow> m (p + int i) = v)"

lemma storedD: "stored m B \<Longrightarrow> B p = Some b \<Longrightarrow> i < length b \<Longrightarrow> b ! i = Some v \<Longrightarrow> m (p + int i) = v"
  by (simp add: stored_def)

lemma held_iff: "(p, k) \<in> held B \<longleftrightarrow> (\<exists>b. B p = Some b \<and> k = int (length b))"
  by (auto simp: held_def)

lemma held_empty [simp]: "held Map.empty = {}"
  by (simp add: held_def)

lemma held_upd: "p \<notin> dom B \<Longrightarrow> held (B(p \<mapsto> b)) = insert (p, int (length b)) (held B)"
  by (auto simp: held_def)

lemma held_del:
  assumes "B p = Some b"
  shows "held (B(p := None)) = held B - {(p, int (length b))}"
proof (rule set_eqI)
  show "x \<in> held (B(p := None)) \<longleftrightarrow> x \<in> held B - {(p, int (length b))}" for x
    using assms by (cases x) (auto simp: held_iff)
qed

lemma held_same: "B p = Some b \<Longrightarrow> length b' = length b \<Longrightarrow> held (B(p \<mapsto> b')) = held B"
  by (auto simp: held_def)

lemma stored_del: "stored m B \<Longrightarrow> stored m (B(p := None))"
  by (auto simp: stored_def)

lemma stored_upd:
  "stored m B \<Longrightarrow> (\<And>i v. i < length b \<Longrightarrow> b ! i = Some v \<Longrightarrow> m (p + int i) = v) \<Longrightarrow> stored m (B(p \<mapsto> b))"
  by (auto simp: stored_def)

lemma stored_keeps:
  assumes "stored m B" "holds (held B) L" "keeps m m' L"
  shows "stored m' B"
  unfolding stored_def
proof (intro allI impI)
  fix p b i v assume b: "B p = Some b" "i < length b" "b ! i = Some v"
  obtain c where "(p, c) \<in> L" "int (length b) \<le> c" using holdsD[OF assms(2)] b(1) held_iff by blast
  then have "m' (p + int i) = m (p + int i)" using assms(3) b(2) by (fastforce simp: keeps_def same_on_def)
  then show "m' (p + int i) = v" using storedD[where B = B, OF assms(1) b] by simp
qed

lemma length_resize [simp]: "length (resize n b) = n"
  by (simp add: resize_def)

lemma nth_resize: "i < n \<Longrightarrow> resize n b ! i = Some v \<Longrightarrow> i < length b \<and> b ! i = Some v"
  by (auto simp: resize_def nth_append min_def split: if_splits)

context allocator
begin

definition sim :: "mstate \<Rightarrow> store \<Rightarrow> bool" where
  "sim s B \<longleftrightarrow> (\<exists>L. wf s L \<and> holds (held B) L) \<and> stored (mem s) B"

lemma new_placeable:
  assumes w: "wf s' (insert (p, c) L)" and h: "holds (held B) L" and n: "uint n \<le> c" "\<forall>d. (p, d) \<notin> L" "p \<noteq> NULL"
  shows "placeable B p n"
proof -
  have "p \<notin> dom B" using holdsD[OF h] n(2) held_iff by blast
  moreover have "p + uint n \<le> q \<or> q + int (length b) \<le> p" if b: "B q = Some b" for q b
  proof -
    obtain d where d: "(q, d) \<in> L" "int (length b) \<le> d" using holdsD[OF h] b held_iff by blast
    then show ?thesis using wf_disjoint[OF w, of p c q d] n(1,2) by auto
  qed
  moreover have "8 dvd p" using wf_bounds[OF w] by blast
  ultimately show ?thesis using n(3) by (simp add: placeable_def)
qed

lemma sim_malloc:
  assumes "sim s B" "req n" "pkg_malloc P n s = Some (p, s')" "p \<noteq> NULL"
  shows "placeable B p n \<and> sim s' (B(p \<mapsto> replicate (unat n) None)) \<and> same_arena s s'"
proof -
  obtain L where L: "wf s L" "holds (held B) L" "stored (mem s) B" using assms(1) by (auto simp: sim_def)
  obtain c where c: "uint n \<le> c" "\<forall>d. (p, d) \<notin> L" "wf s' (insert (p, c) L)" "keeps (mem s) (mem s') L" "same_arena s s'"
    using malloc_ok[OF L(1) assms(2)] assms(3,4) by auto
  have pl: "placeable B p n" by (rule new_placeable[OF c(3) L(2) c(1,2) assms(4)])
  then have "held (B(p \<mapsto> replicate (unat n) None)) = insert (p, uint n) (held B)"
    by (subst held_upd) (simp_all add: placeable_def)
  then have "holds (held (B(p \<mapsto> replicate (unat n) None))) (insert (p, c) L)" using holds_insert[OF L(2) c(1,2)] by simp
  moreover have "stored (mem s') (B(p \<mapsto> replicate (unat n) None))"
    by (rule stored_upd[OF stored_keeps[OF L(3,2) c(4)]]) simp
  ultimately show ?thesis using pl c(3,5) by (auto simp: sim_def)
qed

lemma sim_free:
  assumes "sim s B" "B p = Some b"
  shows "sim (pkg_free P p s) (B(p := None)) \<and> same_arena s (pkg_free P p s)"
proof -
  obtain L where L: "wf s L" "holds (held B) L" "stored (mem s) B" using assms(1) by (auto simp: sim_def)
  have h: "(p, int (length b)) \<in> held B" using assms(2) by (simp add: held_iff)
  then obtain c where c: "(p, c) \<in> L" using holdsD[OF L(2)] by blast
  have "holds (held (B(p := None))) (L - {(p, c)})"
    unfolding held_del[of B p b, OF assms(2)] by (rule holds_remove[OF L(2) h]) (rule wf_unique[OF L(1) _ c])
  then show ?thesis
    using free_ok[OF L(1) c] stored_keeps[OF stored_del[OF L(3)]] by (auto simp: sim_def)
qed

lemma sim_realloc:
  assumes "sim s B" "B p = Some b" "req n" "room (cost n) s" "pkg_realloc P p n s = Some (q, s')" "q \<noteq> NULL"
  shows "placeable (B(p := None)) q n \<and> sim s' ((B(p := None))(q \<mapsto> resize (unat n) b)) \<and> same_arena s s'"
proof -
  let ?B = "B(p := None)"
  obtain L where L: "wf s L" "holds (held B) L" "stored (mem s) B" using assms(1) by (auto simp: sim_def)
  have h: "(p, int (length b)) \<in> held B" using assms(2) by (simp add: held_iff)
  then obtain c where c: "(p, c) \<in> L" "int (length b) \<le> c" using holdsD[OF L(2)] by blast
  obtain c' where c': "uint n \<le> c'" "\<forall>d. (q, d) \<notin> L - {(p, c)}" "wf s' (insert (q, c') (L - {(p, c)}))"
    "keeps (mem s) (mem s') (L - {(p, c)})" "moved (mem s) (mem s') p q (min c (uint n))" "same_arena s s'"
    using realloc_ok[OF L(1) c(1) assms(3-6)] by blast
  have hB: "holds (held ?B) (L - {(p, c)})"
    unfolding held_del[of B p b, OF assms(2)] by (rule holds_remove[OF L(2) h]) (rule wf_unique[OF L(1) _ c(1)])
  have pl: "placeable ?B q n" by (rule new_placeable[OF c'(3) hB c'(1,2) assms(6)])
  then have "held (?B(q \<mapsto> resize (unat n) b)) = insert (q, uint n) (held ?B)"
    by (subst held_upd) (simp_all add: placeable_def)
  then have "holds (held (?B(q \<mapsto> resize (unat n) b))) (insert (q, c') (L - {(p, c)}))"
    using holds_insert[OF hB c'(1,2)] by simp
  moreover have "mem s' (q + int i) = v" if i: "i < unat n" "resize (unat n) b ! i = Some v" for i v
  proof -
    note r = nth_resize[OF i]
    have "int i < uint n" using i(1) by (simp only: uint_nat of_nat_less_iff)
    then have "mem s' (q + int i) = mem s (p + int i)" using c'(5) r c(2) by (simp add: moved_def)
    then show ?thesis using storedD[where B = B, OF L(3) assms(2)] r by simp
  qed
  then have "stored (mem s') (?B(q \<mapsto> resize (unat n) b))"
    by (intro stored_upd[OF stored_keeps[OF stored_del[OF L(3)] hB c'(4)]]) simp_all
  ultimately show ?thesis using pl c'(3,6) unfolding sim_def by blast
qed

lemma sim_write:
  assumes "sim s B" "B p = Some b" "0 \<le> i" "i < int (length b)"
  shows "sim (s\<lparr>mem := (mem s)(p + i := v)\<rparr>) (B(p \<mapsto> b[nat i := Some v]))"
proof -
  let ?m = "(mem s)(p + i := v)" and ?B = "B(p \<mapsto> b[nat i := Some v])"
  obtain L where L: "wf s L" "holds (held B) L" "stored (mem s) B" using assms(1) by (auto simp: sim_def)
  have "(p, int (length b)) \<in> held B" using assms(2) by (simp add: held_iff)
  then obtain c where c: "(p, c) \<in> L" "int (length b) \<le> c" using holdsD[OF L(2)] by blast
  have w: "wf (s\<lparr>mem := ?m\<rparr>) L"
    by (rule wf_write[OF L(1) c(1)]) (use assms c in \<open>auto simp: same_on_def\<close>)
  have "stored ?m (B(p := None))"
    unfolding stored_def
  proof (intro allI impI)
    fix q d j u assume q: "(B(p := None)) q = Some d" "j < length d" "d ! j = Some u"
    then have "(q, int (length d)) \<in> held B" "q \<noteq> p" by (auto simp: held_iff split: if_splits)
    then obtain e where e: "(q, e) \<in> L" "int (length d) \<le> e" using holdsD[OF L(2)] by blast
    have "q + int j \<noteq> p + i"
      using wf_other[OF L(1) c(1) e(1)] \<open>q \<noteq> p\<close> assms(3,4) c(2) e(2) q(2) by (auto simp: disjoint_iff)
    then show "?m (q + int j) = u" using storedD[where B = "B(p := None)", OF stored_del[OF L(3)] q] by simp
  qed
  then have "stored ?m ((B(p := None))(p \<mapsto> b[nat i := Some v]))"
    by (rule stored_upd) (use assms storedD[where B = B, OF L(3) assms(2)] in \<open>auto simp: nth_list_update split: if_splits\<close>)
  moreover have "held ?B = held B" by (rule held_same[where B = B and p = p, OF assms(2)]) simp
  ultimately show ?thesis using w L(2) by (auto simp: sim_def)
qed

lemma sim_read:
  assumes "sim s B" "B p = Some b" "0 \<le> i" "i < int (length b)"
  shows "(b ! nat i = None \<or> b ! nat i = Some (mem s (p + i))) \<and> sim s (B(p \<mapsto> b[nat i := Some (mem s (p + i))]))"
proof
  have st: "stored (mem s) B" using assms(1) by (simp add: sim_def)
  show "b ! nat i = None \<or> b ! nat i = Some (mem s (p + i))"
  proof (cases "b ! nat i")
    case (Some v)
    then have "mem s (p + int (nat i)) = v" by (intro storedD[where B = B, OF st assms(2)]) (use assms(3,4) in simp_all)
    then show ?thesis using Some assms(3) by simp
  qed simp
  show "sim s (B(p \<mapsto> b[nat i := Some (mem s (p + i))]))" using sim_write[where B = B, OF assms, of "mem s (p + i)"] by simp
qed

lemma sim_step:
  assumes "sim s B" "client_may req B e" "mm_event P s e s'"
  shows "promised B e \<and> sim s' (store_after B e) \<and> same_arena s s'"
proof (cases e)
  case (Malloc n p)
  then show ?thesis using assms sim_malloc by (auto elim: mm_eventE)
next
  case (Free p)
  then show ?thesis using assms sim_free by (auto elim!: mm_eventE)
next
  case (Realloc p n q)
  then show ?thesis using assms sim_realloc by (auto elim!: mm_eventE)
next
  case (Write p i v)
  then show ?thesis using assms sim_write
    by (auto elim!: mm_eventE simp: in_buffer_def same_arena_def split: option.splits)
next
  case (Read p i v)
  then obtain b where b: "B p = Some b" "0 \<le> i" "i < int (length b)"
    using assms(2) by (auto simp: in_buffer_def split: option.splits)
  moreover have "s' = s" "v = mem s (p + i)" using assms(3) Read by (auto elim: mm_eventE)
  ultimately show ?thesis using sim_read[where B = B, OF assms(1) b] Read by simp
qed

lemma session_sim:
  assumes "session P req s0 es s" "boots wf P ovh s0"
  shows "store_allows Map.empty es \<and> sim s (store_of es) \<and> same_arena s0 s"
  using assms
proof (induction rule: session.induct)
  case (session_init s)
  then obtain s' where "pkg_init P s0 = (0, s')" "wf s' {}" "same_arena s0 s'" by (auto simp: boots_def)
  then show ?case using session_init by (auto simp: sim_def stored_def holds_def)
next
  case (session_step es s e s')
  then show ?case
    using sim_step[of s "store_of es" e s'] by (auto simp: store_allows_append store_of_def intro: same_arena_trans)
qed

lemma session_buffer:
  assumes "session P req s0 es s" "boots wf P ovh s0" "store_of es p = Some b"
  shows "mem_start_brk s0 \<le> p \<and> p + int (length b) \<le> mem_brk s \<and> (\<forall>i<length b. b ! i = None \<or> b ! i = Some (mem s (p + int i)))"
proof -
  have "sim s (store_of es)" "same_arena s0 s" using session_sim[OF assms(1,2)] by auto
  then obtain L where L: "wf s L" "holds (held (store_of es)) L" "stored (mem s) (store_of es)" by (auto simp: sim_def)
  obtain c where c: "(p, c) \<in> L" "int (length b) \<le> c" using holdsD[OF L(2)] assms(3) held_iff by blast
  have "b ! i = None \<or> b ! i = Some (mem s (p + int i))" if "i < length b" for i
    using storedD[where B = "store_of es", OF L(3) assms(3) that] by (cases "b ! i") auto
  then show ?thesis using wf_bounds[OF L(1) c(1)] c(2) \<open>same_arena s0 s\<close> by (auto simp: same_arena_def)
qed

text \<open>A session can go on with a request for which there is room.\<close>

lemma session_malloc:
  assumes "session P req s0 es s" "boots wf P ovh s0" "req n" "room (cost n) s"
  shows "\<exists>p s'. session P req s0 (es @ [Malloc n p]) s' \<and> store_of es p = None \<and> same_arena s s'
    \<and> mem_brk s' \<le> mem_brk s + cost n"
proof -
  obtain L where L: "wf s L" "holds (held (store_of es)) L"
    using session_sim[OF assms(1,2)] by (auto simp: sim_def)
  obtain p s' where p: "pkg_malloc P n s = Some (p, s')" "p \<noteq> NULL" "\<forall>d. (p, d) \<notin> L" "same_arena s s'"
    "mem_brk s' \<le> mem_brk s + cost n"
    using malloc_ok[OF L(1) assms(3)] assms(4) by (auto split: if_splits)
  have "store_of es p = None" using holdsD[OF L(2)] p(3) by (cases "store_of es p") (auto simp: held_iff)
  moreover have "session P req s0 (es @ [Malloc n p]) s'"
    by (rule session_step[OF assms(1)]) (simp_all add: assms(3) ev_malloc[OF p(1,2)])
  ultimately show ?thesis using p(4,5) by blast
qed

lemma session_sample:
  assumes "boots wf P ovh s0" "req 10" "req 20" "mem_start_brk s0 + ovh + 56 \<le> mem_max_addr s0"
  shows "\<exists>p q s v. session P req s0 [Malloc 10 p, Write p 3 7, Malloc 20 q, Read p 3 v] s"
proof -
  obtain s where s: "pkg_init P s0 = (0, s)" "same_arena s0 s" "mem_brk s = mem_start_brk s0 + ovh"
    using assms(1) by (auto simp: boots_def)
  have k: "cost 10 = 24" "cost 20 = 32" by (simp_all add: cost_def align8_def)
  have "room (cost 10) s" using s(2,3) assms(4) by (simp add: room_def k same_arena_def)
  then obtain p t where p: "session P req s0 [Malloc 10 p] t" "same_arena s t" "mem_brk t \<le> mem_brk s + 24"
    using session_malloc[OF session_init[where req = req, OF s(1)] assms(1,2)] k(1) by auto
  let ?t = "t\<lparr>mem := (mem t)(p + 3 := 7)\<rparr>"
  have w: "session P req s0 [Malloc 10 p, Write p 3 7] ?t"
    using session_step[OF p(1) _ ev_write[of P t p 3 7]] by (simp add: store_of_def in_buffer_def)
  have "room (cost 20) ?t" using s(2,3) p(2,3) assms(4) by (simp add: room_def k same_arena_def)
  then obtain q u where q: "session P req s0 [Malloc 10 p, Write p 3 7, Malloc 20 q] u"
    "store_of [Malloc 10 p, Write p 3 7] q = None"
    using session_malloc[OF w assms(1,3)] by auto
  have "in_buffer (store_of [Malloc 10 p, Write p 3 7, Malloc 20 q]) p 3"
    using q(2) by (auto simp: store_of_def in_buffer_def split: if_splits)
  then have "session P req s0 [Malloc 10 p, Write p 3 7, Malloc 20 q, Read p 3 (mem u (p + 3))] u"
    using session_step[OF q(1) _ ev_read[of u p 3, OF refl]] by simp
  then show ?thesis by blast
qed

end

lemma implicit_boots: "pristine s0 \<Longrightarrow> boots (implicit_wf fit) (mm_package (USE_IMPLICIT fit)) 16 s0"
  using implicit.init_ok[of s0 fit] by (simp add: boots_def)

lemma segregate_boots:
  "mem_wf s0 \<Longrightarrow> mem_brk s0 = mem_start_brk s0 \<Longrightarrow> boots segregate_wf (mm_package USE_SEGREGATE_FIT) 104 s0"
  using segregate_init_clean[of s0] by (simp add: boots_def)

end
