(* ===== verification/Fsecs_Fcyc.thy ===== *)
theory Fsecs_Fcyc
  imports Ftimer
begin

text \<open>
  The timing method \<open>USE_FCYC\<close> as a whole on a Pentium: \<^verbatim>\<open>fsecs.c\<close>, \<^verbatim>\<open>fcyc.c\<close> and \<^verbatim>\<open>clock.c\<close> together.
  After \<open>init_fsecs\<close> each measurement clears the cache, compensates for timer interrupts (the
  first one calibrates), and \<open>fsecs\<close> returns the least of at most 20 measurements in seconds.
\<close>

text \<open>The next \<open>start_comp_counter\<close> finds the number of cycles per tick, or can measure it.\<close>

definition calibrated :: "clock \<Rightarrow> bool" where
  "calibrated c \<longleftrightarrow> cyc_per_tick c \<noteq> 0 \<or> (\<exists>c'. callibrate I386 c = Ret () c' \<and> cyc_per_tick c' \<noteq> 0)"

definition ready :: "fcyc_params \<Rightarrow> bool" where
  "ready f \<longleftrightarrow> compensate f \<noteq> 0 \<and> 4 \<le> sint (cache_block f) \<and> calibrated (clk f)
     \<and> (cache_buf f = None \<longrightarrow> malloc_ok f (scast (cache_bytes f)))"

lemma clear_ready:
  assumes "4 \<le> sint (cache_block f)" "cache_buf f = None \<longrightarrow> malloc_ok f (scast (cache_bytes f))"
  shows "\<exists>k x. clear f = Ret () (f\<lparr>cache_buf := Some k, sink := x\<rparr>)"
proof -
  have i: "0 < sint (ucast ((scast (cache_block f) :: 64 word) div 4) :: 32 word)"
    using scast_quarter(2)[of "cache_block f"] assms(1) by simp
  obtain k where "(case cache_buf f of
       None \<Rightarrow> if malloc_ok f (scast (cache_bytes f)) then Ret (uint ((scast (cache_bytes f) :: 64 word) div 4))
         (f\<lparr>cache_buf := Some (uint ((scast (cache_bytes f) :: 64 word) div 4))\<rparr>) else Exit 1
     | Some k \<Rightarrow> Ret k f) = Ret k (f\<lparr>cache_buf := Some k\<rparr>)"
    using assms(2) by (cases "cache_buf f") auto
  moreover obtain x where "clear_loop (cache_junk f) (uint ((scast (cache_bytes f) :: 64 word) div 4)) (sint (ucast ((scast (cache_block f) :: 64 word) div 4) :: 32 word)) 0 (sink f)
      = Some (Ret () x)"
    using clear_loop_ends[OF i order_refl] by blast
  ultimately show ?thesis by (auto simp: clear_def Let_def)
qed

lemma start_comp_ready:
  assumes "calibrated c"
  shows "\<exists>c'. start_comp_counter I386 c = Ret () c' \<and> cyc_per_tick c' \<noteq> 0"
proof (cases "cyc_per_tick c = 0")
  case True
  then obtain c' where "callibrate I386 c = Ret () c'" "cyc_per_tick c' \<noteq> 0" using assms by (auto simp: calibrated_def)
  then show ?thesis using True by (simp add: start_comp_counter_def utime_now_def start_counter_I386 Let_def)
qed (simp add: start_comp_counter_def utime_now_def start_counter_I386 Let_def)

lemma get_comp_ready: "\<exists>r c'. get_comp_counter I386 c = Ret r c' \<and> cyc_per_tick c' = cyc_per_tick c"
  by (simp add: get_comp_counter_def get_counter_def access_counter_def utime_now_def Let_def)

lemma measure_ready:
  assumes "ready f" "g s = Ret () s'"
  shows "\<exists>r f'. measure_cyc I386 g (s, f) = Ret r (s', f') \<and> ready f'"
proof -
  obtain f1 where f1: "(if clear_cache f \<noteq> 0 then clear f else Ret () f) = Ret () f1" "ready f1"
  proof (cases "clear_cache f = 0")
    case False
    then show ?thesis using clear_ready[of f] assms(1) that by (auto simp: ready_def)
  qed (use assms(1) that in simp)
  obtain c where c: "start_comp_counter I386 (clk f1) = Ret () c" "cyc_per_tick c \<noteq> 0"
    using start_comp_ready f1(2) by (auto simp: ready_def)
  obtain r c' where c': "get_comp_counter I386 c = Ret r c'" "cyc_per_tick c' \<noteq> 0"
    using get_comp_ready[of c] c(2) by metis
  have "measure_cyc I386 g (s, f) = Ret r (s', f1\<lparr>clk := c'\<rparr>)"
    using f1 c(1) c'(1) assms(2) by (simp add: measure_cyc_def with_clock_def ready_def)
  moreover have "ready (f1\<lparr>clk := c'\<rparr>)" using f1(2) c'(2) by (simp add: ready_def calibrated_def)
  ultimately show ?thesis by blast
qed

lemma measures_ready:
  assumes "\<forall>s. \<exists>s'. g s = Ret () s'" "ready (snd w)"
  shows "\<exists>rs w'. measures I386 g n w = Ret rs w'"
  using assms(2)
proof (induction n arbitrary: w)
  case (Suc n)
  obtain s f s' where w: "w = (s, f)" "g s = Ret () s'" using assms(1) by (cases w) blast
  obtain r f' where "measure_cyc I386 g w = Ret r (s', f')" "ready f'"
    using measure_ready[of f g s s'] w Suc.prems by auto
  then show ?case using Suc.IH[of "(s', f')"] by auto
qed simp

lemma init_fsecs_fcyc:
  "\<exists>t'. init_fsecs I386 USE_FCYC t = Ret () t' \<and> smp t' = smp t
     \<and> Mhz t' = real_of_int (uint (tsc (clk (fcyc_pkg t)) (tsc_reads (clk (fcyc_pkg t)) + 1) - tsc (clk (fcyc_pkg t)) (tsc_reads (clk (fcyc_pkg t))))) / 2000000
     \<and> kbest (fcyc_pkg t') = 3 \<and> maxsamples (fcyc_pkg t') = 20 \<and> compensate (fcyc_pkg t') = 1 \<and> clear_cache (fcyc_pkg t') = 1
     \<and> cache_block (fcyc_pkg t') = cache_block (fcyc_pkg t) \<and> cache_buf (fcyc_pkg t') = cache_buf (fcyc_pkg t)
     \<and> cache_bytes (fcyc_pkg t') = cache_bytes (fcyc_pkg t) \<and> malloc_ok (fcyc_pkg t') = malloc_ok (fcyc_pkg t)
     \<and> calloc_ok (fcyc_pkg t') = calloc_ok (fcyc_pkg t) \<and> cyc_per_tick (clk (fcyc_pkg t')) = cyc_per_tick (clk (fcyc_pkg t))"
proof -
  define c where "c = clk (fcyc_pkg t)"
  define c1 where "c1 = c\<lparr>tsc_reads := tsc_reads c + 1,
     cyc_hi := ucast (drop_bit 32 (tsc c (tsc_reads c))), cyc_lo := ucast (tsc c (tsc_reads c))\<rparr>"
  have "start_counter I386 c = Ret () c1" by (simp add: start_counter_I386 c1_def)
  moreover have "started (tsc c (tsc_reads c)) c1" by (simp add: started_def c1_def)
  from get_counter_I386[OF this] have "get_counter I386 c1 =
      Ret (real_of_int (uint (tsc c (tsc_reads c + 1) - tsc c (tsc_reads c)))) (c1\<lparr>tsc_reads := tsc_reads c1 + 1\<rparr>)"
    by (simp add: c1_def del: of_int_uint)
  ultimately have "mhz I386 c = Ret (real_of_int (uint (tsc c (tsc_reads c + 1) - tsc c (tsc_reads c))) / 2000000)
      (c1\<lparr>tsc_reads := tsc_reads c1 + 1\<rparr>)"
    by (simp add: mhz_def mhz_full_def del: of_int_uint)
  then show ?thesis
    by (simp add: init_fsecs_def with_clock_def set_fcyc_maxsamples_def set_fcyc_clear_cache_def set_fcyc_compensate_def
        set_fcyc_epsilon_def set_fcyc_k_def c_def c1_def Let_def del: of_int_uint)
qed

lemma fsecs_fcyc:
  assumes t: "init_fsecs I386 USE_FCYC t0 = Ret () t" "\<forall>s. \<exists>s'. g s = Ret () s'" "Mhz t \<noteq> 0"
    and f: "4 \<le> sint (cache_block (fcyc_pkg t0))" "cache_buf (fcyc_pkg t0) = None"
      "malloc_ok (fcyc_pkg t0) (scast (cache_bytes (fcyc_pkg t0)))" "calloc_ok (fcyc_pkg t0) 3"
    and c: "calibrated (clk (fcyc_pkg t))"
  shows "\<exists>rs w w'. measures I386 g (length rs) (s, fcyc_pkg t) = Ret rs w \<and> 1 \<le> length rs \<and> length rs \<le> 20
    \<and> fsecs I386 USE_FCYC g h (s, t) = Ret (Min (set rs) / (Mhz t * 10 ^ 6)) w'"
proof -
  have i: "kbest (fcyc_pkg t) = 3" "maxsamples (fcyc_pkg t) = 20" "compensate (fcyc_pkg t) = 1"
    "cache_block (fcyc_pkg t) = cache_block (fcyc_pkg t0)" "cache_buf (fcyc_pkg t) = cache_buf (fcyc_pkg t0)"
    "cache_bytes (fcyc_pkg t) = cache_bytes (fcyc_pkg t0)" "malloc_ok (fcyc_pkg t) = malloc_ok (fcyc_pkg t0)"
    "calloc_ok (fcyc_pkg t) = calloc_ok (fcyc_pkg t0)"
    using init_fsecs_fcyc[of t0] t(1) by auto
  have "ready (snd (s, fcyc_pkg t))" using i f c by (simp add: ready_def)
  then have m: "\<forall>n. \<exists>rs w. measures I386 g n (s, fcyc_pkg t) = Ret rs w" using measures_ready[OF t(2)] by blast
  have k: "1 \<le> kbest (snd (s, fcyc_pkg t))" "calloc_ok (snd (s, fcyc_pkg t)) (kbest (snd (s, fcyc_pkg t)))"
    using i f(4) by simp_all
  obtain rs p' w' where r: "fcyc I386 g (smp t) (s, fcyc_pkg t) = Ret (Min (set rs)) (p', w')" "1 \<le> length rs"
    "measures I386 g (length rs) (s, fcyc_pkg t) = Ret rs w'" "int (length rs) \<le> max 1 (maxsamples (fcyc_pkg t))"
    using fcyc_returns[OF m k, of "smp t"] by auto
  have "fsecs I386 USE_FCYC g h (s, t) = Ret (Min (set rs) / (Mhz t * 10 ^ 6)) (fst w', t\<lparr>smp := p', fcyc_pkg := snd w'\<rparr>)"
    using r(1) t(3) by (cases w') (simp add: fsecs_def)
  moreover have "length rs \<le> 20" using r(4) i(2) by simp
  ultimately show ?thesis using r(2,3) by blast
qed

end
