(* ===== verification/Spec2Isabelle.thy ===== *)
theory Spec2Isabelle
  imports Dump Implicit_Fit Segregate_Faults Driver_Score Driver_Sound Store Fsecs_Fcyc
begin

text \<open>
  A model of the malloc lab under \<^verbatim>\<open>src/src/malloclab-handout\<close>: two implementations of \<open>malloc\<close>,
  \<open>free\<close> and \<open>realloc\<close> on a simulated heap, the driver that checks and measures them on trace
  files, and the package that measures time.

  \<^bold>\<open>The program.\<close> \<^verbatim>\<open>memlib.c\<close> keeps an arena of 20 MB and a break inside it. \<^verbatim>\<open>mm.c\<close> hands each
  call to the allocator the build selects: \<^verbatim>\<open>implicit.c\<close> (one implicit list of blocks with boundary
  tags and a first, next or best fit) or \<^verbatim>\<open>segregate.c\<close> (doubly linked lists of free blocks in
  eleven size classes). \<^verbatim>\<open>mdriver.c\<close> reads trace files, replays each three times against the
  package (for correctness, utilisation and speed) and computes a performance index. The timed
  run goes through \<^verbatim>\<open>fsecs.c\<close>, which uses \<^verbatim>\<open>fcyc.c\<close> on \<^verbatim>\<open>clock.c\<close>, or \<^verbatim>\<open>ftimer.c\<close>.

  \<^bold>\<open>The theories.\<close>
  \<^item> \<open>Prelude\<close>: names of the C types, facts about words, the collections of simplification rules.
    \<open>Memory\<close>: the bytes of the process, loads, stores, \<open>memset\<close>, \<open>memcpy\<close>. \<open>Memlib\<close>: the record
    \<open>mstate\<close> of all static data of an allocator, and \<^verbatim>\<open>memlib.c\<close>. \<open>Macros\<close>: the boundary tags of
    \<^verbatim>\<open>implicit.c\<close> and \<^verbatim>\<open>utils.h\<close>. \<open>Blocks\<close>: the abstract heap, a list of blocks with a size and a
    flag each, laid out in memory by \<open>seg\<close>.
  \<^item> \<open>Implicit\<close>: \<^verbatim>\<open>implicit.c\<close>. \<open>Implicit_Search\<close>, \<open>Implicit_Alloc\<close>, \<open>Implicit_Realloc\<close>: the invariant
    \<open>imp_inv fit s bs\<close> (state \<open>s\<close> holds the blocks \<open>bs\<close>) and the refinement of each operation to
    one on block lists (\<open>amalloc\<close>, \<open>afree\<close>, \<open>arealloc\<close>). \<open>Implicit_Client\<close>, \<open>Implicit_Fit\<close>: complete
    coalescing, which block a strategy chooses, when malloc fails. \<open>Implicit_Faults\<close>: the requests
    on which the code misbehaves. \<open>Implicit_Api\<close>: the contract of a package. \<open>Dump\<close>: the functions
    of both allocators that print the heap; they show the abstract state.
  \<^item> \<open>Segregate\<close>: \<^verbatim>\<open>segregate.c\<close>. \<open>Segregate_Index\<close>: \<open>flt_index\<close>. \<open>Segregate_Lists\<close>, \<open>Segregate_Heap\<close>:
    the free lists and the invariant \<open>seg_inv s bs fl\<close> (\<open>fl i\<close> is the list of slot \<open>i\<close>).
    \<open>Segregate_Free\<close>, \<open>Segregate_Alloc\<close>, \<open>Segregate_Malloc\<close>, \<open>Segregate_Realloc\<close>: the refinement of
    the operations. \<open>Segregate_Api\<close>, \<open>Segregate_Faults\<close>: the contract, and requests outside it.
  \<^item> \<open>Mm\<close>: \<^verbatim>\<open>mm.c\<close>, the package as a record of four functions. \<open>Allocator\<close>: the contract of a package as
    locales (\<open>payloads\<close>, \<open>allocator\<close>, \<open>reliable_allocator\<close>) and the client that makes any sequence
    of calls and writes. \<open>Growing\<close>: two extensions of the contract, that the break never moves
    back and that a package can be started again once the arena has been cleared. \<open>Store\<close>: what a package is for, an
    abstract store of buffers (\<open>store_allows\<close>), which every session of calls, reads and writes
    with a package that keeps the contract refines; a session goes on while calls return buffers.
    Both allocators are interpretations; the driver is verified against the locales.
  \<^item> \<open>Outcome\<close>: results of the driver: a value, \<open>exit\<close>, a failed \<open>assert\<close>, undefined, never returning.
    \<open>Driver\<close>: the range list and the three evaluations of a trace in \<^verbatim>\<open>mdriver.c\<close>. \<open>Driver_Ranges\<close>,
    \<open>Driver_Valid\<close>: the validity check accepts every package that keeps the contract. \<open>Driver_Sound\<close>:
    what its verdict means for a package about which nothing is known.
    \<open>Driver_Util\<close>: utilisation and speed. \<open>Trace_File\<close>: \<open>read_trace\<close>. \<open>Options\<close>: command line and team.
    \<open>Driver_Main\<close>: libc's allocator, the loops over the traces, the index, \<open>main\<close>. \<open>Driver_Score\<close>: the
    program as a whole.
  \<^item> \<open>Clock\<close>: \<^verbatim>\<open>clock.c\<close>. \<open>Fcyc\<close>: \<^verbatim>\<open>fcyc.c\<close>. \<open>Ftimer\<close>: \<^verbatim>\<open>ftimer.c\<close> and \<^verbatim>\<open>fsecs.c\<close>.
    \<open>Fsecs_Fcyc\<close>: the timing method \<open>USE_FCYC\<close> through all three files.

  \<^bold>\<open>State and errors.\<close> An operation takes the state and returns it updated. Statics of a file are
  fields of a record: \<open>mstate\<close> (\<^verbatim>\<open>memlib.c\<close>, \<^verbatim>\<open>implicit.c\<close>, \<^verbatim>\<open>segregate.c\<close>), \<open>driver\<close> (\<^verbatim>\<open>mdriver.c\<close>, with the
  trace and the range list), \<open>clock\<close>, \<open>fcyc_params\<close>, \<open>sampler\<close>, \<open>ftimer\<close>, \<open>timing\<close>. In the allocators
  \<open>None\<close> is a call without a defined result (an overlapping \<open>memcpy\<close>, a copy to \<open>NULL\<close>) or one that
  does not return; in the driver these are \<open>Undef\<close> and \<open>Hang\<close>. The platform is x86-64: \<open>size_t\<close> has 64
  bits, \<open>int\<close> 32, and a conversion to \<open>int\<close> keeps the low bits. Addresses are integers, so that
  pointer arithmetic next to the arena does not wrap; a pointer stored in memory takes 8 bytes.
  Memory is total: where the code goes on with \<open>NULL\<close>, as \<open>implicit_mm_init\<close> does when \<open>extend_heap\<close>
  fails, the model reads and writes at address 0 and the machine faults; the theorems do not
  rest on such steps. The settings \<open>kbest\<close> and \<open>maxsamples\<close> of \<^verbatim>\<open>fcyc.c\<close> and its sample counter are
  integers: the counter is bounded by them, so that no overflow is reached.

  \<^bold>\<open>Loops.\<close> No fuel is used. Loops over a list, a counter or the input are recursive functions
  with a measure. The walks through the heap and the free lists, the loop of \<open>callibrate\<close> and
  the one that clears the cache are partial functions, for which \<open>None\<close> means that the loop does
  not end; the theorems show that it ends from every state that satisfies the invariant, or
  exactly when it does.

  \<^bold>\<open>Hypotheses.\<close> libc and the operating system are parameters: the address \<open>malloc\<close> returns for the
  arena (8-byte aligned), which allocations succeed, what fresh memory holds, what \<open>getopt\<close>
  returns, the readings of the clocks. A \<open>double\<close> is the real number it stands for, and a division
  by zero has no defined result. The implicit allocator writes no epilogue at a new end of the
  heap, and its initialisation reads the word in front of the arena: it works only on \<open>pristine\<close>
  memory, an arena of zeros with a word in front that is 0 or 1. The C standard promises neither
  of the memory \<open>malloc\<close> returns; the theorems state it as a hypothesis, and \<open>cleared\<close> of the locale
  \<open>restartable_allocator\<close> shows that \<open>mem_clear\<close> restores it after every run, so that it is needed of
  the first trace only. The segregated allocator needs nothing of the memory. Most theorems
  are for the sizes the code can handle: the allocators narrow sizes to \<open>int\<close>, so requests stay
  below 2147483633 bytes, and the segregated one can hand out a block of at most 8 bytes twice.

  \<^bold>\<open>The properties.\<close> C1 to C14 concern the implicit allocator, the next group the segregated one, then
  the driver, the measurement of time, and the headers. Each group has refinements
  or functional specifications first, then invariants and what a client or the driver observes,
  then the requests on which the code does not do what its comments say.

  \<^bold>\<open>Not modelled.\<close> What is only printed (\<open>usage\<close>, the messages of the errors, the final lines of
  \<open>main\<close>; \<open>printresults\<close>, \<open>dump\<close> and \<open>freelist_dump\<close> yield the values they print); \<open>mem_deinit\<close>
  and \<open>mem_pagesize\<close>, which nothing calls; \<open>free_trace\<close>, which only returns memory to libc; the code under
  \<open>KEEP_SAMPLES\<close> and \<open>DEBUG\<close>, which is never compiled; the overflow of the buffer for the path of a
  trace file; the machine instructions that read the cycle counter.
\<close>

section \<open>Concrete heaps for the witnesses\<close>

lemmas heap_eval = prologue_def align8_def cut_def Let_def fits_def c_const rgt_def lft_def joined_def
  merge_free_def NULL_def

lemma mk_state_fields [simp]:
  "heap_listp (mk_state bs) = 4104" "heap_curp (mk_state bs) = 4104" "mem_start_brk (mk_state bs) = 4096"
  "mem_brk (mk_state bs) = 4112 + total bs" "mem_max_addr (mk_state bs) = 4096 + MAX_HEAP"
  by (simp_all add: mk_state_def arena0_def Let_def)

lemma mk_example: "imp_inv fit (mk_state [(16, True), (32, False), (24, True)]) [(16, True), (32, False), (24, True)]"
  by (rule mk_state_inv) (simp_all add: sz_ok_def c_const)

lemma arena0_pristine: "pristine arena0"
  using arena0_wf by (auto simp: pristine_def empty_front_def)

definition sample_driver :: "request \<Rightarrow> driver" where
  "sample_driver rq = \<lparr>heap = arena0, trace = \<lparr>sugg_heapsize = 100, num_ids = 2, num_ops = 4, weight = 1,
     ops = [\<lparr>op_type = ALLOC, op_index = 0, op_size = 10\<rparr>, \<lparr>op_type = ALLOC, op_index = 1, op_size = 200\<rparr>,
       \<lparr>op_type = rq, op_index = 0, op_size = 64\<rparr>, \<lparr>op_type = FREE, op_index = 1, op_size = 0\<rparr>],
     blocks = [0, 0], block_sizes = [0, 0]\<rparr>, ranges = [], errors = 0, libc_ok = \<lambda>_. True, libc_calls = 0\<rparr>"

abbreviation sample_ranges :: driver where
  "sample_ranges \<equiv> (sample_driver FREE)\<lparr>heap := mk_state [(64, True)], ranges := [\<lparr>lo = 4120, hi = 4127\<rparr>]\<rparr>"

lemma segregate_start:
  "\<exists>s. segregate_mm_init arena0 = (0, s) \<and> seg_inv s [] (\<lambda>_. []) \<and> mem_start_brk s = 4096
    \<and> mem_brk s = 4200 \<and> mem_max_addr s = 4096 + MAX_HEAP \<and> NEXT_FREE_BLKP (mem s) 4096 = NULL"
proof -
  have "mem_wf arena0" "mem_brk arena0 = mem_start_brk arena0" using arena0_wf by simp_all
  from segregate_init_spec[OF this] show ?thesis by (auto simp: arena0_wf) (simp_all add: arena0_def)
qed

lemma no_lists: "asearch base n i bs (\<lambda>_. []) = None"
proof -
  have "concat (map (\<lambda>_. []) xs) = ([] :: addr list)" for xs :: "nat list" by (induction xs) auto
  then show ?thesis by (simp only: asearch_def find.simps)
qed


section \<open>Concrete traces, clocks and an allocator of libc\<close>

definition sample_trace :: trace_t where
  "sample_trace = trace (sample_driver REALLOC)"


lemmas sample_defs = sample_trace_def sample_driver_def NULL_def

definition some_trace :: trace_t where
  "some_trace = \<lparr>sugg_heapsize = 0, num_ids = 0, num_ops = 0, weight = 0, ops = [], blocks = [], block_sizes = []\<rparr>"

definition bad_free_trace :: trace_t where
  "bad_free_trace = \<lparr>sugg_heapsize = 0, num_ids = 1, num_ops = 2, weight = 1,
     ops = [\<lparr>op_type = ALLOC, op_index = 0, op_size = 8\<rparr>, \<lparr>op_type = FREE, op_index = 7, op_size = 0\<rparr>],
     blocks = [NULL], block_sizes = [0]\<rparr>"

definition sample_libc :: "addr libc" where
  "sample_libc = \<lparr>l_malloc = \<lambda>n a. (a + 8, a + 8 + uint n), l_realloc = \<lambda>p n a. (4096, a), l_free = \<lambda>p a. a\<rparr>"

definition sample_clock :: clock where
  "sample_clock = \<lparr>tsc = (\<lambda>k. word_of_int (5000 * int k)), tsc_reads = 0, utime = int, times_calls = 0,
     cyc_hi = 0, cyc_lo = 0, cyc_per_tick = 0, start_tick = 0\<rparr>"

definition sample_fcyc :: fcyc_params where
  "sample_fcyc = fcyc_start sample_clock (\<lambda>_. True) (\<lambda>_. True) (\<lambda>_. 0)"

definition sample_timing :: timing where
  "sample_timing = \<lparr>Mhz = 0, fcyc_pkg = sample_fcyc, smp = \<lparr>vals = None, samplecount = 0\<rparr>,
     ftimer_pkg = \<lparr>gtod = (\<lambda>k. (int k, 0)), gtod_calls = 0, itimer = \<lambda>_. (0, 0), itimer_calls = 0,
       first_u = (0, 0), first_r = (0, 0), first_p = (0, 0)\<rparr>\<rparr>"

lemma sample_reading: "k < 1000 \<Longrightarrow> uint (word_of_int (5000 * int k) :: 64 word) = 5000 * int k"
  unfolding uint_word_of_int by (rule mod_pos_pos_trivial) auto

lemma sample_calibrated:
  assumes "tsc c = tsc sample_clock" "utime c = int" "cyc_per_tick c = 0" "tsc_reads c < 100" "times_calls c = 0"
  shows "calibrated c"
proof -
  let ?k = "tsc_reads c"
  have d: "uint (word_of_int (5000 * int j) - word_of_int (5000 * int ?k) :: 64 word) = 5000 * (int j - int ?k)"
    if j: "?k \<le> j" "j < 1000" for j
  proof -
    have k: "?k < 1000" using assms(4) by simp
    show ?thesis unfolding uint_sub_if' sample_reading[OF j(2)] sample_reading[OF k] using j(1) by simp
  qed
  have si: "since c (tsc c ?k) j = 5000 * (real j - real ?k)" if "?k \<le> j" "j < 1000" for j
    using d[OF that] assms(1) by (simp add: since_def sample_clock_def del: of_int_uint)
  have "ticks_from c (tsc c ?k) (?k + 1) (times_calls c) NEVENT"
    using assms(2,4,5) by (auto simp: ticks_from_def si NEVENT_def THRESHOLD_def)
  moreover have "ratios c (tsc c ?k) (?k + 1) (times_calls c) NEVENT = map (\<lambda>_. 5000) [0..<NEVENT]"
    using assms(2,4,5) by (auto simp: ratios_def si NEVENT_def)
  moreover have "{r \<in> set (map (\<lambda>_. 5000 :: real) [0..<NEVENT]). r > RECORDTHRESH} = {5000}"
    by (auto simp: NEVENT_def RECORDTHRESH_def image_constant_conv)
  then have "fewest (map (\<lambda>_. 5000) [0..<NEVENT]) = 5000" by (simp only: fewest_def Let_def) simp
  ultimately show ?thesis using callibrate_returns[OF assms(3)] by (auto simp: calibrated_def)
qed

lemma measures_I386:
  assumes "clear_cache (snd w) = 0" "compensate (snd w) = 0"
  shows "\<exists>rs w'. measures I386 (\<lambda>s. Ret () s) n w = Ret rs w'"
  using assms
proof (induction n arbitrary: w)
  case (Suc n)
  obtain s f where w: "w = (s, f)" by (cases w)
  obtain c1 where "start_counter I386 (clk f) = Ret () c1" by (simp add: start_counter_I386)
  moreover obtain t where "get_counter I386 c1 = Ret t (c1\<lparr>tsc_reads := tsc_reads c1 + 1\<rparr>)"
    using get_counter_Ret[of I386 c1] by auto
  ultimately have m: "measure_cyc I386 (\<lambda>s. Ret () s) w = Ret t (s, f\<lparr>clk := c1\<lparr>tsc_reads := tsc_reads c1 + 1\<rparr>\<rparr>)"
    using Suc.prems w by (simp add: measure_cyc_def with_clock_def)
  obtain rs w' where "measures I386 (\<lambda>s. Ret () s) n (s, f\<lparr>clk := c1\<lparr>tsc_reads := tsc_reads c1 + 1\<rparr>\<rparr>) = Ret rs w'"
    using Suc.IH[of "(s, f\<lparr>clk := c1\<lparr>tsc_reads := tsc_reads c1 + 1\<rparr>\<rparr>)"] Suc.prems w by auto
  then show ?case using m by simp
qed simp

section \<open>The implicit allocator\<close>

text \<open>
  C1: on every heap that the invariant describes by a block list and for every request below
  2^31 - 15 bytes, implicit_mm_malloc terminates. A request of 0 bytes returns NULL and changes
  nothing. Any other refines amalloc: it takes and splits the block its fit strategy chooses, or
  extends the last free block or the heap, returns a payload of at least the requested size that
  is not NULL and keeps the bytes of all live payloads; when amalloc fails it returns NULL,
  changes only errno and, with next fit, sets heap_curp to NULL.
\<close>

theorem implicit_malloc_refines:
  assumes "imp_inv fit s bs" "uint n + 15 < 2 ^ 31"
  shows "if n = 0 then implicit_mm_malloc fit n s = Some (NULL, s)
    else case amalloc fit (mem_max_addr s) (heap_listp s) (heap_curp s) (align8 (uint n)) bs of
      None \<Rightarrow> \<exists>e. implicit_mm_malloc fit n s = Some (NULL, set_curp fit NULL (s\<lparr>errno := e\<rparr>))
    | Some (q, bs') \<Rightarrow> \<exists>s' c. implicit_mm_malloc fit n s = Some (q, s') \<and> imp_inv fit s' bs'
        \<and> keeps (mem s) (mem s') (live (heap_listp s + 8) bs)
        \<and> live (heap_listp s + 8) bs' = insert (q, c) (live (heap_listp s + 8) bs) \<and> uint n \<le> c
        \<and> q \<noteq> NULL \<and> heap_listp s' = heap_listp s \<and> mem_max_addr s' = mem_max_addr s"
proof (cases "n = 0")
  case True
  then show ?thesis by (simp add: implicit_mm_malloc_def)
next
  case False
  then show ?thesis
    using implicit_malloc_spec[OF assms(1) False refl] assms(2) align8_facts[of "uint n"]
    by (fastforce split: option.splits)
qed

theorem implicit_malloc_refines_witness:
  "\<exists>s'. implicit_mm_malloc USE_BEST_FIT 10 (mk_state [(16, True), (32, False), (24, True)]) = Some (4128, s')
     \<and> imp_inv USE_BEST_FIT s' [(16, True), (24, True), (8, False), (24, True)]"
  using implicit_malloc_refines[OF mk_example, of 10 USE_BEST_FIT]
  by (auto simp: amalloc_def heap_eval)

text \<open>
  C2: on every heap that the invariant describes, implicit_mm_free of a live payload refines
  afree: the block and its free neighbours become one free block, exactly that payload stops
  being live, the other payloads keep their bytes and the break does not move.
\<close>

theorem implicit_free_refines:
  assumes "imp_inv fit s bs" "(q, c) \<in> live (heap_listp s + 8) bs"
  shows "imp_inv fit (implicit_mm_free fit q s) (afree (heap_listp s + 8) q bs)
    \<and> live (heap_listp s + 8) (afree (heap_listp s + 8) q bs) = live (heap_listp s + 8) bs - {(q, c)}
    \<and> keeps (mem s) (mem (implicit_mm_free fit q s)) (live (heap_listp s + 8) bs - {(q, c)})
    \<and> mem_brk (implicit_mm_free fit q s) = mem_brk s"
  using implicit_free_spec[OF assms] by blast

theorem implicit_free_refines_witness:
  "imp_inv USE_NEXT_FIT (implicit_mm_free USE_NEXT_FIT 4112 (mk_state [(16, True), (32, False), (24, True)]))
     [(48, False), (24, True)]"
  using implicit_free_refines[OF mk_example, of 4112 8 USE_NEXT_FIT]
  by (simp add: afree_def heap_eval)

text \<open>
  C3: for a live payload and sizes below 2^31 - 15 bytes every branch of implicit_mm_realloc is
  determined. Size 0 frees the payload and returns the old pointer. A block without payload (see
  the last property of this group) is refused with NULL. Otherwise the call refines arealloc:
  shrinking in place, absorbing the next or the previous free block, extending the last block,
  or moving, each of which keeps the invariant and copies the old bytes up to the smaller size;
  the branches on which the code returns NULL, copies overlapping regions, or ignores a failed
  extension are exactly those arealloc names.
\<close>

theorem implicit_realloc_refines:
  assumes "imp_inv fit s bs" "(q, c) \<in> live (heap_listp s + 8) bs" "uint sz + 15 < 2 ^ 31"
  shows "if sz = 0 then implicit_mm_realloc fit q sz s = Some (q, implicit_mm_free fit q s)
    else if c < 8 then implicit_mm_realloc fit q sz s = Some (NULL, s)
    else case arealloc (mem_max_addr s) (heap_listp s + 8) (align8 (uint sz)) q bs of
      Done r bs' \<Rightarrow> \<exists>s'. implicit_mm_realloc fit q sz s = Some (r, s')
        \<and> realloc_post fit s bs q c (align8 (uint sz)) r s' bs'
    | Fail \<Rightarrow> \<exists>e. implicit_mm_realloc fit q sz s = Some (NULL, s\<lparr>errno := e\<rparr>)
    | Undefined \<Rightarrow> implicit_mm_realloc fit q sz s = None
    | Overrun \<Rightarrow> \<exists>e. implicit_mm_realloc fit q sz s =
        Some (q, set_curp fit q (s\<lparr>errno := e, mem := put (mem s) q (align8 (uint sz) + 8) True\<rparr>))"
proof -
  obtain xs ys where x: "bs = xs @ (c + 8, True) # ys" "q = heap_listp s + 8 + total xs"
    using assms(2) by (rule live_split)
  have "block_in s bs q xs (c + 8) ys" using assms(1) x by (simp add: block_in_def imp_inv_def)
  then have "q \<noteq> NULL" using block_inD(5) by (fastforce simp: NULL_def)
  then show ?thesis
    using implicit_realloc_full[OF assms(1,2) _ _ assms(3)] implicit_realloc_bare[OF assms(1,2), of sz]
    by (simp add: implicit_mm_realloc_def)
qed

theorem implicit_realloc_refines_witness:
  "\<exists>s'. implicit_mm_realloc USE_FIRST_FIT 4112 20 (mk_state [(16, True), (32, False), (24, True)]) = Some (4112, s')
     \<and> imp_inv USE_FIRST_FIT s' [(32, True), (16, False), (24, True)]
     \<and> moved (mem (mk_state [(16, True), (32, False), (24, True)])) (mem s') 4112 4112 8"
  using implicit_realloc_refines[OF mk_example, of 4112 8 20 USE_FIRST_FIT]
  by (auto simp: arealloc_def realloc_post_def heap_eval)

text \<open>
  C4: with any of the three fit strategies, every session with the implicit allocator is one
  that the abstract store of buffers allows. A session starts with an empty heap in a zeroed
  arena, the word in front of which is 0 or 1. It is any sequence of mallocs and reallocs that
  return a buffer, each for 1 to 2^31 - 16 bytes and a realloc with room for a new block, of
  frees of held buffers, and of writes and reads inside them. Every new buffer is 8-byte
  aligned, not NULL and disjoint from the held ones, and every byte read is the one last written
  there, through all calls in between; realloc carries over the common prefix. Every held buffer
  lies between the start of the heap and the break, and memory holds its known bytes.
\<close>

theorem implicit_store_refines:
  assumes "session (mm_package (USE_IMPLICIT fit)) implicit_req s0 es s" "pristine s0"
  shows "store_allows Map.empty es \<and> (\<forall>p b. store_of es p = Some b \<longrightarrow> mem_start_brk s0 \<le> p
    \<and> p + int (length b) \<le> mem_brk s \<and> (\<forall>i<length b. b ! i = None \<or> b ! i = Some (mem s (p + int i))))"
  using implicit.session_sim[OF assms(1) implicit_boots[OF assms(2)]]
    implicit.session_buffer[OF assms(1) implicit_boots[OF assms(2)]] by blast

theorem implicit_store_refines_witness:
  "\<exists>p q s. session (mm_package (USE_IMPLICIT USE_NEXT_FIT)) implicit_req arena0 [Malloc 10 p, Write p 3 7, Malloc 20 q, Read p 3 7] s
     \<and> 8 dvd q \<and> (q + 20 \<le> p \<or> p + 10 \<le> q)"
proof -
  let ?es = "\<lambda>p q v. [Malloc 10 p, Write p 3 7, Malloc 20 q, Read p 3 v]"
  have "mem_start_brk arena0 + 16 + 56 \<le> mem_max_addr arena0" by (simp add: arena0_def c_const)
  then obtain p q v s where r: "session (mm_package (USE_IMPLICIT USE_NEXT_FIT)) implicit_req arena0 (?es p q v) s"
    using implicit.session_sample[OF implicit_boots[OF arena0_pristine], of USE_NEXT_FIT] by (auto simp: implicit_req_def)
  from implicit_store_refines[OF this arena0_pristine] have "store_allows Map.empty (?es p q v)" by blast
  then have "v = 7" "8 dvd q" "q + 20 \<le> p \<or> p + 10 \<le> q" by (auto simp: placeable_def split: if_splits)
  then show ?thesis using r by blast
qed



text \<open>
  C6: on every heap that the invariant describes and for every size that is a multiple of 8, as
  ALIGN yields, find_fit returns; it returns NULL only if no free block is big enough, and
  otherwise a big enough free block that is the first one, the first one after the current block
  with wrap-around, or a smallest one, according to the strategy.
\<close>

theorem implicit_fit_choice:
  assumes "imp_inv fit s bs" "8 dvd uint n"
  shows "(\<exists>s'. find_fit fit s n = Some (NULL, s') \<and> (\<forall>b\<in>heap_blocks s bs. \<not> fits (uint n) b))
    \<or> (\<exists>q t s'. find_fit fit s n = Some (q, s') \<and> q \<noteq> NULL \<and> (q, t, False) \<in> heap_blocks s bs
        \<and> fits (uint n) (q, t, False) \<and> chosen fit (heap_curp s) (uint n) (heap_blocks s bs) q t)"
  by (rule find_fit_chosen[OF assms(1) refl assms(2)])

theorem implicit_fit_choice_witness:
  "\<exists>s'. find_fit USE_BEST_FIT (mk_state [(16, True), (32, False), (24, True)]) 16 = Some (4128, s')"
  using implicit_fit_choice[OF mk_example, of 16 USE_BEST_FIT] by (auto simp: heap_eval)

text \<open>
  C7: for every request below 2^31 - 15 bytes, implicit_mm_malloc returns NULL exactly when the
  request is 0 bytes, or no free block fits and the arena has no room for the bytes that are
  missing after the free block at the end of the heap is counted.
\<close>

theorem implicit_malloc_fails_iff:
  assumes "imp_inv fit s bs" "uint n + 15 < 2 ^ 31"
  shows "(\<exists>s'. implicit_mm_malloc fit n s = Some (NULL, s')) \<longleftrightarrow> n = 0
    \<or> (\<forall>b\<in>heap_blocks s bs. \<not> fits (align8 (uint n)) b)
      \<and> mem_max_addr s < mem_brk s + (align8 (uint n) + 8) - (if tail_free bs then fst (last bs) else 0)"
proof (cases "n = 0")
  case False
  have k: "align8 (uint n) + 8 < 2 ^ 31" "0 \<le> align8 (uint n)"
    using assms(2) align8_facts[of "uint n"] by auto
  have h: "heap_inv s bs" using assms(1) by (simp add: imp_inv_def)
  show ?thesis
    using implicit_malloc_spec[OF assms(1) False refl k(1)] False
    unfolding amalloc_None_iff[OF h k(2), of fit "heap_curp s", symmetric]
    by (auto split: option.splits)
qed (simp add: implicit_mm_malloc_def)

theorem implicit_malloc_fails_iff_witness:
  "\<not> (\<exists>s'. implicit_mm_malloc USE_FIRST_FIT 100 (mk_state [(16, True), (32, False), (24, True)]) = Some (NULL, s'))"
  using implicit_malloc_fails_iff[OF mk_example, of 100 USE_FIRST_FIT] by (simp add: heap_eval tail_free_def)

text \<open>
  C8: immediate coalescing is complete: if the heap has no two adjacent free blocks then it has
  none after any free of a live payload or any successful malloc of 1 to 2^31 - 16 bytes.
\<close>

theorem implicit_no_adjacent_free:
  assumes "imp_inv fit s bs" "no_adj bs"
  shows "(\<forall>(q, c)\<in>live (heap_listp s + 8) bs. \<exists>bs'. imp_inv fit (implicit_mm_free fit q s) bs' \<and> no_adj bs')
    \<and> (\<forall>n p s'. n \<noteq> 0 \<and> uint n + 15 < 2 ^ 31 \<and> implicit_mm_malloc fit n s = Some (p, s') \<and> p \<noteq> NULL
         \<longrightarrow> (\<exists>bs'. imp_inv fit s' bs' \<and> no_adj bs'))"
proof -
  have h: "heap_inv s bs" using assms(1) by (simp add: imp_inv_def)
  have m: "\<exists>bs'. imp_inv fit s' bs' \<and> no_adj bs'"
    if "n \<noteq> 0" "uint n + 15 < 2 ^ 31" "implicit_mm_malloc fit n s = Some (p, s')" "p \<noteq> NULL" for n p s'
  proof -
    have k: "align8 (uint n) + 8 < 2 ^ 31" "0 \<le> align8 (uint n)"
      using that(2) align8_facts[of "uint n"] by auto
    show ?thesis
      using implicit_malloc_spec[OF assms(1) that(1) refl k(1)] that(3,4) no_adj_amalloc[OF assms(2) h k(2)]
      by (auto split: option.splits)
  qed
  have f: "\<exists>bs'. imp_inv fit (implicit_mm_free fit q s) bs' \<and> no_adj bs'"
    if "(q, c) \<in> live (heap_listp s + 8) bs" for q c
    using implicit_free_spec(1)[OF assms(1) that] no_adj_afree[OF assms(2) h that] by (intro exI conjI)
  show ?thesis
  proof (intro conjI ballI allI impI)
    fix x assume "x \<in> live (heap_listp s + 8) bs"
    then show "case x of (q, c) \<Rightarrow> \<exists>bs'. imp_inv fit (implicit_mm_free fit q s) bs' \<and> no_adj bs'"
      using f by (cases x) simp
  qed (use m in blast)
qed

theorem implicit_no_adjacent_free_witness:
  "\<exists>bs. imp_inv USE_BEST_FIT (implicit_mm_free USE_BEST_FIT 4144 (mk_state [(32, True), (24, True)])) bs \<and> no_adj bs"
  using implicit_no_adjacent_free[OF mk_state_inv[of "[(32, True), (24, True)]" USE_BEST_FIT]]
  by (simp add: sz_ok_def c_const)

text \<open>
  C9: on every heap that the invariant describes, the debugging function dump ends and prints
  exactly the blocks of the abstract heap in order, prologue included: state, size, extent, and
  the same word as header and footer.
\<close>

theorem dump_shows_heap:
  assumes "imp_inv fit s bs"
  shows "dump s = Some (map block_row (lay (heap_listp s) (prologue # bs)))"
  by (rule dump_spec[OF assms])

theorem dump_shows_heap_witness:
  "dump (mk_state [(16, True), (32, False), (24, True)])
     = Some (map block_row [(4104, 8, True), (4112, 16, True), (4128, 32, False), (4160, 24, True)])"
  using dump_shows_heap[OF mk_example] by (simp add: prologue_def)

text \<open>
  C10: implicit_mm_init writes outside the arena: extend_heap places an epilogue header relative
  to a block that does not exist yet, so on an empty heap in a zeroed arena, when the four bytes
  before the start of the heap are 0, they become 1.
\<close>

theorem implicit_init_underrun:
  assumes "pristine s" "load32 (mem s) (mem_start_brk s - 4) = 0"
  shows "load32 (mem s) (mem_start_brk s - 4) = 0
    \<and> load32 (mem (snd (implicit_mm_init fit s))) (mem_start_brk s - 4) = 1"
proof -
  have p: "hdr_at (mem s) (mem_brk s) 0 False" "mem_wf s" "mem_brk s + 16 \<le> mem_max_addr s"
    "mem_brk s = mem_start_brk s"
    using assms by (auto simp: pristine_def hdr_at_def hdr_def sz_ok_def mem_wf_def c_const)
  show ?thesis using implicit_init_eq[OF p(2,1,3), of fit] p(4) assms(2) by (auto simp: hdr_def)
qed

theorem implicit_init_underrun_witness:
  "load32 (mem (snd (implicit_mm_init USE_FIRST_FIT arena0))) 4092 = 1"
  using implicit_init_underrun[OF arena0_pristine] by (simp add: arena0_def load32_def)

text \<open>
  C11: when the last block, which has a payload, must grow to a size below 2^31 - 15 bytes that
  goes beyond the end of the arena, mem_sbrk refuses and implicit_mm_realloc ignores the
  failure: it returns the block as if it had grown, with a header that claims more bytes than
  the heap has, and writes the footer at or beyond the end of the arena.
\<close>

theorem implicit_realloc_overrun:
  assumes "imp_inv fit s (xs @ [(c + 8, True)])" "q = heap_listp s + 8 + total xs" "8 \<le> c"
    "sz \<noteq> 0" "uint sz + 15 < 2 ^ 31" "n = align8 (uint sz) + 8" "mem_max_addr s < q + n"
  shows "\<exists>s'. implicit_mm_realloc fit q sz s = Some (q, s') \<and> mem_brk s' = mem_brk s
    \<and> uint (RB_SIZE (mem s') q) = n
    \<and> load32 (mem s') (q + n - 8) = hdr n True \<and> mem_max_addr s \<le> q + n - 8"
proof -
  have b: "block_in s (xs @ [(c + 8, True)]) q xs (c + 8) []"
    using assms(1,2) by (simp add: block_in_def imp_inv_def)
  note d = block_inD[OF b] and h = heap_invD[OF block_inD(1)[OF b]] and z = realloc_sizes[OF block_inD(4)[OF b] assms(5,6)]
  have brk: "mem_brk s = q + (c + 8)" using h(5) assms(2) by simp
  have mx: "8 dvd mem_max_addr s" "mem_brk s \<le> mem_max_addr s" using h(1) by (auto simp: mem_wf_def c_const)
  have q8: "8 dvd q" using h(6) seg_total_dvd[OF block_inD(7)[OF b]] assms(2) by simp
  have "c + 8 < n" using assms(7) brk mx(2) by simp
  moreover have "mem_max_addr s < mem_brk s + (n - (c + 8))" using assms(7) brk by simp
  moreover have "16 \<le> c + 8" using assms(3) by simp
  ultimately obtain e where r: "implicit_mm_realloc fit q sz s
    = Some (q, set_curp fit q (s\<lparr>errno := e, mem := put (mem s) q n True\<rparr>))"
    using realloc_overrun[OF b assms(5,6,4), of fit] by blast
  have bl: "blk (put (mem s) q n True) q n True" by (rule put_blk) (use z in \<open>auto simp: sz_ok_def\<close>)
  have "mem_max_addr s \<le> q + n - 8"
  proof -
    have "8 dvd q + n" using q8 z by simp
    then show ?thesis using mx(1) assms(7) by presburger
  qed
  then show ?thesis
    using r RB_SIZE_hdr[OF blkD(1)[OF bl]] blkD(2)[OF bl]
    by (auto simp: ftr_at_def set_curp_def)
qed

theorem implicit_realloc_overrun_witness:
  "\<exists>s'. implicit_mm_realloc USE_FIRST_FIT 20975600 20 (mk_state [(20971488, True), (16, True)]) = Some (20975600, s')
     \<and> 4096 + MAX_HEAP \<le> (20975624 :: int) \<and> load32 (mem s') 20975624 = 33"
proof -
  have i: "imp_inv USE_FIRST_FIT (mk_state [(20971488, True), (16, True)]) ([(20971488, True)] @ [(8 + 8, True)])"
    using mk_state_inv[of "[(20971488, True), (16, True)]" USE_FIRST_FIT] by (simp add: sz_ok_def c_const)
  show ?thesis
    using implicit_realloc_overrun[OF i, of 20975600 20 32] by (auto simp: align8_def c_const hdr_def)
qed

text \<open>
  C12: growing a block into a free block before it that is smaller than the payload, where the
  two are big enough together and the block after it is allocated, calls memcpy on overlapping
  regions, which has no defined result.
\<close>

theorem implicit_realloc_overlap:
  assumes "imp_inv fit s (xs @ (u, False) # (c + 8, True) # (v, True) # ys)" "q = heap_listp s + 8 + total xs + u"
    "8 \<le> c" "u < c" "sz \<noteq> 0" "uint sz + 15 < 2 ^ 31" "c < align8 (uint sz)" "align8 (uint sz) \<le> c + u"
  shows "implicit_mm_realloc fit q sz s = None"
proof -
  let ?bs = "xs @ (u, False) # (c + 8, True) # (v, True) # ys" and ?ws = "xs @ [(u, False)]"
  have h: "heap_inv s ?bs" using assms(1) by (simp add: imp_inv_def)
  have ok: "blks_ok ?ws" using seg_blks_ok[OF heap_inv_base(1)[OF h]] by simp
  have l: "(q, c) \<in> live (heap_listp s + 8) ?bs" using assms(2) by (simp add: algebra_simps)
  have sp: "split_at (heap_listp s + 8) q ?bs = (?ws, (c + 8, True) # (v, True) # ys)"
    using split_at_append[OF ok, of q "heap_listp s + 8" "c + 8" True "(v, True) # ys"] assms(2) by simp
  have "arealloc (mem_max_addr s) (heap_listp s + 8) (align8 (uint sz)) q ?bs = Undefined"
    unfolding arealloc_def sp using assms(4,7,8) by (simp add: rgt_def lft_def Let_def)
  then show ?thesis using implicit_realloc_spec[OF assms(1) l assms(3,5,6)] by simp
qed

theorem implicit_realloc_overlap_witness:
  "implicit_mm_realloc USE_FIRST_FIT 4128 40 (mk_state [(16, False), (40, True), (16, True)]) = None"
  using implicit_realloc_overlap[OF mk_state_inv[of "[] @ (16, False) # (32 + 8, True) # (16, True) # []" USE_FIRST_FIT], of 4128 40]
  by (simp add: sz_ok_def c_const align8_def)

text \<open>
  C13: when a block between allocated ones must grow to a size below 2^31 - 15 bytes and the
  heap ends in a free block that is big enough, implicit_mm_realloc returns NULL although a
  malloc of the same size succeeds: it goes to do_malloc without searching, and do_malloc asks
  for a non-positive extension.
\<close>

theorem implicit_realloc_ignores_free_tail:
  assumes "imp_inv fit s (xs @ (c + 8, True) # (v, True) # ys @ [(t, False)])" "q = heap_listp s + 8 + total xs"
    "lft xs = []" "8 \<le> c" "sz \<noteq> 0" "uint sz + 15 < 2 ^ 31" "c < align8 (uint sz)" "align8 (uint sz) + 8 \<le> t"
  shows "(\<exists>e. implicit_mm_realloc fit q sz s = Some (NULL, s\<lparr>errno := e\<rparr>))
    \<and> (\<exists>p s'. implicit_mm_malloc fit sz s = Some (p, s') \<and> p \<noteq> NULL)"
proof -
  let ?ys = "(v, True) # ys @ [(t, False)]" 
  let ?bs = "xs @ (c + 8, True) # ?ys" and ?k = "align8 (uint sz)"
  have h: "heap_inv s ?bs" using assms(1) by (simp add: imp_inv_def)
  note hd = heap_invD[OF h]
  have ok: "blks_ok xs" using seg_blks_ok[OF heap_inv_base(1)[OF h]] by simp
  have l: "(q, c) \<in> live (heap_listp s + 8) ?bs" using assms(2) by (simp add: algebra_simps)
  have sp: "split_at (heap_listp s + 8) q ?bs = (xs, (c + 8, True) # ?ys)"
    by (rule split_at_append[OF ok assms(2)])
  have ag: "agrow (mem_max_addr s) (heap_listp s + 8) ?k ?bs = None"
    by (rule agrow_None[of _ t]) (use assms(8) in \<open>simp_all add: tail_free_def\<close>)
  have "arealloc (mem_max_addr s) (heap_listp s + 8) ?k q ?bs = Fail"
    unfolding arealloc_def sp using assms(3,7) ag by (simp add: rgt_def Let_def)
  then have 1: "\<exists>e. implicit_mm_realloc fit q sz s = Some (NULL, s\<lparr>errno := e\<rparr>)"
    using implicit_realloc_spec[OF assms(1) l assms(4-6)] by simp
  have k: "?k + 8 < 2 ^ 31" "0 \<le> ?k" using assms(6) align8_facts[of "uint sz"] by auto
  let ?b = "(heap_listp s + 8 + total (xs @ (c + 8, True) # (v, True) # ys), t, False)"
  have "?b \<in> heap_blocks s ?bs" by (simp add: prologue_def)
  moreover have "fits ?k ?b" using assms(8) by (simp add: fits_def)
  ultimately have "amalloc fit (mem_max_addr s) (heap_listp s) (heap_curp s) ?k ?bs \<noteq> None"
    unfolding amalloc_None_iff[OF h k(2)] by blast
  then show ?thesis
    using implicit_malloc_spec[OF assms(1,5) refl k(1)] 1 by auto
qed

theorem implicit_realloc_ignores_free_tail_witness:
  "\<exists>e. implicit_mm_realloc USE_BEST_FIT 4112 20 (mk_state [(16, True), (16, True), (48, False)])
     = Some (NULL, (mk_state [(16, True), (16, True), (48, False)])\<lparr>errno := e\<rparr>)"
  using implicit_realloc_ignores_free_tail[OF mk_state_inv[of "[] @ (8 + 8, True) # (16, True) # [] @ [(48, False)]" USE_BEST_FIT], of 4112 20]
  by (simp add: sz_ok_def c_const align8_def lft_def rgt_def)

text \<open>
  C14: sizes are narrowed to int: a request of 2^32 bytes on a heap without a free last block
  and with room for 8 bytes succeeds and returns a payload of zero bytes.
\<close>

theorem implicit_malloc_wraps:
  assumes "imp_inv fit s bs" "\<not> tail_free bs" "mem_brk s + 8 \<le> mem_max_addr s"
  shows "\<exists>s'. implicit_mm_malloc fit (2 ^ 32) s = Some (mem_brk s, s') \<and> imp_inv fit s' (bs @ [(8, True)])
    \<and> mem_brk s' = mem_brk s + 8"
  by (rule malloc_wraps[OF assms])

theorem implicit_malloc_wraps_witness:
  "\<exists>s'. implicit_mm_malloc USE_BEST_FIT (2 ^ 32) (mk_state []) = Some (4112, s') \<and> mem_brk s' = 4120"
  using implicit_malloc_wraps[OF mk_state_inv[of "[]" USE_BEST_FIT]]
  by (auto simp: tail_free_def c_const)

section \<open>The segregated allocator\<close>

text \<open>
  C15: for requests of 9 to 2^31 - 16 bytes, on every heap that the invariant describes by a
  block list and the lists of free blocks, segregate_mm_malloc terminates and refines smalloc:
  it unlinks the first big enough block of the first list from the slot of the request on,
  splits it if a payload fits in the rest, or else extends the heap; all live payloads keep
  their bytes and the new one is disjoint from them; it returns NULL with the heap unchanged
  when the arena is full.
\<close>

theorem segregate_malloc_refines:
  assumes "seg_inv s bs fl" "9 \<le> uint v" "uint v + 15 < 2 ^ 31"
  shows "case smalloc (mem_max_addr s) (sbase s) (uint v) (bs, fl) of
      None \<Rightarrow> \<exists>e. segregate_mm_malloc v s = Some (NULL, s\<lparr>errno := e\<rparr>)
    | Some (p, bs', fl') \<Rightarrow> \<exists>s' c. segregate_mm_malloc v s = Some (p, s') \<and> seg_inv s' bs' fl'
        \<and> keeps (mem s) (mem s') (live (sbase s) bs)
        \<and> live (sbase s) bs' = insert (p, c) (live (sbase s) bs) \<and> align8 (uint v) \<le> c
        \<and> (\<forall>d. (p, d) \<notin> live (sbase s) bs) \<and> p \<noteq> NULL
        \<and> mem_start_brk s' = mem_start_brk s \<and> mem_max_addr s' = mem_max_addr s
        \<and> mem_brk s' \<le> mem_brk s + (align8 (uint v) + 8)"
  by (rule segregate_malloc_spec) (use assms in \<open>simp_all add: segregate_req_def\<close>)

theorem segregate_malloc_refines_witness:
  "\<exists>s s'. segregate_mm_init arena0 = (0, s) \<and> segregate_mm_malloc 20 s = Some (4200, s')
     \<and> seg_inv s' [(32, True)] (\<lambda>_. [])"
proof -
  obtain s where s: "segregate_mm_init arena0 = (0, s)" "seg_inv s [] (\<lambda>_. [])" "mem_start_brk s = 4096"
    "mem_max_addr s = 4096 + MAX_HEAP" using segregate_start by blast
  show ?thesis
    using segregate_malloc_refines[OF s(2), of 20] s(1,3,4)
    by (auto simp: smalloc_def no_lists align8_def c_const)
qed



text \<open>
  C17: for a live payload and a size of 0 or of 9 up to 2^31 - 16 bytes every branch of
  segregate_mm_realloc is determined. Size 0 frees the payload and returns NULL. Otherwise the
  call keeps the invariant and copies the old bytes up to the smaller size, whether the block
  stays, gives back its tail, or moves, as srealloc says; when it must move and malloc fails the
  copy to NULL has no defined result.
\<close>

theorem segregate_realloc_refines:
  assumes "seg_inv s bs fl" "(q, c) \<in> live (sbase s) bs" "n = 0 \<or> 9 \<le> uint n" "uint n + 15 < 2 ^ 31"
  shows "if n = 0 then segregate_mm_realloc q n s = Some (NULL, segregate_mm_free q s)
    else case srealloc (mem_max_addr s) (sbase s) (uint n) q (bs, fl) of
      None \<Rightarrow> segregate_mm_realloc q n s = None
    | Some (p, bs', fl') \<Rightarrow> \<exists>s'. segregate_mm_realloc q n s = Some (p, s')
        \<and> srealloc_post s bs q c (align8 (uint n)) p s' bs' fl'"
proof (cases "n = 0")
  case True
  note h = sheapD[OF seg_invD(4)[OF assms(1)]]
  have "q \<noteq> NULL" using live_bounds[OF h(1) assms(2)] h(4) by (simp add: NULL_def)
  then show ?thesis using True by (simp add: segregate_mm_realloc_def)
next
  case False
  then have "segregate_req n" using assms(3,4) by (simp add: segregate_req_def)
  from segregate_realloc_spec[OF assms(1,2) this] False show ?thesis by simp
qed

theorem segregate_realloc_refines_witness:
  "\<exists>s s' s'' fl. segregate_mm_malloc 60 s = Some (4200, s') \<and> segregate_mm_realloc 4200 30 s' = Some (4200, s'')
     \<and> seg_inv s'' [(40, True), (32, False)] fl"
proof -
  obtain s where s: "seg_inv s [] (\<lambda>_. [])" "mem_start_brk s = 4096"
    "mem_max_addr s = 4096 + MAX_HEAP" using segregate_start by blast
  have "segregate_req 60" by (simp add: segregate_req_def)
  from segregate_malloc_spec[OF s(1) this] obtain s' where s': "segregate_mm_malloc 60 s = Some (4200, s')"
    "seg_inv s' [(72, True)] (\<lambda>_. [])" "mem_start_brk s' = 4096" "mem_max_addr s' = 4096 + MAX_HEAP"
    using s(2,3) by (auto simp: smalloc_def no_lists align8_def c_const)
  have "(4200, 64) \<in> live (sbase s') [(72, True)]" using s'(3) by simp
  from segregate_realloc_refines[OF s'(2) this, of 30] s'(1,3,4) show ?thesis
    by (auto simp: srealloc_def align8_def srealloc_post_def Let_def merge_free_def rgt_def lft_def joined_def)
qed

text \<open>
  C18: every session with the segregated allocator is one that the abstract store of buffers
  allows. A session starts with an empty heap, whatever the arena holds. It is any sequence of
  mallocs and reallocs that return a buffer, each for 9 to 2^31 - 16 bytes and a realloc with
  room for a new block, of frees of held buffers, and of writes and reads inside them. Every new
  buffer is 8-byte aligned, not NULL and disjoint from the held ones, and every byte read is the
  one last written there, through all calls in between; realloc carries over the common prefix.
  Every held buffer lies between the start of the heap and the break, and memory holds its known
  bytes.
\<close>

theorem segregate_store_refines:
  assumes "session (mm_package USE_SEGREGATE_FIT) segregate_req s0 es s" "mem_wf s0" "mem_brk s0 = mem_start_brk s0"
  shows "store_allows Map.empty es \<and> (\<forall>p b. store_of es p = Some b \<longrightarrow> mem_start_brk s0 \<le> p
    \<and> p + int (length b) \<le> mem_brk s \<and> (\<forall>i<length b. b ! i = None \<or> b ! i = Some (mem s (p + int i))))"
  using segregate.session_sim[OF assms(1) segregate_boots[OF assms(2,3)]]
    segregate.session_buffer[OF assms(1) segregate_boots[OF assms(2,3)]] by blast

theorem segregate_store_refines_witness:
  "\<exists>p q s. session (mm_package USE_SEGREGATE_FIT) segregate_req arena0 [Malloc 10 p, Write p 3 7, Malloc 20 q, Read p 3 7] s
     \<and> 8 dvd q \<and> (q + 20 \<le> p \<or> p + 10 \<le> q)"
proof -
  let ?es = "\<lambda>p q v. [Malloc 10 p, Write p 3 7, Malloc 20 q, Read p 3 v]"
  have w: "mem_wf arena0" "mem_brk arena0 = mem_start_brk arena0" using arena0_wf by simp_all
  have "mem_start_brk arena0 + 104 + 56 \<le> mem_max_addr arena0" by (simp add: arena0_def c_const)
  then obtain p q v s where r: "session (mm_package USE_SEGREGATE_FIT) segregate_req arena0 (?es p q v) s"
    using segregate.session_sample[OF segregate_boots[OF w]] by (auto simp: segregate_req_def)
  from segregate_store_refines[OF this w] have "store_allows Map.empty (?es p q v)" by blast
  then have "v = 7" "8 dvd q" "q + 20 \<le> p \<or> p + 10 \<le> q" by (auto simp: placeable_def split: if_splits)
  then show ?thesis using r by blast
qed

text \<open>
  C19: the validity check of the driver accepts the segregated allocator, whatever the arena
  holds. Given a trace that allocates only ids without a block and reallocates or frees only ids
  with one, whose requests lie between 9 and 2^31 - 16 bytes, whose reallocated ids have a low
  byte below 128 (see the check of the data below) and whose blocks fit in the arena together,
  and memory for the range records, eval_mm_valid returns 1 and counts no error.
\<close>

theorem driver_accepts_segregate:
  assumes "trace_ok segregate_req True 104 d" "mem_wf (heap d)" "\<forall>n. libc_ok d n"
  shows "\<exists>d'. eval_mm_valid (mm_package USE_SEGREGATE_FIT) d = Ret 1 d' \<and> errors d' = errors d"
proof -
  have "base_state (\<lambda>s. mem_wf s \<and> mem_brk s = mem_start_brk s) d"
    using assms(2,3) by (simp add: base_state_def mem_reset_brk_def mem_wf_def)
  from segregate_restarts.valid_step[OF this assms(1)] show ?thesis by blast
qed

theorem driver_accepts_segregate_witness:
  "\<exists>d'. eval_mm_valid (mm_package USE_SEGREGATE_FIT) (sample_driver REALLOC) = Ret 1 d' \<and> errors d' = 0"
proof -
  have "trace_ok segregate_req True 104 (sample_driver REALLOC)"
    by (simp add: trace_ok_def sample_driver_def segregate_req_def cost_def align8_def c_const)
  then show ?thesis
    using driver_accepts_segregate[of "sample_driver REALLOC"] arena0_wf by (simp add: sample_driver_def)
qed

text \<open>
  C20: coalescing in the segregated allocator is complete: a heap without adjacent free blocks
  has none after a free of a live payload or a successful malloc of 9 to 2^31 - 16 bytes.
\<close>

theorem segregate_no_adjacent_free:
  assumes "seg_inv s bs fl" "no_adj bs"
  shows "(\<forall>(q, c)\<in>live (sbase s) bs. \<exists>bs' fl'. seg_inv (segregate_mm_free q s) bs' fl' \<and> no_adj bs')
    \<and> (\<forall>v p s'. segregate_req v \<and> segregate_mm_malloc v s = Some (p, s') \<and> p \<noteq> NULL
         \<longrightarrow> (\<exists>bs' fl'. seg_inv s' bs' fl' \<and> no_adj bs'))"
proof -
  have "\<exists>bs' fl'. seg_inv s' bs' fl' \<and> no_adj bs'"
    if v: "segregate_req v" "segregate_mm_malloc v s = Some (p, s')" "p \<noteq> NULL" for v p s'
    using segregate_malloc_spec[OF assms(1) v(1)] no_adj_smalloc[OF assms(2,1) req_slot[OF v(1)]] v(2,3)
    by (fastforce split: option.splits)
  then show ?thesis
    using segregate_free_spec(1)[OF assms(1)] no_adj_afree_seg[OF assms(2,1)] by blast
qed

theorem segregate_no_adjacent_free_witness:
  "\<exists>s s'. segregate_mm_malloc 20 s = Some (4200, s')
     \<and> (\<exists>bs fl. seg_inv (segregate_mm_free 4200 s') bs fl \<and> no_adj bs)"
proof -
  obtain s where s: "seg_inv s [] (\<lambda>_. [])" "mem_start_brk s = 4096"
    "mem_max_addr s = 4096 + MAX_HEAP" using segregate_start by blast
  have "segregate_req 20" by (simp add: segregate_req_def)
  from segregate_malloc_spec[OF s(1) this] obtain s' where s': "segregate_mm_malloc 20 s = Some (4200, s')"
    "seg_inv s' [(32, True)] (\<lambda>_. [])" "mem_start_brk s' = 4096"
    using s(2,3) by (auto simp: smalloc_def no_lists align8_def c_const)
  show ?thesis using segregate_no_adjacent_free[OF s'(2)] s'(1,3) by auto
qed

text \<open>
  C21: blocks of the smallest size are linked into slot 0 when they are freed but never
  unlinked: after freeing a 16-byte block between two allocated ones, two calls of malloc(8) in
  a row return the same address.
\<close>

theorem segregate_small_block_twice:
  assumes "seg_inv s (xs @ (16, True) # ys) fl" "q = sbase s + total xs" "lft xs = []" "rgt ys = []"
  shows "\<exists>s1 s2. segregate_mm_malloc 8 (segregate_mm_free q s) = Some (q, s1)
    \<and> segregate_mm_malloc 8 s1 = Some (q, s2)"
  by (rule small_block_twice[OF assms])

theorem segregate_small_block_twice_witness:
  "\<exists>s s0 s1 s2. segregate_mm_init arena0 = (0, s) \<and> segregate_mm_malloc 8 s = Some (4200, s0)
     \<and> segregate_mm_malloc 8 (segregate_mm_free 4200 s0) = Some (4200, s1) \<and> segregate_mm_malloc 8 s1 = Some (4200, s2)"
proof -
  obtain s where s: "segregate_mm_init arena0 = (0, s)" "seg_inv s [] (\<lambda>_. [])" "mem_start_brk s = 4096"
    "mem_brk s = 4200" "mem_max_addr s = 4096 + MAX_HEAP" "NEXT_FREE_BLKP (mem s) 4096 = NULL"
    using segregate_start by blast
  obtain s0 where s0: "segregate_mm_malloc 8 s = Some (4200, s0)" "seg_inv s0 [(16, True)] (\<lambda>_. [])" "mem_start_brk s0 = 4096"
    using small_fresh[OF s(2)] s(3-6) by (auto simp: c_const)
  show ?thesis
    using segregate_small_block_twice[of s0 "[]" "[]" "\<lambda>_. []" 4200] s(1) s0 by (auto simp: lft_def rgt_def)
qed

text \<open>
  C22: segregate_mm_realloc does not test the result of malloc: if the block must grow to a size
  of 9 to 2^31 - 16 bytes, no free block is big enough and the arena is full, it copies the
  payload to NULL.
\<close>

theorem segregate_realloc_null_copy:
  assumes "seg_inv s bs fl" "(q, c) \<in> live (sbase s) bs" "segregate_req n" "c < align8 (uint n)"
    "\<forall>t \<in> fst ` set (filter (\<lambda>(t, a). \<not> a) bs). t < align8 (uint n) + 8" "mem_max_addr s < mem_brk s + align8 (uint n) + 8"
  shows "segregate_mm_realloc q n s = None"
proof -
  let ?k = "align8 (uint n)"
  note rq = segregate_reqD[OF assms(3)]
  have aa: "align8 ?k = ?k" by (rule align8_facts(6)[OF rq(5)])
  have s1: "1 \<le> slot (?k + 8)" by (rule slot_bounds(3)) (use rq(3,6) in auto) 
  have "asearch (sbase s) (?k + 8) (slot (?k + 8)) bs fl = None"
  proof (rule ccontr)
    assume "asearch (sbase s) (?k + 8) (slot (?k + 8)) bs fl \<noteq> None"
    then obtain p where "asearch (sbase s) (?k + 8) (slot (?k + 8)) bs fl = Some p" by auto
    from asearch_Some[OF assms(1) s1 this] assms(5) show False by force
  qed
  then have "smalloc (mem_max_addr s) (sbase s) ?k (bs, fl) = None"
    using assms(6) seg_invD(3)[OF assms(1)] by (simp add: smalloc_def Let_def aa)
  moreover obtain xs ys where x: "bs = xs @ (c + 8, True) # ys" "q = sbase s + total xs" using assms(2) by (rule live_split)
  then have "split_at (sbase s) q bs = (xs, (c + 8, True) # ys)"
    using split_at_append[OF _ x(2)] sheapD(2)[OF seg_invD(4)[OF assms(1)]] by simp
  ultimately have "srealloc (mem_max_addr s) (sbase s) (uint n) q (bs, fl) = None"
    using assms(4) by (simp add: srealloc_def Let_def)
  then show ?thesis using segregate_realloc_spec[OF assms(1-3)] by simp
qed

theorem segregate_realloc_null_copy_witness:
  "\<exists>s s1 s2. segregate_mm_init arena0 = (0, s) \<and> segregate_mm_malloc 20 s = Some (4200, s1)
     \<and> (\<exists>p. segregate_mm_malloc 20971000 s1 = Some (p, s2)) \<and> segregate_mm_realloc 4200 500 s2 = None"
proof -
  obtain s where s: "segregate_mm_init arena0 = (0, s)" "seg_inv s [] (\<lambda>_. [])" "mem_start_brk s = 4096"
    "mem_max_addr s = 4096 + MAX_HEAP" using segregate_start by blast
  have r: "segregate_req 20" "segregate_req 20971000" "segregate_req 500" by (simp_all add: segregate_req_def)
  obtain s1 where s1: "segregate_mm_malloc 20 s = Some (4200, s1)" "seg_inv s1 [(32, True)] (\<lambda>_. [])"
    "mem_start_brk s1 = 4096" "mem_max_addr s1 = 4096 + MAX_HEAP"
    using segregate_malloc_spec[OF s(2) r(1)] s(3,4) by (auto simp: smalloc_def no_lists align8_def c_const)
  obtain p s2 where s2: "segregate_mm_malloc 20971000 s1 = Some (p, s2)" "seg_inv s2 [(32, True), (20971008, True)] (\<lambda>_. [])"
    "mem_start_brk s2 = 4096" "mem_max_addr s2 = 4096 + MAX_HEAP"
    using segregate_malloc_spec[OF s1(2) r(2)] s1(3,4) by (auto simp: smalloc_def no_lists align8_def c_const)
  have "mem_brk s2 = 20975240" using seg_invD(3)[OF s2(2)] s2(3) by simp
  then have "segregate_mm_realloc 4200 500 s2 = None"
    using segregate_realloc_null_copy[OF s2(2) _ r(3), of 4200 24] s2(3,4) by (simp add: align8_def c_const)
  then show ?thesis using s(1) s1(1) s2(1) by blast
qed

text \<open>
  C23: for every positive int the bit tricks of flt_index compute the slot ranges of the table:
  sizes 1 to 8, 9 to 16, 17 to 32, and so on, up to the last slot for everything above 4096.
\<close>

theorem flt_index_spec:
  assumes "1 \<le> uint v" "uint v < 2 ^ 31"
  shows "flt_index v \<le> 10 \<and> (\<forall>i. flt_index v \<le> i \<longleftrightarrow> 10 \<le> i \<or> uint v \<le> 2 ^ (i + 3))"
  using flt_index_slots[OF assms] by blast

theorem flt_index_spec_witness: "flt_index 33 \<le> 3 \<and> \<not> flt_index 33 \<le> 2"
  using flt_index_spec[of 33] by simp

section \<open>The driver\<close>

text \<open>
  C24: a fresh trace (blocks NULL and sizes 0, both arrays of num_ids elements, num_ops
  requests, frees without a size) whose largest allocated id is num_ids - 1, printed in the
  format of the trace files, is read back by read_trace as that trace when its allocations
  succeed, whatever the fresh memory held.
\<close>

theorem read_trace_roundtrip:
  assumes "sint (num_ids t) = int (length (blocks t))" "set (blocks t) \<subseteq> {NULL}" "block_sizes t = replicate (length (blocks t)) 0"
    and "sint (num_ops t) = int (length (ops t))" "list_all op_clean (ops t)" "max_id 0 (ops t) = num_ids t - 1"
  shows "read_trace junk jsize (\<lambda>_. True) (Some (print_trace t)) = Ret t []"
  by (rule read_trace_print[OF assms])

theorem read_trace_roundtrip_witness:
  "read_trace some_trace 0 (\<lambda>_. True) (Some (print_trace sample_trace)) = Ret sample_trace []
    \<and> print_trace sample_trace = ''100'' @ [newline] @ ''2'' @ [newline] @ ''4'' @ [newline] @ ''1'' @ [newline]
        @ ''a 0 10'' @ [newline] @ ''a 1 200'' @ [newline] @ ''r 0 64'' @ [newline] @ ''f 1'' @ [newline]"
proof
  show "read_trace some_trace 0 (\<lambda>_. True) (Some (print_trace sample_trace)) = Ret sample_trace []"
    by (rule read_trace_roundtrip) (simp_all add: sample_defs op_clean_def)
  show "print_trace sample_trace = ''100'' @ [newline] @ ''2'' @ [newline] @ ''4'' @ [newline] @ ''1'' @ [newline]
        @ ''a 0 10'' @ [newline] @ ''a 1 200'' @ [newline] @ ''r 0 64'' @ [newline] @ ''f 1'' @ [newline]"
    by (simp add: sample_defs print_trace_def print_op_def dec_int_def dec.simps char_of_def bit_0)
qed

text \<open>
  C25: every trace read_trace returns is well formed: both arrays of blocks have num_ids
  elements, the array of requests has num_ops elements, and the ids of all allocations and
  reallocations lie in the arrays if these are not empty.
\<close>

theorem read_trace_typed:
  assumes "read_trace junk jsize ok file = Ret t s"
  shows "length (blocks t) = length (block_sizes t) \<and> sint (num_ops t) = int (length (ops t))
    \<and> sint (num_ids t) = int (length (blocks t))
    \<and> (blocks t \<noteq> [] \<longrightarrow> (\<forall>r\<in>set (ops t). op_type r \<noteq> FREE \<longrightarrow> in_array (op_index r) (blocks t)))"
  using read_trace_checked[OF assms] ids_below_in_array by blast

theorem read_trace_typed_witness:
  "\<exists>t s. read_trace some_trace 0 (\<lambda>_. True) (Some (print_trace sample_trace)) = Ret t s
     \<and> sint (num_ops t) = int (length (ops t)) \<and> blocks t \<noteq> []"
proof -
  have "read_trace some_trace 0 (\<lambda>_. True) (Some (print_trace sample_trace)) = Ret sample_trace []"
    by (rule read_trace_print) (simp_all add: sample_defs op_clean_def)
  from read_trace_typed[OF this] this show ?thesis by (auto simp: sample_defs)
qed





text \<open>
  C28: what is timed is what was measured: if eval_mm_util completes on a trace then
  eval_mm_speed completes from the same state, makes the same calls of the package and ends with
  the same heap and the same array of blocks.
\<close>

theorem speed_repeats_util:
  assumes "eval_mm_util P d = Ret x u"
  shows "\<exists>d'. eval_mm_speed P d = Ret () d' \<and> heap d' = heap (drv u) \<and> blocks (trace d') = blocks (trace (drv u))
    \<and> ranges d' = ranges d \<and> block_sizes (trace d') = block_sizes (trace d)"
  using eval_mm_speed_follows[OF assms] by (simp add: follows_def)

theorem speed_repeats_util_witness:
  "\<exists>u d'. (\<exists>x. eval_mm_util (mm_package (USE_IMPLICIT USE_BEST_FIT)) (sample_driver FREE) = Ret x u)
    \<and> eval_mm_speed (mm_package (USE_IMPLICIT USE_BEST_FIT)) (sample_driver FREE) = Ret () d' \<and> heap d' = heap (drv u)"
proof -
  obtain s' where s': "pkg_init (mm_package (USE_IMPLICIT USE_BEST_FIT)) (heap (sample_driver FREE)) = (0, s')"
    "implicit_wf USE_BEST_FIT s' {}" "mem_brk s' = mem_start_brk s' + 16"
    using implicit.init_ok[OF arena0_pristine, of USE_BEST_FIT] by (auto simp: same_arena_def sample_driver_def)
  have "trace_ok implicit_req False 16 (sample_driver FREE)"
    by (simp add: trace_ok_def sample_driver_def implicit_req_def cost_def align8_def c_const)
  from implicit_grows.eval_mm_util_ok[OF this _ s'] obtain u x where
    u: "eval_mm_util (mm_package (USE_IMPLICIT USE_BEST_FIT)) (sample_driver FREE) = Ret x u" by auto
  from speed_repeats_util[OF u] u show ?thesis by blast
qed

text \<open>
  C29: what the verdict of the validity check means, for any package on any trace: if
  eval_mm_valid returns, then it returns 1 and counts no error, or 0 and counts exactly one; at
  the end all recorded payloads are aligned, and any two are disjoint, up to the case that the
  later one strictly encloses the earlier one, which the check misses.
\<close>

theorem eval_mm_valid_verdict:
  assumes "eval_mm_valid P d = Ret v d'"
  shows "(v = 1 \<and> errors d' = errors d \<or> v = 0 \<and> errors d' = errors d + 1)
    \<and> (\<forall>r\<in>set (ranges d'). 8 dvd lo r)
    \<and> (\<forall>i j. i < j \<and> j < length (ranges d') \<longrightarrow>
         (let new = ranges d' ! i; old = ranges d' ! j
          in hi new < lo old \<or> hi old < lo new \<or> lo new < lo old \<and> hi old < hi new))"
  using eval_mm_valid_sound[OF assms]
  by (auto simp: verdict_def ranges_ok_def sorted_wrt_iff_nth_less range_apart_def Let_def)

theorem eval_mm_valid_verdict_witness:
  "\<exists>d'. eval_mm_valid (mm_package USE_SEGREGATE_FIT) (sample_driver REALLOC) = Ret 1 d' \<and> errors d' = 0
     \<and> (\<forall>r\<in>set (ranges d'). 8 dvd lo r)"
proof -
  have "trace_ok segregate_req True 104 (sample_driver REALLOC)"
    by (simp add: trace_ok_def sample_driver_def segregate_req_def cost_def align8_def c_const)
  moreover have "pristine (mem_reset_brk (heap (sample_driver REALLOC)))"
    using arena0_pristine by (simp add: sample_driver_def mem_reset_brk_def arena0_def)
  ultimately obtain d' where d: "eval_mm_valid (mm_package USE_SEGREGATE_FIT) (sample_driver REALLOC) = Ret 1 d'"
    using segregate.eval_mm_valid_realloc by (fastforce simp: sample_driver_def)
  from eval_mm_valid_verdict[OF d] d show ?thesis by (auto simp: sample_driver_def)
qed

text \<open>
  C30: for a size that is not negative and with memory for the record, add_range accepts a
  payload, and records exactly its extent, if and only if its address is 8-byte aligned, its
  first and last byte lie in the heap and neither of them lies in a recorded range; otherwise it
  counts one error and keeps the list.
\<close>

theorem add_range_iff:
  assumes "0 \<le> sint sz" "\<forall>n. libc_ok d n"
  shows "let h = l + sint sz - 1 in case add_range l sz d of
      Ret r d' \<Rightarrow> heap d' = heap d \<and> trace d' = trace d \<and>
        (if 8 dvd l \<and> in_heap (heap d) l \<and> in_heap (heap d) h
            \<and> (\<forall>r\<in>set (ranges d). (l < lo r \<or> hi r < l) \<and> (h < lo r \<or> hi r < h))
         then r = 1 \<and> ranges d' = \<lparr>lo = l, hi = h\<rparr> # ranges d \<and> errors d' = errors d
         else r = 0 \<and> ranges d' = ranges d \<and> errors d' = errors d + 1)
    | _ \<Rightarrow> False"
  using assms(1,2)
  by (auto simp: add_range_def malloc_error_def IS_ALIGNED_iff in_heap_def mem_heap_lo_def mem_heap_hi_def Let_def)

theorem add_range_iff_witness:
  "case add_range 4116 8 sample_ranges of Ret r d' \<Rightarrow> r = 0 \<and> errors d' = 1 | _ \<Rightarrow> False"
  using add_range_iff[of 8 sample_ranges 4116] by (simp add: sample_driver_def split: outcome.splits)

text \<open>
  C31: the overlap test of add_range looks only at the end points: an aligned payload inside the
  heap that strictly encloses the only recorded one is accepted without an error.
\<close>

theorem add_range_misses_enclosing:
  assumes "8 dvd l" "in_heap (heap d) l" "in_heap (heap d) (l + sint sz - 1)" "ranges d = [r]"
    "l < lo r" "hi r < l + sint sz - 1" "lo r \<le> hi r" "libc_ok d (libc_calls d)"
  shows "\<exists>d'. add_range l sz d = Ret 1 d' \<and> errors d' = errors d \<and> {lo r..hi r} \<subseteq> {l..l + sint sz - 1}"
  using assms by (auto simp: add_range_def IS_ALIGNED_iff in_heap_def mem_heap_lo_def mem_heap_hi_def Let_def)

theorem add_range_misses_enclosing_witness:
  "\<exists>d'. add_range 4112 24 sample_ranges = Ret 1 d' \<and> {4120..4127} \<subseteq> {4112..4135::int}"
  using add_range_misses_enclosing[of 4112 sample_ranges 24 "\<lparr>lo = 4120, hi = 4127\<rparr>"]
  by (auto simp: sample_driver_def in_heap_def)

text \<open>
  C32: char is signed: for an id whose low byte is at least 128 and a block that is not empty,
  the check that realloc preserved the data fails although every byte of the block holds the low
  byte of the id.
\<close>

theorem data_check_false_alarm:
  assumes "128 \<le> sint i mod 256" "0 < n" "\<forall>j. 0 \<le> j \<and> j < n \<longrightarrow> mem (heap d) (p + j) = ucast (i AND 0xFF)"
  shows "\<not> data_kept p i n d"
proof -
  have "sint i mod 2 ^ 32 = uint i" by (simp add: uint_sint take_bit_eq_mod)
  moreover have "sint i mod 2 ^ 32 mod 256 = sint i mod 256" by (rule mod_mod_cancel) simp
  ultimately have "uint i mod 256 = sint i mod 256" by simp
  then have u: "128 \<le> uint (i AND 0xFF)" "uint (i AND 0xFF) < 256"
    using assms(1) by (simp_all add: uint_low_byte)
  let ?b = "ucast (i AND 0xFF) :: byte"
  have "uint ?b = uint (i AND 0xFF)" using u(2) by (simp add: unsigned_ucast_eq take_bit_int_eq_self)
  then have "uint ?b div 2 ^ 7 = 1" using u by simp
  then have "bit (uint ?b) 7" by (simp add: bit_iff_odd)
  then have "sint ?b < 0" by (simp add: sint_uint signed_take_bit_negative_iff)
  moreover have "0 \<le> sint (i AND 0xFF)" using sint_small[of "i AND 0xFF"] u by simp
  ultimately show ?thesis using assms(2) assms(3)[rule_format, of 0]
    by (auto simp: data_kept_def intro!: bexI[of _ 0])
qed

theorem data_check_false_alarm_witness:
  "\<not> data_kept 4112 200 3 (sample_driver FREE\<lparr>heap := arena0\<lparr>mem := \<lambda>_. 200\<rparr>\<rparr>)"
  by (rule data_check_false_alarm) simp_all

text \<open>
  C33: read_trace does not check the ids of frees: it accepts a file that frees an id outside
  the array of blocks, and the validity check then reads outside that array.
\<close>

theorem read_trace_free_unchecked:
  "\<exists>file t. (\<forall>junk jsize. read_trace junk jsize (\<lambda>_. True) (Some file) = Ret t [])
     \<and> (\<exists>r\<in>set (ops t). op_type r = FREE \<and> \<not> in_array (op_index r) (blocks t)
          \<and> (\<forall>P d. valid_op P r (d\<lparr>trace := t\<rparr>) = Undef))"
proof -
  have "read_trace junk jsize (\<lambda>_. True) (Some (print_trace bad_free_trace)) = Ret bad_free_trace []" for junk jsize
    by (rule read_trace_print) (simp_all add: bad_free_trace_def op_clean_def)
  moreover have "\<lparr>op_type = FREE, op_index = 7, op_size = 0\<rparr> \<in> set (ops bad_free_trace)"
    "\<not> in_array 7 (blocks bad_free_trace)" by (simp_all add: bad_free_trace_def in_array_def)
  ultimately show ?thesis
    by (intro exI[of _ "print_trace bad_free_trace"] exI[of _ bad_free_trace]) (force simp: valid_op_def valid_free_def)
qed

text \<open>
  C34: with the option -l, gettimeofday and an allocator of libc that never fails, the first
  trace file, if it is readable and its ids lie in the arrays, makes main clear the simulated
  memory before mem_init has allocated it, which has no defined result.
\<close>

theorem libc_option_undefined:
  assumes "\<forall>n l. fst (l_malloc L n l) \<noteq> NULL" "\<forall>p n l. fst (l_realloc L p n l) \<noteq> NULL"
    and "read_trace junk jsize (\<lambda>_. True) f = Ret t s" "\<forall>r\<in>set (ops t). in_array (op_index r) (blocks t)"
    and "\<forall>n. libc_ok d n" "mem_start_brk (heap d) = NULL"
  shows "main pf USE_GETTOD P True L junk jsize (f # fs) p ((d, l), w) = Undef"
  by (rule main_libc_undefined[OF _ _ assms(3-)]) (use assms(1,2) in auto)

theorem libc_option_undefined_witness:
  "main I386 USE_GETTOD (mm_package USE_SEGREGATE_FIT) True (sample_libc\<lparr>l_malloc := \<lambda>n a. (4096, a)\<rparr>) some_trace 0
     [Some (print_trace sample_trace)] 4096 (((sample_driver FREE)\<lparr>heap := arena0\<lparr>mem_start_brk := NULL\<rparr>\<rparr>, 0), sample_timing) = Undef"
proof (rule libc_option_undefined)
  show "read_trace some_trace 0 (\<lambda>_. True) (Some (print_trace sample_trace)) = Ret sample_trace []"
    by (rule read_trace_print) (simp_all add: sample_defs op_clean_def)
qed (simp_all add: sample_libc_def sample_defs in_array_def)

section \<open>Measuring time\<close>

text \<open>
  C35: if every measurement returns, kbest is at least 1 and calloc provides the samples, fcyc
  ends and returns the least of the samples it took; it takes at most maxsamples (and at least
  one), and stops at the first sample after which the kbest smallest ones lie within epsilon of
  each other.
\<close>

theorem fcyc_kbest:
  assumes "\<forall>n. \<exists>rs w'. measures pf g n w = Ret rs w'" "1 \<le> kbest (snd w)" "calloc_ok (snd w) (kbest (snd w))"
  shows "\<exists>rs p' w'. fcyc pf g p w = Ret (Min (set rs)) (p', w') \<and> measures pf g (length rs) w = Ret rs w'
    \<and> 1 \<le> length rs \<and> int (length rs) \<le> max 1 (maxsamples (snd w)) \<and> stops (snd w) rs
    \<and> (\<forall>j. 0 < j \<longrightarrow> j < length rs \<longrightarrow> \<not> stops (snd w) (take j rs))"
  by (rule fcyc_returns[OF assms])

theorem fcyc_kbest_witness:
  "\<exists>rs p' w'. fcyc I386 (\<lambda>s. Ret () s) \<lparr>vals = None, samplecount = 0\<rparr> ((), sample_fcyc) = Ret (Min (set rs)) (p', w')
     \<and> 1 \<le> length rs \<and> length rs \<le> 20"
proof -
  let ?w = "((), sample_fcyc)" and ?p = "\<lparr>vals = None, samplecount = 0\<rparr>"
  have m: "\<forall>n. \<exists>rs w'. measures I386 (\<lambda>s. Ret () s) n ?w = Ret rs w'"
    by (intro allI measures_I386) (simp_all add: sample_fcyc_def fcyc_start_def)
  have k: "1 \<le> kbest (snd ?w)" "calloc_ok (snd ?w) (kbest (snd ?w))" "maxsamples (snd ?w) = 20"
    by (simp_all add: sample_fcyc_def fcyc_start_def)
  obtain rs p' w' where "fcyc I386 (\<lambda>s. Ret () s) ?p ?w = Ret (Min (set rs)) (p', w')"
    "1 \<le> length rs" "int (length rs) \<le> max 1 (maxsamples (snd ?w))"
    using fcyc_kbest[OF m k(1,2), of ?p] by blast
  then show ?thesis unfolding k(3) by (intro exI[of _ rs] exI[of _ p'] exI[of _ w']) simp
qed

text \<open>
  C36: on x86, subtracting the halves with a borrow is a subtraction of 64 bits: start_counter
  followed later by get_counter yields the difference of the two readings of the cycle counter,
  modulo 2^64.
\<close>

theorem get_counter_elapsed:
  "\<exists>c1. start_counter I386 c = Ret () c1 \<and> (\<forall>j. \<exists>c2. get_counter I386 (c1\<lparr>tsc_reads := j\<rparr>)
      = Ret (real_of_int (uint (tsc c j - tsc c (tsc_reads c)))) c2)"
proof -
  define c1 where "c1 = c\<lparr>tsc_reads := tsc_reads c + 1,
     cyc_hi := ucast (drop_bit 32 (tsc c (tsc_reads c))), cyc_lo := ucast (tsc c (tsc_reads c))\<rparr>"
  have "start_counter I386 c = Ret () c1" by (simp add: start_counter_I386 c1_def)
  moreover have "started (tsc c (tsc_reads c)) (c1\<lparr>tsc_reads := j\<rparr>)" for j by (simp add: started_def c1_def)
  from get_counter_I386[OF this] have "\<exists>c2. get_counter I386 (c1\<lparr>tsc_reads := j\<rparr>)
      = Ret (real_of_int (uint (tsc c j - tsc c (tsc_reads c)))) c2" for j
    by (simp add: c1_def del: of_int_uint)
  ultimately show ?thesis by blast
qed

text \<open>
  C37: on x86 and before any calibration, if the first hundred readings each show a gap of at
  least THRESHOLD cycles and a later user time, callibrate returns after NEVENT events and sets
  cyc_per_tick to the least ratio of cycles to ticks above RECORDTHRESH.
\<close>

theorem callibrate_liveness:
  assumes "cyc_per_tick c = 0" "ticks_from c (tsc c (tsc_reads c)) (tsc_reads c + 1) (times_calls c) NEVENT"
  shows "\<exists>c'. callibrate I386 c = Ret () c' \<and> tsc_reads c' = tsc_reads c + NEVENT + 2
    \<and> cyc_per_tick c' = fewest (ratios c (tsc c (tsc_reads c)) (tsc_reads c + 1) (times_calls c) NEVENT)"
  by (rule callibrate_returns[OF assms])

theorem callibrate_liveness_witness:
  "\<exists>c'. callibrate I386 sample_clock = Ret () c' \<and> tsc_reads c' = 102 \<and> cyc_per_tick c' = 5000"
proof -
  have u: "uint (word_of_int (5000 * int k) :: 64 word) = 5000 * int k" if "k < 1000" for k
    unfolding uint_word_of_int by (rule mod_pos_pos_trivial) (use that in auto)
  have si: "since sample_clock (tsc sample_clock 0) k = 5000 * real k" if "k < 1000" for k
    using u[OF that] by (simp add: since_def sample_clock_def del: of_int_uint)
  have "ticks_from sample_clock (tsc sample_clock 0) 1 0 NEVENT"
    by (auto simp: ticks_from_def si NEVENT_def THRESHOLD_def) (simp add: sample_clock_def)
  moreover have "ratios sample_clock (tsc sample_clock 0) 1 0 NEVENT = map (\<lambda>_. 5000) [0..<NEVENT]"
    by (auto simp: ratios_def si NEVENT_def) (simp add: sample_clock_def)
  moreover have "{r \<in> set (map (\<lambda>_. 5000 :: real) [0..<NEVENT]). r > RECORDTHRESH} = {5000}"
    by (auto simp: NEVENT_def RECORDTHRESH_def image_constant_conv)
  then have "fewest (map (\<lambda>_. 5000) [0..<NEVENT]) = 5000" by (simp only: fewest_def Let_def) simp
  ultimately show ?thesis
    using callibrate_liveness[of sample_clock] by (simp add: NEVENT_def sample_clock_def)
qed

text \<open>
  C38: with a block size that is not negative, a cache of at least one int and a buffer that
  malloc has yet to provide and does, clear walks the buffer in steps of cache_block / sizeof
  (int) integers, and ends exactly if that step is not 0: a block size of 0 to 3 bytes makes it
  loop for ever.
\<close>

theorem clear_terminates_iff:
  assumes "0 \<le> sint (cache_block f)" "4 \<le> sint (cache_bytes f)" "cache_buf f = None" "malloc_ok f (scast (cache_bytes f))"
  shows "if 4 \<le> sint (cache_block f) then \<exists>f'. clear f = Ret () f' else clear f = Hang"
  by (rule clear_returns_iff[OF assms])

theorem clear_terminates_iff_witness:
  "(\<exists>f'. clear sample_fcyc = Ret () f') \<and> clear (set_fcyc_cache_block 2 sample_fcyc) = Hang"
  using clear_terminates_iff[of sample_fcyc] clear_terminates_iff[of "set_fcyc_cache_block 2 sample_fcyc"]
  by (simp add: sample_fcyc_def fcyc_start_def set_fcyc_cache_block_def)

text \<open>
  C39: the cycle-counter method as a whole on a Pentium, from a timing package whose cache
  buffer is not yet allocated: after init_fsecs has measured a clock rate that is not 0, if the
  clock ticks so that the calibration ends, memory for the cache buffer and the samples is there
  and the block size is at least 4, fsecs ends for every function that returns, after 1 to 20
  measurements, each with the cache cleared and timer interrupts compensated, and returns the
  least of them divided by the cycles per second.
\<close>

theorem fsecs_kbest:
  assumes "init_fsecs I386 USE_FCYC t0 = Ret () t" "\<forall>s. \<exists>s'. g s = Ret () s'" "Mhz t \<noteq> 0"
    and "4 \<le> sint (cache_block (fcyc_pkg t0))" "cache_buf (fcyc_pkg t0) = None"
      "malloc_ok (fcyc_pkg t0) (scast (cache_bytes (fcyc_pkg t0)))" "calloc_ok (fcyc_pkg t0) 3"
    and "calibrated (clk (fcyc_pkg t))"
  shows "\<exists>rs w w'. measures I386 g (length rs) (s, fcyc_pkg t) = Ret rs w \<and> 1 \<le> length rs \<and> length rs \<le> 20
    \<and> fsecs I386 USE_FCYC g h (s, t) = Ret (Min (set rs) / (Mhz t * 10 ^ 6)) w'"
  by (rule fsecs_fcyc[OF assms])

theorem fsecs_kbest_witness:
  "\<exists>t rs w. init_fsecs I386 USE_FCYC sample_timing = Ret () t \<and> 1 \<le> length rs \<and> length rs \<le> 20
     \<and> fsecs I386 USE_FCYC (\<lambda>s. Ret () s) (\<lambda>s. Ret () s) ((), t) = Ret (Min (set rs) / 2500) w"
proof -
  let ?c = "clk (fcyc_pkg sample_timing)"
  have c: "?c = sample_clock" by (simp add: sample_timing_def sample_fcyc_def fcyc_start_def)
  obtain t where t: "init_fsecs I386 USE_FCYC sample_timing = Ret () t"
    "Mhz t = real_of_int (uint (tsc ?c (tsc_reads ?c + 1) - tsc ?c (tsc_reads ?c))) / 2000000"
    using init_fsecs_fcyc[of sample_timing] by blast
  have m: "Mhz t = 1 / 400" unfolding t(2) c by (simp add: sample_clock_def)
  have "calibrated (clk (fcyc_pkg t))"
    by (rule sample_calibrated)
      (use t(1) c in \<open>auto simp: init_fsecs_def with_clock_def set_fcyc_maxsamples_def set_fcyc_clear_cache_def
        set_fcyc_compensate_def set_fcyc_epsilon_def set_fcyc_k_def mhz_def mhz_full_def start_counter_I386
        get_counter_def access_counter_def sample_clock_def Let_def\<close>)
  then obtain rs w where r: "1 \<le> length rs" "length rs \<le> 20"
    "fsecs I386 USE_FCYC (\<lambda>s. Ret () s) (\<lambda>s. Ret () s) ((), t) = Ret (Min (set rs) / (Mhz t * 10 ^ 6)) w"
    using fsecs_kbest[OF t(1), of "\<lambda>s. Ret () s" "()" "\<lambda>s. Ret () s"] m
    by (auto simp: sample_timing_def sample_fcyc_def fcyc_start_def)
  have "Mhz t * 10 ^ 6 = 2500" using m by simp
  from t(1) r(1,2) r(3)[unfolded this] show ?thesis by blast
qed

section \<open>Headers\<close>

text \<open>
  C40: packing a size that is a multiple of 8 with an allocation bit and writing it as a header
  reads back as that size and that bit, and the write changes only its four bytes.
\<close>

theorem header_roundtrip:
  assumes "8 dvd uint (sz :: u32)" "al = 0 \<or> al = 1"
  shows "GET_SIZE (SET m p (PACK sz al)) p = sz \<and> GET_ALLOC (SET m p (PACK sz al)) p = al
    \<and> same_on (- {p..<p + 4}) m (SET m p (PACK sz al))"
proof -
  obtain k where k: "uint sz = 8 * k" using assms(1) by (auto elim: dvdE)
  have pk: "uint (PACK sz al) = uint sz + uint al"
    using assms(2) k by (auto simp: PACK_def unsigned_or_eq or_one_eq)
  have "uint (PACK sz al AND NOT 7) = uint sz"
    unfolding uint_not7 pk using assms(2) k by auto
  then have 1: "PACK sz al AND NOT 7 = sz" by (simp add: word_uint_eq_iff)
  have "uint (PACK sz al AND 1) = uint al"
    unfolding uint_and1 pk using assms(2) k by (auto simp: mod_add_left_eq[of "8 * k" 2 1, symmetric])
  then have 2: "PACK sz al AND 1 = al" by (simp add: word_uint_eq_iff)
  show ?thesis
    using 1 2 same_on_store32[of "- {p..<p + 4}" p m "PACK sz al"]
    by (simp add: GET_SIZE_def GET_ALLOC_def GET_def SET_def)
qed

theorem header_roundtrip_witness:
  "GET_SIZE (SET (\<lambda>_. 0) 100 (PACK (24 :: u32) 1)) 100 = 24"
  using header_roundtrip[of 24 1 "\<lambda>_. 0" 100] by simp

end
